(* ===== verification/Prelude.thy ===== *)
theory Prelude
  imports Main "HOL-Library.Word"
begin

text \<open>
  Shared vocabulary of the development: the machine types of the C sources, the value
  domain of fallible operations (a sum whose left side says why an operation returned
  \<open>false\<close>, with out-of-range memory accesses as a value of their own), checked loads and
  stores on byte buffers, C strings, the \<open>snprintf\<close> and \<open>strtoul\<close> conversions the
  sources use, and the buffer-doubling loop that four routines share.
\<close>

unbundle bit_operations_syntax

section \<open>Collections of rules\<close>

named_theorems codec_simps \<open>evaluation of codecs on well-formed input\<close>
named_theorems frame_simps \<open>state components an operation leaves alone\<close>

section \<open>Machine types\<close>

type_synonym byte = "8 word"
type_synonym u16 = "16 word"
type_synonym u32 = "32 word"
type_synonym u64 = "64 word"

section \<open>Fallible computations\<close>

text \<open>
  \<open>Reject\<close> is a deliberate \<open>return false\<close>, \<open>NoMem\<close> a failed allocation, and
  \<open>OutOfBounds\<close> marks an access outside its object, which C leaves undefined.
\<close>

datatype cerr = Reject | NoMem | OutOfBounds

type_synonym 'a cres = "cerr + 'a"

definition bind_sum :: "'e + 'a \<Rightarrow> ('a \<Rightarrow> 'e + 'b) \<Rightarrow> 'e + 'b" where
  "bind_sum r f = (case r of Inl e \<Rightarrow> Inl e | Inr x \<Rightarrow> f x)"

lemma bind_sum_simps [simp]:
  "bind_sum (Inl e) f = Inl e"
  "bind_sum (Inr x) f = f x"
  by (simp_all add: bind_sum_def)

lemma bind_sum_eq_Inr: "bind_sum r f = Inr y \<longleftrightarrow> (\<exists>x. r = Inr x \<and> f x = Inr y)"
  by (cases r) auto

definition to_option :: "'e + 'a \<Rightarrow> 'a option" where
  "to_option r = (case r of Inl _ \<Rightarrow> None | Inr x \<Rightarrow> Some x)"

lemma to_option_simps [simp]: "to_option (Inl e) = None" "to_option (Inr x) = Some x"
  by (simp_all add: to_option_def)

section \<open>Checked memory accesses\<close>

definition load :: "byte list \<Rightarrow> nat \<Rightarrow> nat \<Rightarrow> byte list cres" where
  "load buf off n =
     (if off + n \<le> length buf then Inr (take n (drop off buf)) else Inl OutOfBounds)"

definition store :: "byte list \<Rightarrow> nat \<Rightarrow> byte list \<Rightarrow> byte list cres" where
  "store buf off d =
     (if off + length d \<le> length buf
      then Inr (take off buf @ d @ drop (off + length d) buf)
      else Inl OutOfBounds)"

lemma load_in [simp]: "off + n \<le> length buf \<Longrightarrow> load buf off n = Inr (take n (drop off buf))"
  by (simp add: load_def)

lemma store_in [simp]:
  "off + length d \<le> length buf \<Longrightarrow>
   store buf off d = Inr (take off buf @ d @ drop (off + length d) buf)"
  by (simp add: store_def)

text \<open>
  A run of stores that fills a fresh buffer from the front: the bytes written so far,
  followed by what is still uninitialised.
\<close>

lemma store_next:
  assumes "off = length done_part" and "length d \<le> length rest"
  shows "store (done_part @ rest) off d = Inr ((done_part @ d) @ drop (length d) rest)"
  using assms by (simp add: store_def)

section \<open>Characters and C strings\<close>

definition byte_of_char :: "char \<Rightarrow> byte" where
  "byte_of_char c = of_char c"

definition char_of_byte :: "byte \<Rightarrow> char" where
  "char_of_byte b = char_of (unat b)"

lemma unat_of_char: "unat (of_char c :: byte) = of_char c"
proof -
  have "unat (of_char c :: byte) = unat (of_nat (of_char c) :: byte)"
    by (simp only: of_nat_of_char)
  also have "\<dots> = of_char c"
    by (simp only: unat_of_nat) (simp add: take_bit_eq_mod)
  finally show ?thesis .
qed

lemma char_of_byte_of_char [simp]: "char_of_byte (byte_of_char c) = c"
  by (simp add: char_of_byte_def byte_of_char_def unat_of_char)

lemma byte_of_char_of_byte [simp]: "byte_of_char (char_of_byte b) = b"
proof -
  have "unat b < 256" using unsigned_less [of b] by simp
  then have "of_char (char_of (unat b)) = unat b" by simp
  then have "unat (of_char (char_of (unat b)) :: byte) = unat b"
    by (simp only: unat_of_char)
  then show ?thesis
    by (simp only: char_of_byte_def byte_of_char_def word_unat_eq_iff)
qed

lemma char_byte_comp [simp]:
  "char_of_byte \<circ> byte_of_char = id" "byte_of_char \<circ> char_of_byte = id"
  by (simp_all add: fun_eq_iff)

abbreviation bytes_of :: "string \<Rightarrow> byte list" where
  "bytes_of s \<equiv> map byte_of_char s"

abbreviation chars_of :: "byte list \<Rightarrow> string" where
  "chars_of b \<equiv> map char_of_byte b"

lemma chars_of_bytes_of [simp]: "chars_of (bytes_of s) = s"
  by (simp add: comp_def)

lemma bytes_of_chars_of [simp]: "bytes_of (chars_of b) = b"
  by (simp add: comp_def)

abbreviation NUL :: char where
  "NUL \<equiv> CHR 0x00"

text \<open>
  A \<open>char*\<close> is the content of its buffer without the terminator the code allocates
  behind it. Every string function of C stops at the first NUL, which \<open>c_str\<close> cuts at.
\<close>

definition c_str :: "string \<Rightarrow> string" where
  "c_str s = takeWhile (\<lambda>c. c \<noteq> NUL) s"

definition nul_free :: "string \<Rightarrow> bool" where
  "nul_free s \<longleftrightarrow> NUL \<notin> set s"

lemma c_str_id [simp]: "nul_free s \<Longrightarrow> c_str s = s"
  by (auto simp: c_str_def nul_free_def takeWhile_eq_all_conv)

lemma nul_free_c_str [simp]: "nul_free (c_str s)"
  by (auto simp: c_str_def nul_free_def dest: set_takeWhileD)

lemma c_str_idem [simp]: "c_str (c_str s) = c_str s"
  by simp

lemma nul_free_append [simp]: "nul_free (s @ t) \<longleftrightarrow> nul_free s \<and> nul_free t"
  by (auto simp: nul_free_def)

lemma nul_free_Nil [simp]: "nul_free []"
  by (simp add: nul_free_def)

lemma nul_free_Cons [simp]: "nul_free (c # s) \<longleftrightarrow> c \<noteq> NUL \<and> nul_free s"
  by (auto simp: nul_free_def)

lemma nul_free_take: "nul_free s \<Longrightarrow> nul_free (take n s)"
  by (auto simp: nul_free_def dest: in_set_takeD)

definition strcmp_eq :: "string \<Rightarrow> string \<Rightarrow> bool" where
  "strcmp_eq a b \<longleftrightarrow> c_str a = c_str b"

text \<open>\<open>snprintf\<close> into a buffer of \<open>n\<close> bytes keeps at most \<open>n - 1\<close> characters.\<close>

definition snprintf_buf :: "nat \<Rightarrow> string \<Rightarrow> string" where
  "snprintf_buf n s = take (n - 1) s"

lemma length_snprintf_buf: "0 < n \<Longrightarrow> length (snprintf_buf n s) < n"
  by (simp add: snprintf_buf_def)

lemma snprintf_fits: "length s < n \<Longrightarrow> snprintf_buf n s = s"
  by (simp add: snprintf_buf_def)

section \<open>Numbers as text\<close>

definition digit_char :: "nat \<Rightarrow> char" where
  "digit_char d = (if d < 10 then char_of (48 + d) else char_of (87 + d))"

fun digits_of :: "nat \<Rightarrow> nat \<Rightarrow> string \<Rightarrow> string" where
  "digits_of b n acc =
     (if n < b \<or> b < 2 then digit_char n # acc
      else digits_of b (n div b) (digit_char (n mod b) # acc))"

declare digits_of.simps [simp del]

definition show_dec :: "nat \<Rightarrow> string" where
  "show_dec n = digits_of 10 n []"

definition zero_pad :: "nat \<Rightarrow> string \<Rightarrow> string" where
  "zero_pad k s = replicate (k - length s) (CHR ''0'') @ s"

definition show_oct4 :: "nat \<Rightarrow> string" where
  "show_oct4 n = zero_pad 4 (digits_of 8 n [])"

definition show_hex8 :: "nat \<Rightarrow> string" where
  "show_hex8 n = zero_pad 8 (digits_of 16 n [])"

text \<open>
  \<open>strtoul(s, &end, base)\<close> for bases up to ten and an \<open>unsigned long\<close> of \<open>W\<close> bits:
  leading white space, one optional sign, digits; no digits means no conversion and
  \<open>end = s\<close>; a value that does not fit is \<open>ULONG_MAX\<close>; a minus sign negates in unsigned
  arithmetic. The result is the value and the unread rest.
\<close>

definition is_space :: "char \<Rightarrow> bool" where
  "is_space c \<longleftrightarrow> c \<in> {CHR '' '', CHR 0x09, CHR 0x0A, CHR 0x0B, CHR 0x0C, CHR 0x0D}"

definition digit_val :: "char \<Rightarrow> nat" where
  "digit_val c = (of_char c :: nat) - 48"

definition is_digit_in :: "nat \<Rightarrow> char \<Rightarrow> bool" where
  "is_digit_in b c \<longleftrightarrow> 48 \<le> (of_char c :: nat) \<and> (of_char c :: nat) < 48 + b"

definition c_strtoul :: "nat \<Rightarrow> nat \<Rightarrow> string \<Rightarrow> nat \<times> string" where
  "c_strtoul W b s =
     (let t = dropWhile is_space s;
          neg = (case t of c # _ \<Rightarrow> c = CHR ''-'' | [] \<Rightarrow> False);
          u = (case t of c # r \<Rightarrow> if c = CHR ''-'' \<or> c = CHR ''+'' then r else t | [] \<Rightarrow> t);
          ds = takeWhile (is_digit_in b) u;
          v = foldl (\<lambda>n c. n * b + digit_val c) 0 ds
      in if ds = [] then (0, s)
         else (if 2 ^ W \<le> v then 2 ^ W - 1 else if neg then (2 ^ W - v) mod 2 ^ W else v,
               drop (length ds) u))"

section \<open>Sums at the width of the code\<close>

text \<open>
  A 32-bit sum \<open>k + x\<close> that equals a size of at least \<open>k\<close> has not wrapped: a wrapped sum
  is smaller than \<open>k\<close>.
\<close>

lemma u32_add_exact:
  fixes k x :: u32
  assumes "unat (k + x) = n" and "unat k \<le> n"
  shows "n = unat k + unat x" and "unat k + unat x < 2 ^ 32"
proof -
  have m: "n = (unat k + unat x) mod 2 ^ 32" using assms(1) by (simp add: unat_word_ariths)
  have x: "unat x < 2 ^ 32" "unat k < 2 ^ 32" using unsigned_less [of x] unsigned_less [of k] by simp_all
  show lt: "unat k + unat x < 2 ^ 32"
  proof (rule ccontr)
    assume ge: "\<not> unat k + unat x < 2 ^ 32"
    then have "n = unat k + unat x - 2 ^ 32" using m x by (simp add: le_mod_geq)
    with ge x assms(2) show False by linarith
  qed
  from m lt show "n = unat k + unat x" by simp
qed

section \<open>Buffer growth\<close>

text \<open>
  \<open>while (cap < need) cap *= 2\<close>, the loop of \<open>append_bytes\<close>, \<open>append\<close>,
  \<open>list_append_line\<close> and \<open>rx_reserve\<close>. Each starts it at a positive capacity; at zero
  the C loop would not move, so the guard below is what makes the model total.
\<close>

function grow_cap :: "nat \<Rightarrow> nat \<Rightarrow> nat" where
  "grow_cap cap need = (if 0 < cap \<and> cap < need then grow_cap (2 * cap) need else cap)"
  by pat_completeness auto
termination
  by (relation "measure (\<lambda>(cap, need). need - cap)") auto

declare grow_cap.simps [simp del]

lemma grow_cap_ge: "0 < cap \<Longrightarrow> need \<le> grow_cap cap need"
  by (induction cap need rule: grow_cap.induct) (subst grow_cap.simps, auto)

lemma grow_cap_pos: "0 < cap \<Longrightarrow> 0 < grow_cap cap need"
  by (induction cap need rule: grow_cap.induct) (subst grow_cap.simps, auto)

lemma grow_cap_lt: "0 < cap \<Longrightarrow> cap < need \<Longrightarrow> grow_cap cap need < 2 * need"
proof (induction cap need rule: grow_cap.induct)
  case (1 cap need)
  show ?case
  proof (cases "2 * cap < need")
    case True
    with 1 show ?thesis by (subst grow_cap.simps) auto
  next
    case False
    then have "grow_cap (2 * cap) need = 2 * cap" by (subst grow_cap.simps) auto
    with 1 show ?thesis by (subst grow_cap.simps) auto
  qed
qed

section \<open>Lists\<close>

lemma take_drop_append: "take n xs @ take m (drop n xs) = take (n + m) xs"
  by (simp add: take_add)

lemma map_eq_appendD: "map f xs = ys @ zs \<Longrightarrow> \<exists>us vs. xs = us @ vs \<and> map f us = ys \<and> map f vs = zs"
  by (auto simp: map_eq_append_conv)

end
