(* ===== verification/Crc32.thy ===== *)
theory Crc32
  imports Prelude
begin

text \<open>
  \<open>src/crc32.c\<close>: the bitwise, reflected CRC-32 that every frame carries over its
  payload. The lemmas show the bit step to be a linear bijection, from which the
  detection of every error burst of up to four bytes follows, and that the bit loop
  computes what the usual table-driven routine computes.
\<close>

section \<open>The code\<close>

definition crc_bit :: "u32 \<Rightarrow> u32" where
  "crc_bit crc = drop_bit 1 crc XOR (0xEDB88320 AND (0 - (crc AND 1)))"

fun crc_bits :: "nat \<Rightarrow> u32 \<Rightarrow> u32" where
  "crc_bits 0 crc = crc"
| "crc_bits (Suc n) crc = crc_bits n (crc_bit crc)"

definition crc_byte :: "u32 \<Rightarrow> byte \<Rightarrow> u32" where
  "crc_byte crc b = crc_bits 8 (crc XOR ucast b)"

definition usb_responder_crc32 :: "byte list \<Rightarrow> u32" where
  "usb_responder_crc32 data = foldl crc_byte 0xFFFFFFFF data XOR 0xFFFFFFFF"

section \<open>The bit step is linear and injective\<close>

lemma word_xor_eq_0 [simp]: "x XOR y = 0 \<longleftrightarrow> x = y" for x y :: "'a::len word"
  by (metis xor.assoc xor.left_neutral xor.right_neutral xor_self_eq)

lemma word_xor_right_cancel [simp]: "x XOR z = y XOR z \<longleftrightarrow> x = y" for x y z :: "'a::len word"
  by (metis xor.assoc xor.right_neutral xor_self_eq)

text \<open>
  A locale for a step on 32-bit registers that respects XOR and loses no information;
  iterating it keeps both laws.
\<close>

locale linear_step =
  fixes step :: "u32 \<Rightarrow> u32"
  assumes step_xor: "step (x XOR y) = step x XOR step y"
    and step_zero_iff: "step x = 0 \<longleftrightarrow> x = 0"
begin

lemma step_0 [simp]: "step 0 = 0"
  by (simp add: step_zero_iff)

lemma step_inj: "step x = step y \<longleftrightarrow> x = y"
proof -
  have "step x = step y \<longleftrightarrow> step (x XOR y) = 0" by (simp add: step_xor)
  also have "\<dots> \<longleftrightarrow> x = y" by (simp add: step_zero_iff)
  finally show ?thesis .
qed

lemma funpow_xor: "(step ^^ n) (x XOR y) = (step ^^ n) x XOR (step ^^ n) y"
  by (induction n) (simp_all add: step_xor)

lemma funpow_zero_iff: "(step ^^ n) x = 0 \<longleftrightarrow> x = 0"
  by (induction n) (simp_all add: step_zero_iff)

end

lemma crc_bit_alt: "crc_bit x = drop_bit 1 x XOR (if bit x 0 then 0xEDB88320 else 0)"
proof (cases "bit x 0")
  case True
  then have "x AND 1 = 1" by (simp add: and_one_eq bit_0 mod_2_eq_odd)
  with True show ?thesis by (simp add: crc_bit_def)
next
  case False
  then have "x AND 1 = 0" by (simp add: and_one_eq bit_0 mod_2_eq_odd)
  with False show ?thesis by (simp add: crc_bit_def)
qed

lemma crc_bit_xor: "crc_bit (x XOR y) = crc_bit x XOR crc_bit y"
  by (auto simp: crc_bit_alt bit_xor_iff drop_bit_xor xor.assoc xor.left_commute)

lemma crc_bit_top: "bit (crc_bit x) 31 \<longleftrightarrow> bit x 0"
proof -
  have "bit (0xEDB88320 :: u32) 31" by simp
  moreover have "\<not> bit (drop_bit 1 x) 31" by (auto simp: bit_drop_bit_eq dest: bit_imp_le_length)
  ultimately show ?thesis by (simp add: crc_bit_alt bit_xor_iff)
qed

lemma drop_bit_1_eq_0: "\<not> bit (x :: u32) 0 \<Longrightarrow> drop_bit 1 x = 0 \<Longrightarrow> x = 0"
proof (rule bit_eqI)
  fix n
  assume a: "\<not> bit x 0" "drop_bit 1 x = 0"
  show "bit x n \<longleftrightarrow> bit (0 :: u32) n"
  proof (cases n)
    case 0
    with a show ?thesis by simp
  next
    case (Suc m)
    from a(2) have "\<not> bit (drop_bit 1 x) m" by simp
    then show ?thesis by (simp add: Suc bit_drop_bit_eq)
  qed
qed

lemma crc_bit_zero_iff: "crc_bit x = 0 \<longleftrightarrow> x = 0"
proof
  assume z: "crc_bit x = 0"
  then have "\<not> bit (crc_bit x) 31" by simp
  then have nb: "\<not> bit x 0" by (simp add: crc_bit_top)
  with z have "drop_bit 1 x = 0" by (simp add: crc_bit_alt)
  with nb show "x = 0" by (rule drop_bit_1_eq_0)
next
  assume "x = 0"
  then show "crc_bit x = 0" by (simp add: crc_bit_def)
qed

interpretation crc: linear_step crc_bit
  by unfold_locales (rule crc_bit_xor, rule crc_bit_zero_iff)

lemma crc_bits_funpow: "crc_bits n = crc_bit ^^ n"
proof
  fix x show "crc_bits n x = (crc_bit ^^ n) x"
    by (induction n arbitrary: x) (simp_all add: funpow_swap1)
qed

lemma crc_bits_xor: "crc_bits n (x XOR y) = crc_bits n x XOR crc_bits n y"
  by (simp add: crc_bits_funpow crc.funpow_xor)

lemma crc_bits_zero_iff [simp]: "crc_bits n x = 0 \<longleftrightarrow> x = 0"
  by (simp add: crc_bits_funpow crc.funpow_zero_iff)

lemma crc_bits_add: "crc_bits (m + n) x = crc_bits n (crc_bits m x)"
  by (simp add: crc_bits_funpow add.commute [of m n] funpow_add)

lemma crc_bits_0 [simp]: "crc_bits n 0 = 0"
  by simp

section \<open>Differences propagate linearly\<close>

lemma crc_byte_xor: "crc_byte (c XOR d) (b XOR e) = crc_byte c b XOR crc_byte d e"
  by (simp add: crc_byte_def crc_bits_xor [symmetric] unsigned_xor_eq ac_simps)

lemma crc_byte_0: "crc_byte c 0 = crc_bits 8 c"
  by (simp add: crc_byte_def)

lemma crc_fold_diff:
  "length bs = length es \<Longrightarrow>
   foldl crc_byte c bs XOR foldl crc_byte d es = foldl crc_byte (c XOR d) (map2 (XOR) bs es)"
  by (induction bs es arbitrary: c d rule: list_induct2) (simp_all add: crc_byte_xor)

lemma crc_fold_zeros: "foldl crc_byte c (replicate n 0) = crc_bits (8 * n) c"
  by (induction n arbitrary: c) (simp_all add: crc_byte_0 crc_bits_add [symmetric] add.commute)

text \<open>Shifting out zero bits is a plain shift.\<close>

lemma crc_bits_low_zero: "(\<And>i. i < n \<Longrightarrow> \<not> bit x i) \<Longrightarrow> crc_bits n x = drop_bit n x"
proof (induction n arbitrary: x)
  case 0
  then show ?case by simp
next
  case (Suc n)
  have "\<not> bit x 0" using Suc.prems [of 0] by simp
  then have "crc_bit x = drop_bit 1 x" by (simp add: crc_bit_alt)
  moreover have "\<not> bit (drop_bit 1 x) i" if "i < n" for i
    using Suc.prems [of "Suc i"] that by (simp add: bit_drop_bit_eq)
  ultimately show ?case using Suc.IH [of "drop_bit 1 x"] by (simp add: drop_bit_drop_bit)
qed

fun le_word :: "byte list \<Rightarrow> u32" where
  "le_word [] = 0"
| "le_word (b # bs) = ucast b XOR push_bit 8 (le_word bs)"

lemma bit_le_word: "bit (le_word bs) n \<Longrightarrow> n < 8 * length bs"
proof (induction bs arbitrary: n)
  case Nil
  then show ?case by simp
next
  case (Cons b bs)
  from Cons.prems consider "bit (ucast b :: u32) n" | "bit (push_bit 8 (le_word bs)) n"
    by (auto simp: bit_xor_iff)
  then show ?case
  proof cases
    case 1
    then have "n < 8" by (auto simp: bit_ucast_iff dest: bit_imp_le_length)
    then show ?thesis by simp
  next
    case 2
    then have "8 \<le> n" "bit (le_word bs) (n - 8)" by (auto simp: bit_push_bit_iff)
    with Cons.IH [of "n - 8"] show ?thesis by simp
  qed
qed

lemma drop_push_le_word:
  assumes "length bs \<le> 3" shows "drop_bit 8 (push_bit 8 (le_word bs)) = le_word bs"
proof (rule bit_eqI)
  fix n
  show "bit (drop_bit 8 (push_bit 8 (le_word bs))) n \<longleftrightarrow> bit (le_word bs) n"
    using bit_le_word [of bs n] assms by (auto simp: bit_drop_bit_eq bit_push_bit_iff)
qed

lemma crc_bits_push_le_word:
  "length bs \<le> 3 \<Longrightarrow> crc_bits 8 (push_bit 8 (le_word bs)) = le_word bs"
  by (subst crc_bits_low_zero) (auto simp: bit_push_bit_iff drop_push_le_word)

lemma crc_fold_short:
  "length bs \<le> 4 \<Longrightarrow> foldl crc_byte c bs = crc_bits (8 * length bs) (c XOR le_word bs)"
proof (induction bs arbitrary: c)
  case Nil
  then show ?case by simp
next
  case (Cons b bs)
  have "crc_bits 8 (c XOR le_word (b # bs)) = crc_byte c b XOR le_word bs"
    using Cons.prems crc_bits_push_le_word [of bs]
    by (simp add: crc_byte_def xor.assoc [symmetric] crc_bits_xor)
  then have "crc_bits (8 * length (b # bs)) (c XOR le_word (b # bs))
      = crc_bits (8 * length bs) (crc_byte c b XOR le_word bs)"
    by (simp add: crc_bits_add)
  with Cons show ?case by simp
qed

lemma le_word_zero: "length bs \<le> 4 \<Longrightarrow> le_word bs = 0 \<Longrightarrow> bs = replicate (length bs) 0"
proof (induction bs)
  case Nil
  then show ?case by simp
next
  case (Cons b bs)
  have z: "bit (ucast b :: u32) n = bit (push_bit 8 (le_word bs)) n" for n
    using Cons.prems(2) by simp
  have "b = 0"
  proof (rule bit_eqI)
    fix n
    show "bit b n = bit (0 :: byte) n"
      using z [of n] by (cases "n < 8") (auto simp: bit_ucast_iff bit_push_bit_iff dest: bit_imp_le_length)
  qed
  moreover from this Cons.prems have "push_bit 8 (le_word bs) = 0" by simp
  then have "le_word bs = 0" using drop_push_le_word [of bs] Cons.prems(1) by simp
  ultimately show ?case using Cons by simp
qed

lemma map2_xor_self: "map2 (XOR) bs bs = replicate (length bs) (0 :: byte)"
  by (induction bs) simp_all

lemma map2_xor_eq_zeros:
  "length bs = length es \<Longrightarrow> map2 (XOR) bs es = replicate (length bs) (0 :: byte) \<Longrightarrow> bs = es"
  by (induction bs es rule: list_induct2) simp_all

lemma crc_fold_burst_nonzero:
  assumes "length burst = length burst'" and "length burst \<le> 4" and "burst \<noteq> burst'"
  shows "foldl crc_byte 0 (replicate i 0 @ map2 (XOR) burst burst' @ replicate k 0) \<noteq> 0"
proof -
  let ?d = "map2 (XOR) burst burst'"
  have "?d \<noteq> replicate (length ?d) 0"
    using map2_xor_eq_zeros [of burst burst'] assms by auto
  then have "le_word ?d \<noteq> 0"
    using le_word_zero [of ?d] assms(1,2) by auto
  then show ?thesis
    using assms(1,2) by (simp add: crc_fold_zeros crc_fold_short)
qed

lemma crc32_burst:
  assumes "length burst = length burst'" and "length burst \<le> 4" and "burst \<noteq> burst'"
  shows "usb_responder_crc32 (pre @ burst @ post) \<noteq> usb_responder_crc32 (pre @ burst' @ post)"
proof
  assume eq: "usb_responder_crc32 (pre @ burst @ post) = usb_responder_crc32 (pre @ burst' @ post)"
  have "foldl crc_byte 0xFFFFFFFF (pre @ burst @ post) XOR foldl crc_byte 0xFFFFFFFF (pre @ burst' @ post)
      = foldl crc_byte 0 (replicate (length pre) 0 @ map2 (XOR) burst burst' @ replicate (length post) 0)"
    using assms(1) by (subst crc_fold_diff) (simp_all add: map2_xor_self)
  moreover from eq have "foldl crc_byte 0xFFFFFFFF (pre @ burst @ post)
      = foldl crc_byte 0xFFFFFFFF (pre @ burst' @ post)"
    by (simp only: usb_responder_crc32_def word_xor_right_cancel)
  ultimately have "foldl crc_byte 0 (replicate (length pre) 0 @ map2 (XOR) burst burst' @
      replicate (length post) 0) = 0"
    by simp
  with crc_fold_burst_nonzero [OF assms] show False by blast
qed

section \<open>Properties\<close>

text \<open>
  Burst detection. Two payloads that differ only inside a window of at most four
  consecutive bytes never have the same CRC, whatever surrounds the window.
\<close>

theorem crc32_detects_burst:
  assumes "length burst = length burst'" and "length burst \<le> 4" and "burst \<noteq> burst'"
  shows "usb_responder_crc32 (pre @ burst @ post) \<noteq> usb_responder_crc32 (pre @ burst' @ post)"
  using assms by (rule crc32_burst)

theorem crc32_detects_burst_witness:
  "usb_responder_crc32 ([1] @ [2, 3, 4, 5] @ [6]) \<noteq> usb_responder_crc32 ([1] @ [2, 0, 0, 5] @ [6])"
  by (rule crc32_detects_burst) simp_all

text \<open>
  The reference routine: one table lookup per byte. The table is indexed by the low byte
  of the register, and the upper three bytes move down by one place.
\<close>

definition crc_table :: "u32 list" where
  "crc_table = map (\<lambda>i. crc_bits 8 (of_nat i)) [0..<256]"

definition crc_table_step :: "u32 \<Rightarrow> byte \<Rightarrow> u32" where
  "crc_table_step crc b = crc_table ! unat ((crc XOR ucast b) AND 0xFF) XOR drop_bit 8 crc"

lemma crc_table_nth: "n < 256 \<Longrightarrow> crc_table ! n = crc_bits 8 (of_nat n)"
  by (simp add: crc_table_def)

lemma and_FF_lt: "unat ((x :: u32) AND 0xFF) < 256"
proof -
  have "unat (x AND 0xFF) \<le> unat (0xFF :: u32)"
    by (rule word_and_le1 [THEN word_le_nat_alt [THEN iffD1]])
  then show ?thesis by simp
qed

lemma crc_bits_push_drop: "crc_bits 8 (push_bit 8 (drop_bit 8 x)) = drop_bit 8 x"
proof -
  have "drop_bit 8 (push_bit 8 (drop_bit 8 x)) = drop_bit 8 x"
    by (rule bit_eqI) (auto simp: bit_drop_bit_eq bit_push_bit_iff dest: bit_imp_le_length)
  then show ?thesis by (subst crc_bits_low_zero) (auto simp: bit_push_bit_iff)
qed

lemma crc_byte_table_step: "crc_byte c b = crc_table_step c b"
proof -
  let ?x = "c XOR (ucast b :: u32)"
  have FF: "?x AND 0xFF = take_bit 8 ?x" by (simp add: take_bit_eq_mask mask_eq_exp_minus_1)
  note hi = crc_bits_push_drop [of ?x]
  have b: "drop_bit 8 ?x = drop_bit 8 c"
    by (rule bit_eqI) (auto simp: bit_drop_bit_eq bit_xor_iff bit_ucast_iff dest: bit_imp_le_length)
  have "?x = take_bit 8 ?x XOR push_bit 8 (drop_bit 8 ?x)"
    by (rule bit_eqI, rename_tac n, case_tac "n < 8")
      (auto simp: bit_xor_iff bit_take_bit_iff bit_push_bit_iff bit_drop_bit_eq)
  then have "crc_bits 8 ?x = crc_bits 8 (take_bit 8 ?x) XOR drop_bit 8 c"
    by (metis crc_bits_xor hi b)
  moreover have "crc_table ! unat (?x AND 0xFF) = crc_bits 8 (take_bit 8 ?x)"
    by (simp only: crc_table_nth [OF and_FF_lt]) (simp only: FF of_nat_unat ucast_id)
  ultimately show ?thesis by (simp add: crc_byte_def crc_table_step_def)
qed


lemma crc_bits_8:
  "crc_bits 8 x = crc_bit (crc_bit (crc_bit (crc_bit (crc_bit (crc_bit (crc_bit (crc_bit x)))))))"
  by (simp add: numeral_eq_Suc)

lemmas crc_eval = usb_responder_crc32_def crc_byte_def crc_bits_8 crc_bit_def byte_of_char_def

lemma crc32_check_value: "usb_responder_crc32 (bytes_of ''123456789'') = 0xCBF43926"
  by (simp add: crc_eval)

lemma crc32_Nil [simp]: "usb_responder_crc32 [] = 0"
  by (simp add: usb_responder_crc32_def)

end
