(* ===== verification/Io_World.thy ===== *)
theory Io_World
  imports Prelude
begin

text \<open>
  The part of the environment every component sees: the heap as a script of allocation
  outcomes and a count of live blocks, the error texts, and the outcomes of the
  \<open>read\<close>, \<open>write\<close> and \<open>poll\<close> calls as scripts that the calls consume in order. A
  theorem about all worlds is therefore a theorem about every behaviour of the kernel.
  An exhausted \<open>read\<close> or \<open>poll\<close> script means the call never returns (\<open>Blocked\<close>); an
  exhausted \<open>write\<close> or allocation script means that the call succeeds.
\<close>

section \<open>Outcomes of system calls\<close>

datatype errno =
    EINTR | EAGAIN | ENOMEM | ESHUTDOWN | ENODEV | EPIPE | ECONNRESET
  | ENOENT | EEXIST | ENOTDIR | EISDIR | ENOTEMPTY | EINVAL | EBUSY | EOTHER nat

datatype wout = WAccept nat | WFail errno

datatype rout = RData "byte list" | RFail errno

record revents =
  pollin :: bool
  pollhup :: bool
  pollerr :: bool
  pollnval :: bool

datatype pout = PollFail errno | PollRevents "revents list"

datatype 'a io = Done 'a | Blocked

record io_world =
  long_bits :: nat
  strerr :: "errno \<Rightarrow> string"
  last_error :: string
  errno_val :: errno
  allocs :: "bool list"
  live :: int
  wscript :: "wout list"
  sent :: "(int \<times> byte list) list"
  rscript :: "rout list"
  pscript :: "pout list"

section \<open>The heap\<close>

fun c_malloc :: "'a io_world_scheme \<Rightarrow> bool \<times> 'a io_world_scheme" where
  "c_malloc w =
     (case allocs w of
        [] \<Rightarrow> (True, w\<lparr>live := live w + 1\<rparr>)
      | ok # rest \<Rightarrow> (ok, w\<lparr>allocs := rest, live := (if ok then live w + 1 else live w)\<rparr>))"

text \<open>\<open>free\<close> of a null pointer does nothing; the flag says whether the pointer is not null.\<close>

definition c_free :: "bool \<Rightarrow> 'a io_world_scheme \<Rightarrow> 'a io_world_scheme" where
  "c_free nonnull w = (if nonnull then w\<lparr>live := live w - 1\<rparr> else w)"

text \<open>\<open>realloc\<close> of a live block keeps the count; a failure keeps the old block.\<close>

fun c_realloc :: "bool \<Rightarrow> 'a io_world_scheme \<Rightarrow> bool \<times> 'a io_world_scheme" where
  "c_realloc nonnull w =
     (let (ok, w1) = c_malloc w in (ok, if ok then c_free nonnull w1 else w1))"

declare c_malloc.simps [simp del] c_realloc.simps [simp del]

text \<open>
  \<open>mem_only w w' d\<close>: from \<open>w\<close> to \<open>w'\<close> only the heap moved, by \<open>d\<close> live blocks, and an
  allocator that always succeeds still does.
\<close>

definition mem_only :: "'a io_world_scheme \<Rightarrow> 'a io_world_scheme \<Rightarrow> int \<Rightarrow> bool" where
  "mem_only w w' d \<longleftrightarrow>
     w' = w\<lparr>allocs := allocs w', live := live w + d\<rparr> \<and> (allocs w = [] \<longrightarrow> allocs w' = [])"

lemma mem_only_refl [simp, intro]: "mem_only w w 0"
  by (simp add: mem_only_def)

lemma mem_only_trans: "mem_only u v d \<Longrightarrow> mem_only v w e \<Longrightarrow> mem_only u w (d + e)"
proof -
  assume a: "mem_only u v d" and b: "mem_only v w e"
  have "w = (u\<lparr>allocs := allocs v, live := live u + d\<rparr>)\<lparr>allocs := allocs w, live := live u + d + e\<rparr>"
    using a b unfolding mem_only_def by (metis io_world.select_convs(6) io_world.surjective io_world.update_convs(6))
  then have "w = u\<lparr>allocs := allocs w, live := live u + (d + e)\<rparr>" by (simp add: add.assoc)
  with a b show ?thesis by (auto simp: mem_only_def)
qed

lemma mem_only_live: "mem_only w w' d \<Longrightarrow> live w' = live w + d"
  unfolding mem_only_def by (metis io_world.select_convs(6) io_world.surjective io_world.update_convs(6))

lemma mem_only_keeps:
  assumes "mem_only w w' d"
  shows "sent w' = sent w" "wscript w' = wscript w" "rscript w' = rscript w" "pscript w' = pscript w"
    "last_error w' = last_error w" "errno_val w' = errno_val w" "long_bits w' = long_bits w"
    "strerr w' = strerr w" "io_world.more w' = io_world.more w"
proof -
  from assms have eq: "w' = w\<lparr>allocs := allocs w', live := live w + d\<rparr>" by (simp add: mem_only_def)
  show "sent w' = sent w" "wscript w' = wscript w" "rscript w' = rscript w" "pscript w' = pscript w"
    "last_error w' = last_error w" "errno_val w' = errno_val w" "long_bits w' = long_bits w"
    "strerr w' = strerr w" "io_world.more w' = io_world.more w"
    by (subst eq, simp)+
qed

lemma mem_only_calm: "mem_only w w' d \<Longrightarrow> allocs w = [] \<Longrightarrow> allocs w' = []"
  by (simp add: mem_only_def)

lemma c_free_mem: "mem_only w (c_free nonnull w) (if nonnull then - 1 else 0)"
  by (simp add: mem_only_def c_free_def)

lemma c_malloc_cases:
  obtains (ok) w' where "c_malloc w = (True, w')" "mem_only w w' 1"
  | (fail) w' where "c_malloc w = (False, w')" "mem_only w w' 0" "allocs w \<noteq> []"
proof (cases "allocs w")
  case Nil
  then show ?thesis by (intro ok [of "w\<lparr>live := live w + 1\<rparr>"]) (simp_all add: c_malloc.simps mem_only_def)
next
  case (Cons b bs)
  then show ?thesis
    by (cases b) (auto simp: c_malloc.simps mem_only_def intro: ok fail)
qed

lemma c_malloc_succeeds: "allocs w = [] \<Longrightarrow> c_malloc w = (True, w\<lparr>live := live w + 1\<rparr>)"
  by (simp add: c_malloc.simps)

lemma c_realloc_cases:
  obtains (ok) w' where "c_realloc nonnull w = (True, w')" "mem_only w w' (if nonnull then 0 else 1)"
  | (fail) w' where "c_realloc nonnull w = (False, w')" "mem_only w w' 0" "allocs w \<noteq> []"
proof (cases rule: c_malloc_cases [of w])
  case m: (ok w1)
  have "mem_only w (c_free nonnull w1) (if nonnull then 0 else 1)"
    using mem_only_trans [OF m(2) c_free_mem [of w1 nonnull]] by (cases nonnull) simp_all
  with m(1) show ?thesis by (intro ok) (simp_all add: c_realloc.simps)
next
  case (fail w1)
  then show ?thesis by (intro that(2)) (simp_all add: c_realloc.simps)
qed

section \<open>System calls\<close>

text \<open>
  A zero-length write is a transfer of its own (it appears in \<open>sent\<close>), whereas a write
  that accepts nothing of a non-empty buffer transfers nothing.
\<close>

definition sys_write ::
  "int \<Rightarrow> byte list \<Rightarrow> 'a io_world_scheme \<Rightarrow> (errno + nat) \<times> 'a io_world_scheme" where
  "sys_write fd data w =
     (case wscript w of
        [] \<Rightarrow> (Inr (length data), w\<lparr>sent := sent w @ [(fd, data)]\<rparr>)
      | WFail e # rest \<Rightarrow> (Inl e, w\<lparr>wscript := rest, errno_val := e\<rparr>)
      | WAccept k # rest \<Rightarrow>
          (let n = min k (length data)
           in (Inr n, w\<lparr>wscript := rest,
                 sent := (if n = 0 \<and> data \<noteq> [] then sent w else sent w @ [(fd, take n data)])\<rparr>)))"

definition sys_read ::
  "nat \<Rightarrow> 'a io_world_scheme \<Rightarrow> (errno + byte list) io \<times> 'a io_world_scheme" where
  "sys_read n w =
     (case rscript w of
        [] \<Rightarrow> (Blocked, w)
      | RFail e # rest \<Rightarrow> (Done (Inl e), w\<lparr>rscript := rest, errno_val := e\<rparr>)
      | RData bs # rest \<Rightarrow> (Done (Inr (take n bs)), w\<lparr>rscript := rest\<rparr>))"

definition sys_poll ::
  "'a io_world_scheme \<Rightarrow> (errno + revents list) io \<times> 'a io_world_scheme" where
  "sys_poll w =
     (case pscript w of
        [] \<Rightarrow> (Blocked, w)
      | PollFail e # rest \<Rightarrow> (Done (Inl e), w\<lparr>pscript := rest, errno_val := e\<rparr>)
      | PollRevents rs # rest \<Rightarrow> (Done (Inr rs), w\<lparr>pscript := rest\<rparr>))"

definition no_revents :: revents where
  "no_revents = \<lparr>pollin = False, pollhup = False, pollerr = False, pollnval = False\<rparr>"

definition revents_at :: "revents list \<Rightarrow> nat \<Rightarrow> revents" where
  "revents_at rs i = (if i < length rs then rs ! i else no_revents)"

text \<open>The return value of \<open>poll\<close> on \<open>n\<close> descriptors: how many have events.\<close>

definition poll_count :: "nat \<Rightarrow> revents list \<Rightarrow> nat" where
  "poll_count n rs = length (filter (\<lambda>r. r \<noteq> no_revents) (take n rs))"

section \<open>What the calls change\<close>

text \<open>
  \<open>io_only w w'\<close>: from \<open>w\<close> to \<open>w'\<close> only the error texts and the transfer scripts moved.
\<close>

definition io_only :: "'a io_world_scheme \<Rightarrow> 'a io_world_scheme \<Rightarrow> bool" where
  "io_only w w' \<longleftrightarrow>
     io_world.more w' = io_world.more w \<and> long_bits w' = long_bits w \<and> strerr w' = strerr w \<and>
     allocs w' = allocs w \<and> live w' = live w \<and> rscript w' = rscript w \<and> pscript w' = pscript w"

lemma io_only_refl [simp, intro]: "io_only w w"
  by (simp add: io_only_def)

lemma io_only_trans [trans]: "io_only u v \<Longrightarrow> io_only v w \<Longrightarrow> io_only u w"
  by (simp add: io_only_def)

lemma sys_write_cases:
  obtains (err) e w' where "sys_write fd data w = (Inl e, w')" "io_only w w'" "sent w' = sent w"
      "length (wscript w') < length (wscript w)" "errno_val w' = e"
  | (zero) w' where "sys_write fd data w = (Inr 0, w')" "io_only w w'" "data \<noteq> []" "sent w' = sent w"
  | (acc) n w' where "sys_write fd data w = (Inr n, w')" "io_only w w'" "n \<le> length data"
      "n = 0 \<longrightarrow> data = []" "sent w' = sent w @ [(fd, take n data)]"
      "length (wscript w') \<le> length (wscript w)"
proof (cases "wscript w")
  case Nil
  then show ?thesis
    by (intro acc [of "length data" "w\<lparr>sent := sent w @ [(fd, data)]\<rparr>"])
      (auto simp: sys_write_def io_only_def)
next
  case (Cons o1 rest)
  show ?thesis
  proof (cases o1)
    case (WFail e)
    with Cons show ?thesis 
      by (intro err [of e "w\<lparr>wscript := rest, errno_val := e\<rparr>"])
        (auto simp: sys_write_def io_only_def)
  next
    case (WAccept k)
    show ?thesis
    proof (cases "min k (length data) = 0 \<and> data \<noteq> []")
      case True
      then show ?thesis using Cons WAccept
        by (intro zero [of "w\<lparr>wscript := rest\<rparr>"]) (auto simp: sys_write_def io_only_def Let_def)
    next
      case False
      then show ?thesis using Cons WAccept
        by (intro acc [of "min k (length data)"
              "w\<lparr>wscript := rest, sent := sent w @ [(fd, take k data)]\<rparr>"])
          (auto simp: sys_write_def io_only_def Let_def min_def)
    qed
  qed
qed

lemma sys_write_measure:
  assumes "sys_write fd data w = (r, w')" and "data \<noteq> []"
  shows "case r of Inl _ \<Rightarrow> length (wscript w') < length (wscript w)
         | Inr n \<Rightarrow> 0 < n \<longrightarrow> length (wscript w') \<le> length (wscript w) \<and> n \<le> length data"
  using assms by (cases rule: sys_write_cases [of fd data w]) auto

lemma sys_write_idle: "wscript w = [] \<Longrightarrow>
  sys_write fd data w = (Inr (length data), w\<lparr>sent := sent w @ [(fd, data)]\<rparr>)"
  by (simp add: sys_write_def)

text \<open>A world in which every call succeeds at once, for evaluating the pure part of an operation.\<close>

definition calm_world :: io_world where
  "calm_world = \<lparr>long_bits = 64, strerr = (\<lambda>_. []), last_error = [], errno_val = EINTR,
     allocs = [], live = 0, wscript = [], sent = [], rscript = [], pscript = []\<rparr>"

lemma calm_world_simps [simp]: "allocs calm_world = []" "wscript calm_world = []" "live calm_world = 0"
  by (simp_all add: calm_world_def)

end
