(* ===== verification/Io_Utils.thy ===== *)
theory Io_Utils
  imports Io_World
begin

text \<open>
  \<open>src/io_utils.c\<close>: the last-error buffer, the loops that read or write a whole buffer
  across short transfers and interrupted calls, and the zero-length packet that ends a
  bulk IN transfer. (\<open>usb_responder_read_file_all\<close> is with the file system.)
\<close>

section \<open>The code\<close>

definition usb_responder_set_last_error ::
  "string option \<Rightarrow> 'a io_world_scheme \<Rightarrow> 'a io_world_scheme" where
  "usb_responder_set_last_error msg w =
     (case msg of
        None \<Rightarrow> w\<lparr>last_error := []\<rparr>
      | Some m \<Rightarrow> w\<lparr>last_error := snprintf_buf 256 (c_str m)\<rparr>)"

definition set_errno_error :: "string \<Rightarrow> 'a io_world_scheme \<Rightarrow> 'a io_world_scheme" where
  "set_errno_error prefix w =
     usb_responder_set_last_error
       (Some (snprintf_buf 256 (prefix @ '': '' @ strerr w (errno_val w)))) w"

function usb_responder_read_full ::
  "nat \<Rightarrow> byte list \<Rightarrow> 'a io_world_scheme \<Rightarrow> (byte list option) io \<times> 'a io_world_scheme" where
  "usb_responder_read_full sz got w =
     (if sz \<le> length got then (Done (Some got), w)
      else case sys_read (sz - length got) w of
        (Blocked, w1) \<Rightarrow> (Blocked, w1)
      | (Done (Inl e), w1) \<Rightarrow>
          if e = EINTR then usb_responder_read_full sz got w1
          else (Done None, set_errno_error ''read'' w1)
      | (Done (Inr bs), w1) \<Rightarrow>
          if bs = [] then (Done None, usb_responder_set_last_error (Some ''unexpected EOF'') w1)
          else usb_responder_read_full sz (got @ bs) w1)"
  by pat_completeness auto
termination
  by (relation "measure (\<lambda>(sz, got, w). length (rscript w))")
    (auto simp: sys_read_def split: list.splits rout.splits)

function usb_responder_write_full ::
  "int \<Rightarrow> byte list \<Rightarrow> 'a io_world_scheme \<Rightarrow> bool \<times> 'a io_world_scheme" where
  "usb_responder_write_full fd data w =
     (if data = [] then (True, w)
      else case sys_write fd data w of
        (Inl e, w1) \<Rightarrow>
          if e = EINTR then usb_responder_write_full fd data w1
          else (False, set_errno_error ''write'' w1)
      | (Inr n, w1) \<Rightarrow>
          if n = 0 then (False, usb_responder_set_last_error (Some ''write returned 0'') w1)
          else usb_responder_write_full fd (drop n data) w1)"
  by pat_completeness auto
termination
  by (relation "measure (\<lambda>(fd, data, w). length data + length (wscript w))")
    (force dest!: sys_write_measure [OF sym])+

declare usb_responder_read_full.simps [simp del]
declare usb_responder_write_full.simps [simp del]

definition usb_responder_bulk_in_needs_zlp :: "nat \<Rightarrow> bool" where
  "usb_responder_bulk_in_needs_zlp nbytes \<longleftrightarrow> nbytes \<noteq> 0 \<and> nbytes mod 64 = 0"

function usb_responder_write_zlp ::
  "int \<Rightarrow> 'a io_world_scheme \<Rightarrow> bool \<times> 'a io_world_scheme" where
  "usb_responder_write_zlp fd w =
     (case sys_write fd [] w of
        (Inl e, w1) \<Rightarrow>
          if e = EINTR then usb_responder_write_zlp fd w1
          else (False, set_errno_error ''bulk IN ZLP'' w1)
      | (Inr n, w1) \<Rightarrow>
          if n = 0 then (True, w1)
          else (False, usb_responder_set_last_error (Some ''bulk IN ZLP write returned data'') w1))"
  by pat_completeness auto
termination
  by (relation "measure (\<lambda>(fd, w). length (wscript w))")
    (auto simp: sys_write_def split: list.splits wout.splits)

declare usb_responder_write_zlp.simps [simp del]

section \<open>Frame conditions\<close>

lemma set_last_error_io_only [simp]: "io_only w (usb_responder_set_last_error m w)"
  by (simp add: io_only_def usb_responder_set_last_error_def split: option.split)

lemma set_last_error_sent [simp]: "sent (usb_responder_set_last_error m w) = sent w"
  by (simp add: usb_responder_set_last_error_def split: option.split)

lemma set_errno_error_io_only [simp]: "io_only w (set_errno_error p w)"
  by (simp add: set_errno_error_def)

lemma set_errno_error_sent [simp]: "sent (set_errno_error p w) = sent w"
  by (simp add: set_errno_error_def)

lemma last_error_set [simp]:
  "last_error (usb_responder_set_last_error m w) = (case m of None \<Rightarrow> [] | Some s \<Rightarrow> take 255 (c_str s))"
  by (simp add: usb_responder_set_last_error_def snprintf_buf_def split: option.split)

section \<open>What a transfer puts on the wire\<close>

text \<open>
  A write loop that reports success has sent exactly the buffer, in non-empty pieces; one
  that fails has sent a prefix.
\<close>

lemma write_full_Nil [simp]: "usb_responder_write_full fd [] w = (True, w)"
  by (simp add: usb_responder_write_full.simps)

lemma write_full_spec:
  "usb_responder_write_full fd data w = (ok, w') \<Longrightarrow>
   io_only w w' \<and>
   (\<exists>ds. sent w' = sent w @ map (Pair fd) ds \<and> [] \<notin> set ds \<and>
      (if ok then concat ds = data else (\<exists>rest. rest \<noteq> [] \<and> data = concat ds @ rest)))"
proof (induction fd data w arbitrary: ok w' rule: usb_responder_write_full.induct)
  case (1 fd data w)
  show ?case
  proof (cases "data = []")
    case True
    with 1 show ?thesis by auto
  next
    case False
    show ?thesis
    proof (cases rule: sys_write_cases [of fd data w])
      case (err e w1)
      show ?thesis
      proof (cases "e = EINTR")
        case True
        with err False "1.prems" have "usb_responder_write_full fd data w1 = (ok, w')"
          by (simp add: usb_responder_write_full.simps [of fd data w])
        from "1.IH" (1) [OF False err(1) [symmetric] refl True this] err show ?thesis
          by (auto intro: io_only_trans)
      next
        case neq: False
        with err False "1.prems" have "ok = False" "w' = set_errno_error ''write'' w1"
          by (simp_all add: usb_responder_write_full.simps [of fd data w])
        with err False show ?thesis
          by (auto intro: io_only_trans intro!: exI [of _ "[] :: byte list list"])
      qed
    next
      case (zero w1)
      with False "1.prems" show ?thesis
        by (auto simp: usb_responder_write_full.simps [of fd data w] intro: io_only_trans
            intro!: exI [of _ "[] :: byte list list"])
    next
      case (acc n w1)
      with False have n: "n \<noteq> 0" by auto
      with acc False "1.prems" have rec: "usb_responder_write_full fd (drop n data) w1 = (ok, w')"
        by (simp add: usb_responder_write_full.simps [of fd data w])
      from "1.IH"(2) [OF False acc(1) [symmetric] refl n rec] obtain ds where
        ds: "io_only w1 w'" "sent w' = sent w1 @ map (Pair fd) ds" "[] \<notin> set ds"
          "if ok then concat ds = drop n data else \<exists>rest. rest \<noteq> [] \<and> drop n data = concat ds @ rest"
        by auto
      have io: "io_only w w'" using acc(2) ds(1) by (rule io_only_trans)
      have sent: "sent w' = sent w @ map (Pair fd) (take n data # ds)" using acc(5) ds(2) by simp
      have ne: "[] \<notin> set (take n data # ds)" using n False ds(3) by auto
      have parts: "if ok then concat (take n data # ds) = data
          else \<exists>rest. rest \<noteq> [] \<and> data = concat (take n data # ds) @ rest"
      proof (cases ok)
        case True
        with ds(4) show ?thesis by simp
      next
        case notok: False
        with ds(4) obtain rest where "rest \<noteq> []" "drop n data = concat ds @ rest" by auto
        then have "data = concat (take n data # ds) @ rest"
          by (metis append.assoc append_take_drop_id concat.simps(2))
        with notok \<open>rest \<noteq> []\<close> show ?thesis by auto
      qed
      show ?thesis using io sent ne parts by blast
    qed
  qed
qed

lemma write_zlp_spec:
  "usb_responder_write_zlp fd w = (ok, w') \<Longrightarrow>
   io_only w w' \<and> sent w' = sent w @ (if ok then [(fd, [])] else [])"
proof (induction fd w arbitrary: ok w' rule: usb_responder_write_zlp.induct)
  case (1 fd w)
  show ?case
  proof (cases rule: sys_write_cases [of fd "[]" w])
    case (err e w1)
    show ?thesis
    proof (cases "e = EINTR")
      case True
      with err "1.prems" have "usb_responder_write_zlp fd w1 = (ok, w')"
        by (simp add: usb_responder_write_zlp.simps [of fd w])
      from "1.IH" [OF err(1) [symmetric] refl True this] err show ?thesis
        by (auto intro: io_only_trans)
    next
      case False
      with err "1.prems" show ?thesis
        by (auto simp: usb_responder_write_zlp.simps [of fd w] intro: io_only_trans)
    qed
  next
    case (zero w1)
    then show ?thesis by simp
  next
    case (acc n w1)
    with "1.prems" show ?thesis by (simp add: usb_responder_write_zlp.simps [of fd w])
  qed
qed

lemma write_full_idle:
  "wscript w = [] \<Longrightarrow> data \<noteq> [] \<Longrightarrow>
   usb_responder_write_full fd data w = (True, w\<lparr>sent := sent w @ [(fd, data)]\<rparr>)"
  by (simp add: usb_responder_write_full.simps [of fd data w] sys_write_idle)

lemma write_zlp_idle:
  "wscript w = [] \<Longrightarrow> usb_responder_write_zlp fd w = (True, w\<lparr>sent := sent w @ [(fd, [])]\<rparr>)"
  by (simp add: usb_responder_write_zlp.simps [of fd w] sys_write_idle)

end
