(* ===== verification/Protocol.thy ===== *)
theory Protocol
  imports Crc32 Io_Utils
begin

text \<open>
  \<open>src/protocol.h\<close> and the integer accessors of \<open>src/protocol.c\<close>: the records of the
  protocol and the little-endian reads and writes, with the laws by which they undo each
  other. The codecs built on them are in \<open>Frames\<close>, \<open>Kv\<close> and \<open>Commands\<close>; there every
  \<open>malloc\<close> is an outcome of the allocation script, every access of a buffer is checked, and
  sizes are computed at the width at which the code computes them.
\<close>

section \<open>Data\<close>

definition USB_RESPONDER_MAGIC :: u32 where "USB_RESPONDER_MAGIC = 0x45504153"
definition USB_RESPONDER_VERSION :: u16 where "USB_RESPONDER_VERSION = 1"
abbreviation (input) USB_RESPONDER_HEADER_SIZE :: nat where "USB_RESPONDER_HEADER_SIZE \<equiv> 24"
abbreviation (input) USB_RESPONDER_MAX_KV :: nat where "USB_RESPONDER_MAX_KV \<equiv> 32"
abbreviation (input) USB_RESPONDER_IO_CHUNK :: nat where "USB_RESPONDER_IO_CHUNK \<equiv> 16384"

record frame_header =
  magic :: u32
  version :: u16
  msg_type :: u16
  flags :: u32
  request_id :: u32
  payload_len :: u32
  payload_crc32 :: u32

record frame =
  header :: frame_header
  payload :: "byte list option"

record kv =
  kv_key :: "string option"
  kv_value :: "string option"

record command_request =
  req_timeout_ms :: u32
  req_max_stdout :: u32
  req_max_stderr :: u32
  req_command :: "string option"

record command_result =
  res_exit_code :: u32
  res_timed_out :: bool
  res_duration_ms :: u32
  res_stdout :: "byte list"
  res_stderr :: "byte list"

definition zero_header :: frame_header where
  "zero_header = \<lparr>magic = 0, version = 0, msg_type = 0, flags = 0, request_id = 0,
     payload_len = 0, payload_crc32 = 0\<rparr>"

definition zero_frame :: frame where
  "zero_frame = \<lparr>header = zero_header, payload = None\<rparr>"

section \<open>Little-endian integers\<close>

definition read_le16 :: "byte list \<Rightarrow> nat \<Rightarrow> u16 cres" where
  "read_le16 p off =
     (if off + 2 \<le> length p
      then Inr (ucast (p ! off) OR push_bit 8 (ucast (p ! (off + 1))))
      else Inl OutOfBounds)"

definition read_le32 :: "byte list \<Rightarrow> nat \<Rightarrow> u32 cres" where
  "read_le32 p off =
     (if off + 4 \<le> length p
      then Inr (ucast (p ! off) OR push_bit 8 (ucast (p ! (off + 1)))
             OR push_bit 16 (ucast (p ! (off + 2))) OR push_bit 24 (ucast (p ! (off + 3))))
      else Inl OutOfBounds)"

definition write_le16 :: "u16 \<Rightarrow> byte list" where
  "write_le16 v = [ucast (v AND 0xFF), ucast (drop_bit 8 v AND 0xFF)]"

definition write_le32 :: "u32 \<Rightarrow> byte list" where
  "write_le32 v = [ucast (v AND 0xFF), ucast (drop_bit 8 v AND 0xFF),
     ucast (drop_bit 16 v AND 0xFF), ucast (drop_bit 24 v AND 0xFF)]"

lemma length_write_le [simp]: "length (write_le16 v) = 2" "length (write_le32 u) = 4"
  by (simp_all add: write_le16_def write_le32_def)

lemma ucast_and_FF: "(ucast (x AND 0xFF) :: byte) = ucast x" for x :: "'a::len word"
proof (rule bit_eqI)
  fix n
  have FF: "(0xFF :: 'a word) = mask 8" by (simp add: mask_eq_exp_minus_1)
  assume "possible_bit TYPE(byte) n"
  then show "bit (ucast (x AND 0xFF) :: byte) n \<longleftrightarrow> bit (ucast x :: byte) n"
    by (auto simp: FF bit_ucast_iff bit_and_iff bit_mask_iff dest: bit_imp_le_length)
qed

lemma le16_join: "ucast (ucast v :: byte) OR push_bit 8 (ucast (ucast (drop_bit 8 v) :: byte)) = (v :: u16)"
  (is "?l = v")
proof (rule bit_eqI)
  fix n assume "possible_bit TYPE(u16) n"
  then have n: "n < 16" by simp
  show "bit ?l n \<longleftrightarrow> bit v n"
    using n by (cases "n < 8") (auto simp: bit_or_iff bit_push_bit_iff bit_ucast_iff bit_drop_bit_eq)
qed

lemma le32_join:
  "ucast (ucast v :: byte) OR push_bit 8 (ucast (ucast (drop_bit 8 v) :: byte))
   OR push_bit 16 (ucast (ucast (drop_bit 16 v) :: byte))
   OR push_bit 24 (ucast (ucast (drop_bit 24 v) :: byte)) = (v :: u32)"
  (is "?l = v")
proof (rule bit_eqI)
  fix n assume "possible_bit TYPE(u32) n"
  then have n: "n < 32" by simp
  consider "n < 8" | "8 \<le> n" "n < 16" | "16 \<le> n" "n < 24" | "24 \<le> n" by linarith
  then show "bit ?l n \<longleftrightarrow> bit v n"
    using n by cases (auto simp: bit_or_iff bit_push_bit_iff bit_ucast_iff bit_drop_bit_eq)
qed

lemma le16_split:
  "ucast (ucast a OR push_bit 8 (ucast b) :: u16) = (a :: byte)"
  "ucast (drop_bit 8 (ucast a OR push_bit 8 (ucast b) :: u16)) = (b :: byte)"
  by (rule bit_eqI, auto simp: bit_or_iff bit_push_bit_iff bit_ucast_iff bit_drop_bit_eq dest: bit_imp_le_length)+

lemma le32_split:
  fixes a b c d :: byte
  defines "v \<equiv> ucast a OR push_bit 8 (ucast b) OR push_bit 16 (ucast c) OR push_bit 24 (ucast d) :: u32"
  shows "ucast v = a" "ucast (drop_bit 8 v) = b" "ucast (drop_bit 16 v) = c" "ucast (drop_bit 24 v) = d"
  unfolding v_def
  by (rule bit_eqI, auto simp: bit_or_iff bit_push_bit_iff bit_ucast_iff bit_drop_bit_eq dest: bit_imp_le_length)+

text \<open>Writing and then reading at the same place gives the value back, in any surroundings.\<close>

lemma read_write_le16:
  "off = length pre \<Longrightarrow> read_le16 (pre @ write_le16 v @ post) off = Inr v"
  by (simp add: read_le16_def write_le16_def nth_append ucast_and_FF le16_join)

lemma read_write_le32:
  "off = length pre \<Longrightarrow> read_le32 (pre @ write_le32 v @ post) off = Inr v"
  by (simp add: read_le32_def write_le32_def nth_append ucast_and_FF le32_join)

lemma read_le_skip [codec_simps]:
  "length a \<le> off \<Longrightarrow> read_le16 (a @ b) off = read_le16 b (off - length a)"
  "length a \<le> off \<Longrightarrow> read_le32 (a @ b) off = read_le32 b (off - length a)"
proof -
  have "read_le16 (a @ b) (length a + k) = read_le16 b k"
    and "read_le32 (a @ b) (length a + k) = read_le32 b k" for k
    by (simp_all add: read_le16_def read_le32_def nth_append)
  then show "length a \<le> off \<Longrightarrow> read_le16 (a @ b) off = read_le16 b (off - length a)"
    and "length a \<le> off \<Longrightarrow> read_le32 (a @ b) off = read_le32 b (off - length a)"
    by (metis le_add_diff_inverse)+
qed

lemma read_le_skip_Cons [codec_simps]:
  "0 < off \<Longrightarrow> read_le16 (a # b) off = read_le16 b (off - 1)"
  "0 < off \<Longrightarrow> read_le32 (a # b) off = read_le32 b (off - 1)"
  using read_le_skip [of "[a]" off b] by simp_all

lemma read_le_here [codec_simps]:
  "read_le16 (write_le16 v @ post) 0 = Inr v" "read_le16 (write_le16 v) 0 = Inr v"
  "read_le32 (write_le32 u @ post) 0 = Inr u" "read_le32 (write_le32 u) 0 = Inr u"
  using read_write_le16 [of 0 "[]" v post] read_write_le16 [of 0 "[]" v "[]"]
    read_write_le32 [of 0 "[]" u post] read_write_le32 [of 0 "[]" u "[]"]
  by simp_all

lemma take_drop_2: "off + 2 \<le> length p \<Longrightarrow> take 2 (drop off p) = [p ! off, p ! Suc off]"
  by (simp add: numeral_eq_Suc Cons_nth_drop_Suc [symmetric])

lemma take_drop_4:
  "off + 4 \<le> length p \<Longrightarrow> take 4 (drop off p) = [p ! off, p ! (off + 1), p ! (off + 2), p ! (off + 3)]"
  by (simp add: numeral_eq_Suc Cons_nth_drop_Suc [symmetric])

lemma write_le16_joined: "write_le16 (ucast a OR push_bit 8 (ucast b)) = [a, b]"
  by (simp only: write_le16_def ucast_and_FF le16_split)

lemma write_le32_joined:
  "write_le32 (ucast a OR push_bit 8 (ucast b) OR push_bit 16 (ucast c) OR push_bit 24 (ucast d))
   = [a, b, c, d]"
  by (simp only: write_le32_def ucast_and_FF le32_split)

text \<open>A value that was read is the one whose bytes are there.\<close>

lemma read_le16_bytes:
  "read_le16 p off = Inr v \<Longrightarrow> take 2 (drop off p) = write_le16 v"
  by (auto simp: read_le16_def write_le16_joined take_drop_2 split: if_splits)

lemma read_le32_bytes:
  "read_le32 p off = Inr v \<Longrightarrow> take 4 (drop off p) = write_le32 v"
  by (auto simp: read_le32_def write_le32_joined take_drop_4 simp del: add_2_eq_Suc' split: if_splits)

lemma read_le16_in: "off + 2 \<le> length p \<Longrightarrow> \<exists>v. read_le16 p off = Inr v"
  by (simp add: read_le16_def)

lemma read_le32_in: "off + 4 \<le> length p \<Longrightarrow> \<exists>v. read_le32 p off = Inr v"
  by (simp add: read_le32_def)

end
