(* ===== verification/Codec.thy ===== *)
theory Codec
  imports Prelude
begin

text \<open>
  The contract between an encoder and its decoder. \<open>encoding\<close> says that what was encoded
  is decoded back; \<open>canonical_encoding\<close> adds that a decoder accepts nothing else. The
  codecs of the protocol are interpretations of the one or the other.
\<close>

locale encoding =
  fixes enc :: "'a \<Rightarrow> byte list"
    and dec :: "byte list \<Rightarrow> 'a option"
    and wf :: "'a \<Rightarrow> bool"
  assumes dec_enc: "wf a \<Longrightarrow> dec (enc a) = Some a"
begin

lemma enc_eq_iff: "wf a \<Longrightarrow> wf b \<Longrightarrow> enc a = enc b \<longleftrightarrow> a = b"
  by (metis dec_enc option.inject)

lemma enc_inj_on: "inj_on enc {a. wf a}"
  by (auto intro: inj_onI simp: enc_eq_iff)

end

locale canonical_encoding = encoding +
  assumes enc_dec: "dec bs = Some a \<Longrightarrow> wf a \<and> enc a = bs"
begin

lemma dec_eq_Some_iff: "dec bs = Some a \<longleftrightarrow> wf a \<and> enc a = bs"
  using dec_enc enc_dec by blast

lemma dec_eq_None_iff: "dec bs = None \<longleftrightarrow> bs \<notin> enc ` {a. wf a}"
  by (cases "dec bs") (auto simp: dec_enc dest: enc_dec)

lemma dec_inj: "dec bs = Some a \<Longrightarrow> dec cs = Some a \<Longrightarrow> bs = cs"
  using enc_dec by metis

end

end
