(* ===== verification/Frames.thy ===== *)
theory Frames
  imports Protocol Codec
begin

text \<open>
  Encoding and decoding of frames (\<open>src/protocol.c\<close>). The lemmas characterise both
  directions completely: a frame whose size fits is laid out as header and payload, and
  the decoder accepts exactly such layouts, whatever the bytes, without leaving the buffer
  and without losing heap blocks.
\<close>

section \<open>Frames\<close>

text \<open>
  The buffer has \<open>24u + payload_len\<close> bytes, added in 32 bits. Its bytes start out
  unspecified; the zeros below stand for them.
\<close>

definition frame_image :: "frame \<Rightarrow> byte list cres" where
  "frame_image fr =
     (let h = header fr;
          n = unat (payload_len h);
          p = (case payload fr of None \<Rightarrow> [] | Some b \<Rightarrow> b);
          raw = replicate (unat (24 + payload_len h)) 0
      in bind_sum (load p 0 n) (\<lambda>covered.
         bind_sum (store raw 0 (write_le32 USB_RESPONDER_MAGIC)) (\<lambda>r.
         bind_sum (store r 4 (write_le16 USB_RESPONDER_VERSION)) (\<lambda>r.
         bind_sum (store r 6 (write_le16 (msg_type h))) (\<lambda>r.
         bind_sum (store r 8 (write_le32 (flags h))) (\<lambda>r.
         bind_sum (store r 12 (write_le32 (request_id h))) (\<lambda>r.
         bind_sum (store r 16 (write_le32 (payload_len h))) (\<lambda>r.
         bind_sum (store r 20 (write_le32 (usb_responder_crc32 covered))) (\<lambda>r.
         if 0 < n then bind_sum (load p 0 n) (store r USB_RESPONDER_HEADER_SIZE) else Inr r)))))))))"

definition usb_responder_protocol_encode_frame ::
  "frame \<Rightarrow> 'a io_world_scheme \<Rightarrow> byte list cres \<times> 'a io_world_scheme" where
  "usb_responder_protocol_encode_frame fr w =
     (if 0 < payload_len (header fr) \<and> payload fr = None then (Inl Reject, w)
      else case c_malloc w of
        (False, w1) \<Rightarrow> (Inl NoMem, w1)
      | (True, w1) \<Rightarrow> (frame_image fr, w1))"

definition parse_header :: "byte list \<Rightarrow> frame_header cres" where
  "parse_header raw =
     bind_sum (read_le32 raw 0) (\<lambda>mg.
     bind_sum (read_le16 raw 4) (\<lambda>vs.
     bind_sum (read_le16 raw 6) (\<lambda>ty.
     bind_sum (read_le32 raw 8) (\<lambda>fl.
     bind_sum (read_le32 raw 12) (\<lambda>rid.
     bind_sum (read_le32 raw 16) (\<lambda>len.
     bind_sum (read_le32 raw 20) (\<lambda>crc.
       Inr \<lparr>magic = mg, version = vs, msg_type = ty, flags = fl, request_id = rid,
            payload_len = len, payload_crc32 = crc\<rparr>)))))))"

text \<open>\<open>usb_responder_protocol_frame_free\<close>: the payload goes, the frame is zeroed.\<close>

definition usb_responder_protocol_frame_free ::
  "frame \<Rightarrow> 'a io_world_scheme \<Rightarrow> frame \<times> 'a io_world_scheme" where
  "usb_responder_protocol_frame_free fr w = (zero_frame, c_free (payload fr \<noteq> None) w)"

definition usb_responder_protocol_decode_frame ::
  "byte list \<Rightarrow> 'a io_world_scheme \<Rightarrow> frame cres \<times> 'a io_world_scheme" where
  "usb_responder_protocol_decode_frame raw w =
     (if length raw < USB_RESPONDER_HEADER_SIZE then (Inl Reject, w)
      else case parse_header raw of
        Inl e \<Rightarrow> (Inl e, w)
      | Inr h \<Rightarrow>
          if magic h \<noteq> USB_RESPONDER_MAGIC \<or> version h \<noteq> USB_RESPONDER_VERSION then (Inl Reject, w)
          else if unat (24 + payload_len h) \<noteq> length raw then (Inl Reject, w)
          else
            let n = unat (payload_len h);
                (r, w1) =
                  (if 0 < n then
                     case c_malloc w of
                       (False, w1) \<Rightarrow> (Inl NoMem, w1)
                     | (True, w1) \<Rightarrow>
                         (bind_sum (load raw USB_RESPONDER_HEADER_SIZE n) (\<lambda>d. Inr (Some d)), w1)
                   else (Inr None, w))
            in case r of
                 Inl e \<Rightarrow> (Inl e, w1)
               | Inr p \<Rightarrow>
                   let fr = \<lparr>header = h, payload = p\<rparr>
                   in if payload_crc32 h \<noteq> usb_responder_crc32 (case p of None \<Rightarrow> [] | Some d \<Rightarrow> d)
                      then (Inl Reject, snd (usb_responder_protocol_frame_free fr w1))
                      else (Inr fr, w1))"

section \<open>The layout\<close>

definition frame_body :: "frame \<Rightarrow> byte list" where
  "frame_body fr = (case payload fr of None \<Rightarrow> [] | Some d \<Rightarrow> d)"

definition frame_bytes :: "frame \<Rightarrow> byte list" where
  "frame_bytes fr =
     write_le32 USB_RESPONDER_MAGIC @ write_le16 USB_RESPONDER_VERSION @
     write_le16 (msg_type (header fr)) @ write_le32 (flags (header fr)) @
     write_le32 (request_id (header fr)) @ write_le32 (payload_len (header fr)) @
     write_le32 (usb_responder_crc32 (frame_body fr)) @ frame_body fr"

text \<open>The declared length is the payload's, and header and payload fit 32 bits together.\<close>

definition frame_sized :: "frame \<Rightarrow> bool" where
  "frame_sized fr \<longleftrightarrow>
     length (frame_body fr) = unat (payload_len (header fr)) \<and>
     24 + unat (payload_len (header fr)) < 2 ^ 32"

text \<open>What the sender's header becomes on the wire: magic, version and checksum are filled in.\<close>

definition sealed :: "frame \<Rightarrow> frame" where
  "sealed fr = fr\<lparr>header := (header fr)\<lparr>magic := USB_RESPONDER_MAGIC,
     version := USB_RESPONDER_VERSION, payload_crc32 := usb_responder_crc32 (frame_body fr)\<rparr>\<rparr>"

definition frame_wf :: "frame \<Rightarrow> bool" where
  "frame_wf fr \<longleftrightarrow> frame_sized fr \<and> sealed fr = fr \<and>
     (payload fr = None \<longleftrightarrow> payload_len (header fr) = 0)"

lemma length_frame_bytes: "length (frame_bytes fr) = 24 + length (frame_body fr)"
  by (simp add: frame_bytes_def)

lemma frame_body_sealed [simp]: "frame_body (sealed fr) = frame_body fr"
  by (simp add: sealed_def frame_body_def)

lemma frame_bytes_sealed [simp]: "frame_bytes (sealed fr) = frame_bytes fr"
  by (simp add: frame_bytes_def) (simp add: sealed_def)

lemma frame_sized_sealed [simp]: "frame_sized (sealed fr) = frame_sized fr"
  by (simp add: frame_sized_def) (simp add: sealed_def)

lemma sealed_idem [simp]: "sealed (sealed fr) = sealed fr"
  by (simp add: sealed_def frame_body_def)

lemma sealed_payload [simp]: "payload (sealed fr) = payload fr"
  by (simp add: sealed_def)

lemma payload_len_sealed [simp]: "payload_len (header (sealed fr)) = payload_len (header fr)"
  by (simp add: sealed_def)

section \<open>Encoding\<close>

lemma u32_header_add: "24 + unat (x :: u32) < 2 ^ 32 \<Longrightarrow> unat (24 + x) = 24 + unat x"
  by (simp add: unat_word_ariths)

lemma u32_header_add_exact:
  assumes "unat (24 + x :: u32) = n" and "24 \<le> n"
  shows "n = 24 + unat x" and "24 + unat x < 2 ^ 32"
  using u32_add_exact [of 24 x n] assms by simp_all

lemma frame_image_bytes: "frame_sized fr \<Longrightarrow> frame_image fr = Inr (frame_bytes fr)"
proof -
  assume sz: "frame_sized fr"
  let ?n = "unat (payload_len (header fr))"
  have N: "unat (24 + payload_len (header fr)) = 24 + ?n"
    using sz by (auto simp: frame_sized_def intro: u32_header_add)
  have body: "(case payload fr of None \<Rightarrow> [] | Some b \<Rightarrow> b) = frame_body fr"
    by (simp add: frame_body_def)
  have len: "length (frame_body fr) = ?n" using sz by (simp add: frame_sized_def)
  have z: "?n = 0 \<Longrightarrow> frame_body fr = []" using len by simp
  show ?thesis
    using z by (simp add: frame_image_def Let_def N body len frame_bytes_def del: unat_gt_0)
qed

text \<open>
  Outside these sizes the 32-bit sum wraps and the buffer is smaller than the header, so
  the very first stores of the header leave it.
\<close>

lemma frame_image_overflow:
  assumes len: "length (frame_body fr) = unat (payload_len (header fr))"
    and big: "2 ^ 32 \<le> 24 + unat (payload_len (header fr))"
  shows "frame_image fr = Inl OutOfBounds"
proof -
  have "unat (payload_len (header fr)) < 2 ^ 32"
    using unsigned_less [of "payload_len (header fr)"] by simp
  then have N: "unat (24 + payload_len (header fr)) < 24"
    using big by (simp add: unat_word_ariths le_mod_geq)
  have body: "(case payload fr of None \<Rightarrow> [] | Some b \<Rightarrow> b) = frame_body fr"
    by (simp add: frame_body_def)
  have step: "bind_sum (store r off d) f = Inl OutOfBounds"
    if "length r < off + length d \<or> (\<forall>r'. length r' = length r \<longrightarrow> f r' = Inl OutOfBounds)"
    for r off d and f :: "byte list \<Rightarrow> byte list cres"
    using that by (auto simp: store_def)
  show ?thesis
    using N len big
    by (simp add: frame_image_def Let_def body del: unat_gt_0) (intro step disjI2 allI impI, simp add: store_def)
qed

lemma encode_frame_cases:
  assumes "frame_sized fr"
  obtains (ok) w' where "usb_responder_protocol_encode_frame fr w = (Inr (frame_bytes fr), w')"
      "mem_only w w' 1"
  | (fail) w' where "usb_responder_protocol_encode_frame fr w = (Inl NoMem, w')"
      "mem_only w w' 0" "allocs w \<noteq> []"
proof -
  have null: "\<not> (0 < payload_len (header fr) \<and> payload fr = None)"
    using assms by (auto simp: frame_sized_def frame_body_def word_less_nat_alt)
  show ?thesis
    using null frame_image_bytes [OF assms] that
    by (cases rule: c_malloc_cases [of w]) (auto simp: usb_responder_protocol_encode_frame_def)
qed

section \<open>Decoding\<close>

lemma parse_header_in:
  "24 \<le> length raw \<Longrightarrow> \<exists>h. parse_header raw = Inr h"
  using read_le32_in [of 0 raw] read_le16_in [of 4 raw] read_le16_in [of 6 raw] read_le32_in [of 8 raw]
    read_le32_in [of 12 raw] read_le32_in [of 16 raw] read_le32_in [of 20 raw]
  by (auto simp: parse_header_def)

lemma parse_header_bytes: "parse_header (frame_bytes fr) = Inr (header (sealed fr))"
  by (simp add: parse_header_def frame_bytes_def codec_simps sealed_def)

lemma parse_header_layout:
  assumes "parse_header raw = Inr h" and "24 \<le> length raw"
  shows "take 24 raw = write_le32 (magic h) @ write_le16 (version h) @ write_le16 (msg_type h) @
    write_le32 (flags h) @ write_le32 (request_id h) @ write_le32 (payload_len h) @ write_le32 (payload_crc32 h)"
proof -
  have "take 24 raw = take 4 raw @ take 2 (drop 4 raw) @ take 2 (drop 6 raw) @ take 4 (drop 8 raw) @
      take 4 (drop 12 raw) @ take 4 (drop 16 raw) @ take 4 (drop 20 raw)"
    by (simp add: take_drop_append [symmetric] drop_drop flip: append_assoc)
       (simp add: take_add [symmetric])
  with assms(1) show ?thesis
    by (auto simp: parse_header_def bind_sum_eq_Inr dest!: read_le32_bytes read_le16_bytes)
qed

text \<open>
  The frame a header and a buffer of matching size stand for. The payload is a null
  pointer exactly if it is empty.
\<close>

definition frame_at :: "frame_header \<Rightarrow> byte list \<Rightarrow> frame" where
  "frame_at h raw = \<lparr>header = h, payload = (if payload_len h = 0 then None else Some (drop 24 raw))\<rparr>"

definition header_fits :: "frame_header \<Rightarrow> byte list \<Rightarrow> bool" where
  "header_fits h raw \<longleftrightarrow> magic h = USB_RESPONDER_MAGIC \<and> version h = USB_RESPONDER_VERSION \<and>
     length raw = 24 + unat (payload_len h) \<and> 24 + unat (payload_len h) < 2 ^ 32"

lemma frame_at_body: "header_fits h raw \<Longrightarrow> frame_body (frame_at h raw) = drop 24 raw"
  by (auto simp: frame_at_def frame_body_def header_fits_def)

lemma frame_at_bytes:
  assumes "parse_header raw = Inr h" and fits: "header_fits h raw"
    and crc: "payload_crc32 h = usb_responder_crc32 (drop 24 raw)"
  shows "frame_wf (frame_at h raw)" and "frame_bytes (frame_at h raw) = raw"
proof -
  have body: "frame_body (frame_at h raw) = drop 24 raw" using fits by (rule frame_at_body)
  have hd: "header (frame_at h raw) = h" by (simp add: frame_at_def)
  have len: "24 \<le> length raw" using fits by (simp add: header_fits_def)
  have "frame_bytes (frame_at h raw) = take 24 raw @ drop 24 raw"
    unfolding frame_bytes_def body hd parse_header_layout [OF assms(1) len]
    using fits crc by (simp add: header_fits_def)
  then show "frame_bytes (frame_at h raw) = raw" by simp
  have "frame_sized (frame_at h raw)"
    using fits by (simp add: frame_sized_def body hd header_fits_def)
  moreover have "sealed (frame_at h raw) = frame_at h raw"
    unfolding sealed_def body hd using fits crc by (simp add: header_fits_def frame_at_def)
  ultimately show "frame_wf (frame_at h raw)" by (simp add: frame_wf_def frame_at_def)
qed

lemma decode_frame_fits:
  assumes "parse_header raw = Inr h" and "header_fits h raw"
  shows "usb_responder_protocol_decode_frame raw w =
    (let (ok, w1) = (if payload_len h = 0 then (True, w) else c_malloc w)
     in if \<not> ok then (Inl NoMem, w1)
        else if payload_crc32 h = usb_responder_crc32 (drop 24 raw) then (Inr (frame_at h raw), w1)
        else (Inl Reject, c_free (payload_len h \<noteq> 0) w1))"
proof -
  have "unat (24 + payload_len h) = length raw"
    using assms(2) by (simp add: header_fits_def u32_header_add)
  then show ?thesis
    using assms
    by (cases "payload_len h = 0")
      (auto simp: usb_responder_protocol_decode_frame_def header_fits_def frame_at_def Let_def
        usb_responder_protocol_frame_free_def unat_gt_0 split: prod.splits bool.splits)
qed

lemma decode_frame_rejects:
  assumes "\<And>h. parse_header raw = Inr h \<Longrightarrow> \<not> header_fits h raw"
  shows "usb_responder_protocol_decode_frame raw w = (Inl Reject, w)"
proof (cases "24 \<le> length raw")
  case True
  then obtain h where h: "parse_header raw = Inr h" using parse_header_in by blast
  have "magic h = USB_RESPONDER_MAGIC \<Longrightarrow> version h = USB_RESPONDER_VERSION \<Longrightarrow>
      unat (24 + payload_len h) \<noteq> length raw"
    using assms [OF h] u32_header_add_exact [of "payload_len h" "length raw"] True
    by (auto simp: header_fits_def)
  with h True show ?thesis by (auto simp: usb_responder_protocol_decode_frame_def)
next
  case False
  then show ?thesis by (simp add: usb_responder_protocol_decode_frame_def)
qed

lemma decode_frame_cases:
  obtains (reject) e w' where "usb_responder_protocol_decode_frame raw w = (Inl e, w')"
      "e \<noteq> OutOfBounds" "mem_only w w' 0"
  | (accept) fr w' where "usb_responder_protocol_decode_frame raw w = (Inr fr, w')"
      "frame_wf fr" "frame_bytes fr = raw" "mem_only w w' (if payload fr = None then 0 else 1)"
proof (cases "\<exists>h. parse_header raw = Inr h \<and> header_fits h raw")
  case False
  then show ?thesis using decode_frame_rejects [of raw w] by (intro reject [of Reject w]) auto
next
  case True
  then obtain h where h: "parse_header raw = Inr h" "header_fits h raw" by blast
  note dec = decode_frame_fits [OF h, of w]
  have null: "payload (frame_at h raw) = None \<longleftrightarrow> payload_len h = 0" by (simp add: frame_at_def)
  show ?thesis
  proof (cases "payload_crc32 h = usb_responder_crc32 (drop 24 raw)")
    case True
    note wf = frame_at_bytes [OF h True]
    show ?thesis
    proof (cases "payload_len h = 0")
      case z: True
      then show ?thesis using dec True wf null by (intro accept [of "frame_at h raw" w]) auto
    next
      case nz: False
      then show ?thesis using dec True wf null
        by (cases rule: c_malloc_cases [of w]) (auto intro: reject accept)
    qed
  next
    case False
    then show ?thesis
    proof (cases "payload_len h = 0")
      case z: True
      then show ?thesis using dec False by (intro reject [of Reject w]) (auto simp: c_free_def)
    next
      case nz: False
      show ?thesis
      proof (cases rule: c_malloc_cases [of w])
        case (ok w1)
        have "mem_only w (c_free True w1) 0"
          using mem_only_trans [OF ok(2) c_free_mem [of w1 True]] by simp
        then show ?thesis using dec False nz ok(1) by (intro reject [of Reject "c_free True w1"]) auto
      next
        case (fail w1)
        then show ?thesis using dec nz by (intro reject [of NoMem w1]) auto
      qed
    qed
  qed
qed

lemma decode_frame_bytes:
  assumes "frame_sized fr" and "payload fr = None \<longleftrightarrow> payload_len (header fr) = 0" and "allocs w = []"
  shows "usb_responder_protocol_decode_frame (frame_bytes fr) w =
    (Inr (sealed fr), w\<lparr>live := live w + (if payload fr = None then 0 else 1)\<rparr>)"
proof -
  let ?h = "header (sealed fr)"
  have drop: "drop 24 (frame_bytes fr) = frame_body fr" by (simp add: frame_bytes_def)
  have fits: "header_fits ?h (frame_bytes fr)"
    using assms(1) by (simp add: header_fits_def length_frame_bytes frame_sized_def) (simp add: sealed_def)
  have crc: "payload_crc32 ?h = usb_responder_crc32 (drop 24 (frame_bytes fr))"
    unfolding drop by (simp add: sealed_def)
  have "frame_at ?h (frame_bytes fr) = sealed fr"
    using assms(2) unfolding frame_at_def drop
    by (cases fr) (auto simp: sealed_def frame_body_def split: option.split)
  then show ?thesis
    using assms(2,3) crc
    by (simp add: decode_frame_fits [OF parse_header_bytes fits] c_malloc_succeeds)
qed


section \<open>The codec\<close>

definition frame_enc :: "frame \<Rightarrow> byte list" where
  "frame_enc fr = (case fst (usb_responder_protocol_encode_frame fr calm_world) of Inl _ \<Rightarrow> [] | Inr raw \<Rightarrow> raw)"

definition frame_dec :: "byte list \<Rightarrow> frame option" where
  "frame_dec raw = to_option (fst (usb_responder_protocol_decode_frame raw calm_world))"

lemma frame_enc_eq: "frame_sized fr \<Longrightarrow> frame_enc fr = frame_bytes fr"
  by (rule encode_frame_cases [of fr calm_world]) (auto simp: frame_enc_def)

lemma frame_wf_sized: "frame_wf fr \<Longrightarrow> frame_sized fr"
  by (simp add: frame_wf_def)

interpretation frame_codec: canonical_encoding frame_enc frame_dec frame_wf
proof unfold_locales
  fix fr assume "frame_wf fr"
  then show "frame_dec (frame_enc fr) = Some fr"
    using decode_frame_bytes [of fr calm_world] by (simp add: frame_dec_def frame_enc_eq frame_wf_def)
next
  fix raw fr assume dec: "frame_dec raw = Some fr"
  show "frame_wf fr \<and> frame_enc fr = raw"
    by (rule decode_frame_cases [of raw calm_world]) (use dec in \<open>auto simp: frame_dec_def frame_enc_eq frame_wf_sized\<close>)
qed

lemma frame_wf_encodes:
  "frame_wf fr \<Longrightarrow> fst (usb_responder_protocol_encode_frame fr calm_world) = Inr (frame_bytes fr)"
  by (rule encode_frame_cases [of fr calm_world]) (auto simp: frame_wf_sized)

section \<open>Properties\<close>

text \<open>
  Frame round trip. A frame with a payload of the declared length is encoded, and whatever
  bytes the encoder produced are decoded by the peer to the same frame with magic, version
  and checksum filled in.
\<close>

theorem frame_roundtrip:
  assumes "frame_sized fr" and "payload fr = None \<longleftrightarrow> payload_len (header fr) = 0"
    and "allocs w = []" and "allocs w2 = []"
  shows "\<exists>raw. fst (usb_responder_protocol_encode_frame fr w) = Inr raw \<and>
    fst (usb_responder_protocol_decode_frame raw w2) = Inr (sealed fr)"
proof -
  from assms(1) have "fst (usb_responder_protocol_encode_frame fr w) = Inr (frame_bytes fr)"
    by (rule encode_frame_cases [of fr w]) (auto simp: assms(3))
  then show ?thesis by (simp add: decode_frame_bytes assms)
qed

definition sample_frame :: frame where
  "sample_frame = \<lparr>header = zero_header\<lparr>msg_type := 2, request_id := 7, payload_len := 3\<rparr>,
     payload = Some [1, 2, 3]\<rparr>"

theorem frame_roundtrip_witness:
  "\<exists>raw. fst (usb_responder_protocol_encode_frame sample_frame calm_world) = Inr raw \<and>
    fst (usb_responder_protocol_decode_frame raw calm_world) = Inr (sealed sample_frame)"
  by (rule frame_roundtrip) (simp_all add: sample_frame_def frame_sized_def frame_body_def)

text \<open>
  C10. Canonical frames. The decoder accepts a byte sequence exactly if it is the encoder's
  output for the frame it returns, and that frame is well formed: magic, version, length and
  checksum agree with the payload and an empty payload is a null pointer. No two byte
  sequences decode to the same frame.
\<close>

theorem decode_frame_canonical:
  "fst (usb_responder_protocol_decode_frame raw calm_world) = Inr fr \<longleftrightarrow>
   frame_wf fr \<and> fst (usb_responder_protocol_encode_frame fr calm_world) = Inr raw"
proof -
  have "fst (usb_responder_protocol_decode_frame raw calm_world) = Inr fr \<longleftrightarrow> frame_dec raw = Some fr"
    by (cases "fst (usb_responder_protocol_decode_frame raw calm_world)") (simp_all add: frame_dec_def)
  also have "\<dots> \<longleftrightarrow> frame_wf fr \<and> frame_enc fr = raw" by (rule frame_codec.dec_eq_Some_iff)
  also have "\<dots> \<longleftrightarrow> frame_wf fr \<and> fst (usb_responder_protocol_encode_frame fr calm_world) = Inr raw"
    by (auto simp: frame_enc_def frame_wf_encodes)
  finally show ?thesis .
qed

text \<open>
  C11. Safety of the frame decoder. On every byte sequence and with every outcome of the
  allocator the decoder stays inside the buffer, and afterwards exactly the payload of an
  accepted frame is allocated: no rejection leaks or frees twice.
\<close>

theorem decode_frame_safe:
  "case usb_responder_protocol_decode_frame raw w of
     (Inl e, w') \<Rightarrow> e \<noteq> OutOfBounds \<and> live w' = live w
   | (Inr fr, w') \<Rightarrow> frame_wf fr \<and> live w' = live w + (if payload fr = None then 0 else 1)"
  by (rule decode_frame_cases [of raw w]) (auto dest: mem_only_live)

text \<open>
  C14. Corruption of a payload. If up to four consecutive bytes of the payload of an encoded
  frame change, the decoder does not accept the result, in any world.
\<close>

theorem corrupted_payload_rejected:
  assumes "frame_sized fr" and "frame_body fr = pre @ burst @ post"
    and "length burst' = length burst" and "length burst \<le> 4" and "burst' \<noteq> burst"
  shows "\<exists>e. fst (usb_responder_protocol_decode_frame
    (take 24 (frame_bytes fr) @ pre @ burst' @ post) w) = Inl e"
proof -
  let ?raw = "take 24 (frame_bytes fr) @ pre @ burst' @ post"
  have len: "length (take 24 (frame_bytes fr)) = 24" by (simp add: length_frame_bytes)
  show ?thesis
  proof (rule decode_frame_cases [of ?raw w])
    fix e w' assume "usb_responder_protocol_decode_frame ?raw w = (Inl e, w')"
    then show ?thesis by simp
  next
    fix fr' w' assume acc: "frame_wf fr'" "frame_bytes fr' = ?raw"
    have dropb: "drop 24 (frame_bytes x) = frame_body x" for x by (simp add: frame_bytes_def)
    have "frame_body fr' = pre @ burst' @ post" using dropb [of fr'] acc(2) len by simp
    moreover have "take 4 (drop 20 (frame_bytes fr')) = take 4 (drop 20 (frame_bytes fr))"
      unfolding acc(2) using len by (simp add: length_frame_bytes drop_take)
    then have "write_le32 (usb_responder_crc32 (frame_body fr')) = write_le32 (usb_responder_crc32 (frame_body fr))"
      by (simp add: frame_bytes_def)
    then have "usb_responder_crc32 (frame_body fr') = usb_responder_crc32 (frame_body fr)"
      by (metis read_le_here(4) sum.inject(2))
    ultimately show ?thesis
      using crc32_burst [of burst' burst pre post] assms by simp
  qed
qed

theorem corrupted_payload_rejected_witness:
  "\<exists>e. fst (usb_responder_protocol_decode_frame
    (take 24 (frame_bytes sample_frame) @ [1] @ [9] @ [3]) calm_world) = Inl e"
  by (rule corrupted_payload_rejected [where burst = "[2]"])
    (simp_all add: sample_frame_def frame_sized_def frame_body_def)

text \<open>
  Overflow of the frame size. The size \<open>24u + payload_len\<close> is added in 32 bits: for a
  payload of at least \<open>2 ^ 32 - 24\<close> bytes the buffer is too small for the header and the
  encoder writes outside it.
\<close>

theorem encode_frame_size_wraps:
  assumes "payload fr = Some d" and "length d = unat (payload_len (header fr))"
    and "2 ^ 32 \<le> 24 + length d" and "allocs w = []"
  shows "fst (usb_responder_protocol_encode_frame fr w) = Inl OutOfBounds"
  using frame_image_overflow [of fr] assms
  by (simp add: usb_responder_protocol_encode_frame_def frame_body_def c_malloc_succeeds)

theorem encode_frame_size_wraps_witness:
  "fst (usb_responder_protocol_encode_frame
     \<lparr>header = zero_header\<lparr>payload_len := 0xFFFFFFFF\<rparr>,
      payload = Some (replicate 4294967295 0)\<rparr> calm_world) = Inl OutOfBounds"
  by (rule encode_frame_size_wraps [where d = "replicate 4294967295 0"]) simp_all

end
