(* ===== verification/Frame_Io.thy ===== *)
theory Frame_Io
  imports Frames Io_Utils
begin

text \<open>
  Whole frames on descriptors (\<open>src/protocol.c\<close>): \<open>write_limited\<close> with its pieces of at
  most 16 KiB and the zero-length packet at the end of a transfer, \<open>write_frame\<close> and
  \<open>read_frame\<close>. A locale states what the responder relies on when it answers: that a send
  which reports success has put exactly one frame on the wire.
\<close>

section \<open>The code\<close>

function write_chunks :: "int \<Rightarrow> byte list \<Rightarrow> 'a io_world_scheme \<Rightarrow> bool \<times> 'a io_world_scheme" where
  "write_chunks fd data w =
     (if data = [] then (True, w)
      else
        let n = (if USB_RESPONDER_IO_CHUNK < length data then USB_RESPONDER_IO_CHUNK else length data)
        in case usb_responder_write_full fd (take n data) w of
             (False, w1) \<Rightarrow> (False, w1)
           | (True, w1) \<Rightarrow> write_chunks fd (drop n data) w1)"
  by pat_completeness auto
termination
  by (relation "measure (\<lambda>(fd, data, w). length data)") auto

declare write_chunks.simps [simp del]

definition write_limited :: "int \<Rightarrow> byte list \<Rightarrow> 'a io_world_scheme \<Rightarrow> bool \<times> 'a io_world_scheme" where
  "write_limited fd data w =
     (case write_chunks fd data w of
        (False, w1) \<Rightarrow> (False, w1)
      | (True, w1) \<Rightarrow>
          if usb_responder_bulk_in_needs_zlp (length data) then usb_responder_write_zlp fd w1
          else (True, w1))"

definition usb_responder_protocol_write_frame ::
  "int \<Rightarrow> frame \<Rightarrow> 'a io_world_scheme \<Rightarrow> bool \<times> 'a io_world_scheme" where
  "usb_responder_protocol_write_frame fd fr w =
     (case usb_responder_protocol_encode_frame fr w of
        (Inl e, w1) \<Rightarrow> (False, w1)
      | (Inr raw, w1) \<Rightarrow>
          let (ok, w2) = write_limited fd raw w1 in (ok, c_free True w2))"

definition usb_responder_protocol_read_frame ::
  "nat \<Rightarrow> 'a io_world_scheme \<Rightarrow> frame cres io \<times> 'a io_world_scheme" where
  "usb_responder_protocol_read_frame max_payload w =
     (case usb_responder_read_full USB_RESPONDER_HEADER_SIZE [] w of
        (Blocked, w1) \<Rightarrow> (Blocked, w1)
      | (Done None, w1) \<Rightarrow> (Done (Inl Reject), w1)
      | (Done (Some hdr), w1) \<Rightarrow>
          (case read_le32 hdr 16 of
             Inl e \<Rightarrow> (Done (Inl e), w1)
           | Inr len \<Rightarrow>
               if max_payload < unat len then (Done (Inl Reject), w1)
               else case c_malloc w1 of
                 (False, w2) \<Rightarrow> (Done (Inl NoMem), w2)
               | (True, w2) \<Rightarrow>
                   (case store (replicate (unat (24 + len)) 0) 0 hdr of
                      Inl e \<Rightarrow> (Done (Inl e), w2)
                    | Inr raw \<Rightarrow>
                        if 0 < len then
                          (case usb_responder_read_full (unat len) [] w2 of
                             (Blocked, w3) \<Rightarrow> (Blocked, w3)
                           | (Done None, w3) \<Rightarrow> (Done (Inl Reject), c_free True w3)
                           | (Done (Some body), w3) \<Rightarrow>
                               (case store raw USB_RESPONDER_HEADER_SIZE body of
                                  Inl e \<Rightarrow> (Done (Inl e), w3)
                                | Inr whole \<Rightarrow>
                                    let (r, w4) = usb_responder_protocol_decode_frame whole w3
                                    in (Done r, c_free True w4)))
                        else
                          let (r, w3) = usb_responder_protocol_decode_frame raw w2
                          in (Done r, c_free True w3))))"

section \<open>Transfers\<close>

text \<open>
  The transfers of one message: pieces of at most 16 KiB that join to the message, and a
  zero-length packet behind them exactly if the size asks for one.
\<close>

definition transfers_of :: "byte list \<Rightarrow> byte list list \<Rightarrow> bool" where
  "transfers_of raw ts \<longleftrightarrow>
     (\<exists>ps. ts = ps @ (if usb_responder_bulk_in_needs_zlp (length raw) then [[]] else []) \<and>
        concat ps = raw \<and> [] \<notin> set ps)"

lemma transfers_of_concat: "transfers_of raw ts \<Longrightarrow> concat ts = raw"
  by (auto simp: transfers_of_def)

lemma write_chunks_spec:
  "write_chunks fd data w = (ok, w') \<Longrightarrow>
   io_only w w' \<and>
   (\<exists>ds. sent w' = sent w @ map (Pair fd) ds \<and> [] \<notin> set ds \<and> (\<exists>rest. data = concat ds @ rest \<and> (ok \<longrightarrow> rest = [])))"
proof (induction fd data w arbitrary: ok w' rule: write_chunks.induct)
  case (1 fd data w)
  show ?case
  proof (cases "data = []")
    case True
    with 1 show ?thesis by (auto simp: write_chunks.simps [of fd "[]"])
  next
    case False
    define n where "n = (if 16384 < length data then 16384 else length data)"
    obtain ok1 w1 where wf: "usb_responder_write_full fd (take n data) w = (ok1, w1)" by (metis surj_pair)
    from write_full_spec [OF wf] obtain ds where
      io: "io_only w w1" and ds: "sent w1 = sent w @ map (Pair fd) ds" "[] \<notin> set ds"
        "if ok1 then concat ds = take n data else \<exists>rest. rest \<noteq> [] \<and> take n data = concat ds @ rest"
      by blast
    show ?thesis
    proof (cases ok1)
      case ok1: False
      with wf False "1.prems" have "ok = False" "w' = w1"
        by (simp_all add: write_chunks.simps [of fd data w] n_def Let_def)
      moreover obtain rest where "take n data = concat ds @ rest" using ds(3) ok1 by auto
      then have "data = concat ds @ (rest @ drop n data)" by (metis append.assoc append_take_drop_id)
      ultimately show ?thesis using io ds by blast
    next
      case True
      then have ok1: "ok1 = True" by simp
      from True wf False "1.prems" have rec: "write_chunks fd (drop n data) w1 = (ok, w')"
        by (simp add: write_chunks.simps [of fd data w] n_def Let_def split: if_splits)
      have "\<exists>es. sent w' = sent w1 @ map (Pair fd) es \<and> [] \<notin> set es \<and>
          (\<exists>rest. drop n data = concat es @ rest \<and> (ok \<longrightarrow> rest = []))" and io2: "io_only w1 w'"
        using "1.IH" [OF False n_def wf [symmetric] ok1 rec] by auto
      then obtain es rest where es: "sent w' = sent w1 @ map (Pair fd) es" "[] \<notin> set es"
          "drop n data = concat es @ rest" "ok \<longrightarrow> rest = []" by blast
      have "data = concat (ds @ es) @ rest"
        using ds(3) es(3) True by (simp add: append_eq_conv_conj) (metis append_take_drop_id)
      moreover have "sent w' = sent w @ map (Pair fd) (ds @ es)" using ds(1) es(1) by simp
      moreover have "[] \<notin> set (ds @ es)" using ds(2) es(2) by auto
      ultimately show ?thesis using io io2 es(4) by (blast intro: io_only_trans)
    qed
  qed
qed

lemma write_limited_spec:
  assumes "write_limited fd data w = (ok, w')"
  shows "io_only w w' \<and> (\<exists>ts. sent w' = sent w @ map (Pair fd) ts \<and>
     (if ok then transfers_of data ts else (\<exists>rest. data = concat ts @ rest)))"
proof -
  obtain ok1 w1 where ch: "write_chunks fd data w = (ok1, w1)" by (metis surj_pair)
  from write_chunks_spec [OF ch] obtain ds rest where
    ds: "io_only w w1" "sent w1 = sent w @ map (Pair fd) ds" "[] \<notin> set ds" "data = concat ds @ rest"
      "ok1 \<longrightarrow> rest = []" by blast
  show ?thesis
  proof (cases "ok1 \<and> usb_responder_bulk_in_needs_zlp (length data)")
    case False
    with assms ch have "ok = ok1" "w' = w1" by (auto simp: write_limited_def split: bool.splits)
    with False ds show ?thesis by (auto simp: transfers_of_def)
  next
    case True
    with assms ch have "usb_responder_write_zlp fd w1 = (ok, w')" by (auto simp: write_limited_def)
    from write_zlp_spec [OF this] have z: "io_only w1 w'" "sent w' = sent w1 @ (if ok then [(fd, [])] else [])"
      by blast+
    have io: "io_only w w'" using ds(1) z(1) by (rule io_only_trans)
    show ?thesis
    proof (cases ok)
      case ok: True
      have "transfers_of data (ds @ [[]])" using ds True by (auto simp: transfers_of_def)
      moreover have "sent w' = sent w @ map (Pair fd) (ds @ [[]])" using z(2) ds(2) ok by simp
      ultimately show ?thesis using io ok by metis
    next
      case False
      then have "sent w' = sent w @ map (Pair fd) ds" using z(2) ds(2) by simp
      with io ds(4) False show ?thesis by auto
    qed
  qed
qed


lemma io_only_live: "io_only w w' \<Longrightarrow> live w' = live w"
  by (simp add: io_only_def)

lemma io_only_allocs: "io_only w w' \<Longrightarrow> allocs w' = allocs w"
  by (simp add: io_only_def)

section \<open>Sending\<close>

text \<open>
  What \<open>send\<close> promises its clients: the heap is balanced, a reported success means that
  exactly the transfers of the one frame are on the wire, and a failure leaves a prefix.
\<close>

definition sent_frame :: "int \<Rightarrow> frame \<Rightarrow> 'a io_world_scheme \<Rightarrow> 'a io_world_scheme \<Rightarrow> bool" where
  "sent_frame fd fr w w' \<longleftrightarrow>
     (\<exists>ts. sent w' = sent w @ map (Pair fd) ts \<and> transfers_of (frame_bytes fr) ts)"

text \<open>The bytes that arrive at the other end of a descriptor.\<close>

definition wire :: "int \<Rightarrow> 'a io_world_scheme \<Rightarrow> byte list" where
  "wire fd w = concat (map snd (filter (\<lambda>t. fst t = fd) (sent w)))"

lemma sent_frame_wire: "sent_frame fd fr w w' \<Longrightarrow> wire fd w' = wire fd w @ frame_bytes fr"
  by (auto simp: sent_frame_def wire_def comp_def filter_map dest: transfers_of_concat)

locale frame_sender =
  fixes send :: "int \<Rightarrow> frame \<Rightarrow> 'a io_world_scheme \<Rightarrow> bool \<times> 'a io_world_scheme"
  assumes send_ok: "frame_sized fr \<Longrightarrow> send fd fr w = (True, w') \<Longrightarrow> sent_frame fd fr w w'"
    and send_fail: "frame_sized fr \<Longrightarrow> send fd fr w = (False, w') \<Longrightarrow>
      \<exists>ts rest. sent w' = sent w @ map (Pair fd) ts \<and> frame_bytes fr = concat ts @ rest"
    and send_live: "frame_sized fr \<Longrightarrow> send fd fr w = (ok, w') \<Longrightarrow> live w' = live w"
begin

fun send_all :: "int \<Rightarrow> frame list \<Rightarrow> 'a io_world_scheme \<Rightarrow> bool \<times> 'a io_world_scheme" where
  "send_all fd [] w = (True, w)"
| "send_all fd (fr # frs) w =
     (case send fd fr w of (False, w1) \<Rightarrow> (False, w1) | (True, w1) \<Rightarrow> send_all fd frs w1)"

lemma send_wire: "frame_sized fr \<Longrightarrow> send fd fr w = (True, w') \<Longrightarrow> wire fd w' = wire fd w @ frame_bytes fr"
  by (rule sent_frame_wire [OF send_ok])

lemma send_all_wire:
  "list_all frame_sized frs \<Longrightarrow> send_all fd frs w = (True, w') \<Longrightarrow>
   wire fd w' = wire fd w @ concat (map frame_bytes frs) \<and> live w' = live w"
  by (induction frs arbitrary: w) (auto simp: send_wire send_live split: prod.splits bool.splits)

end

lemma write_frame_cases:
  assumes "frame_sized fr" and "usb_responder_protocol_write_frame fd fr w = (ok, w')"
  shows "live w' = live w \<and> (\<exists>ts. sent w' = sent w @ map (Pair fd) ts \<and>
    (if ok then transfers_of (frame_bytes fr) ts else (\<exists>rest. frame_bytes fr = concat ts @ rest)))"
  using assms(1)
proof (cases rule: encode_frame_cases [of fr w])
  case (ok w1)
  obtain ok2 w2 where wl: "write_limited fd (frame_bytes fr) w1 = (ok2, w2)" by (metis surj_pair)
  with ok assms(2) have w': "ok2 = ok" "w' = c_free True w2"
    by (simp_all add: usb_responder_protocol_write_frame_def)
  have "live w' = live w"
    using io_only_live [OF write_limited_spec [OF wl, THEN conjunct1]] mem_only_live [OF ok(2)] w'
    by (simp add: c_free_def)
  moreover have "sent w' = sent w2" "sent w1 = sent w"
    using w' mem_only_keeps(1) [OF ok(2)] by (simp_all add: c_free_def)
  ultimately show ?thesis using write_limited_spec [OF wl] w'(1) by auto
next
  case (fail w1)
  with assms(2) have "ok = False" "w' = w1" by (simp_all add: usb_responder_protocol_write_frame_def)
  with fail(2) show ?thesis
    by (auto simp: mem_only_live mem_only_keeps(1) intro!: exI [of _ "[] :: byte list list"])
qed

interpretation responder_send: frame_sender usb_responder_protocol_write_frame
  by unfold_locales (use write_frame_cases in \<open>fastforce simp: sent_frame_def\<close>)+

section \<open>Receiving\<close>

text \<open>
  A script that delivers pieces of data, each after some interrupted calls.
\<close>

fun arriving :: "(nat \<times> byte list) list \<Rightarrow> rout list" where
  "arriving [] = []"
| "arriving ((k, d) # ps) = replicate k (RFail EINTR) @ RData d # arriving ps"

definition arrived :: "(nat \<times> byte list) list \<Rightarrow> byte list" where
  "arrived ps = concat (map snd ps)"

lemma arrived_simps [simp]: "arrived [] = []" "arrived ((k, d) # ps) = d @ arrived ps"
  by (simp_all add: arrived_def)

lemma read_full_interrupted:
  "rscript w = replicate k (RFail EINTR) @ s \<Longrightarrow> length got < sz \<Longrightarrow>
   usb_responder_read_full sz got w =
   usb_responder_read_full sz got (if k = 0 then w else w\<lparr>rscript := s, errno_val := EINTR\<rparr>)"
proof (induction k arbitrary: w)
  case 0
  then show ?case by simp
next
  case (Suc k)
  let ?w = "w\<lparr>rscript := replicate k (RFail EINTR) @ s, errno_val := EINTR\<rparr>"
  have "usb_responder_read_full sz got w = usb_responder_read_full sz got ?w"
    using Suc.prems by (subst usb_responder_read_full.simps) (simp add: sys_read_def)
  also have "\<dots> = usb_responder_read_full sz got (if k = 0 then ?w else ?w\<lparr>rscript := s, errno_val := EINTR\<rparr>)"
    using Suc.prems by (intro Suc.IH) simp_all
  finally show ?case by (cases k) simp_all
qed

lemma read_full_arriving:
  "rscript w = arriving ps @ rest \<Longrightarrow> [] \<notin> snd ` set ps \<Longrightarrow> sz = length got + length (arrived ps) \<Longrightarrow>
   \<exists>e. usb_responder_read_full sz got w = (Done (Some (got @ arrived ps)), w\<lparr>rscript := rest, errno_val := e\<rparr>)"
proof (induction ps arbitrary: got w)
  case Nil
  then show ?case
    by (intro exI [of _ "errno_val w"]) (subst usb_responder_read_full.simps, auto)
next
  case (Cons p ps)
  obtain k d where p: "p = (k, d)" by (cases p)
  let ?s = "RData d # arriving ps @ rest"
  let ?w = "if k = 0 then w else w\<lparr>rscript := ?s, errno_val := EINTR\<rparr>"
  have d: "d \<noteq> []" and sz: "length got < sz" using Cons.prems by (auto simp: p)
  have "usb_responder_read_full sz got w = usb_responder_read_full sz got ?w"
    using Cons.prems sz by (intro read_full_interrupted) (simp_all add: p)
  also have "\<dots> = usb_responder_read_full sz (got @ d) (?w\<lparr>rscript := arriving ps @ rest\<rparr>)"
    using Cons.prems d sz
    by (subst usb_responder_read_full.simps) (auto simp: sys_read_def p)
  finally show ?case
    using Cons.IH [of "?w\<lparr>rscript := arriving ps @ rest\<rparr>" "got @ d"] Cons.prems
    by (cases "k = 0") (auto simp: p)
qed

lemma sys_read_keeps:
  "sys_read n w = (r, w') \<Longrightarrow>
   live w' = live w \<and> allocs w' = allocs w \<and> sent w' = sent w \<and> wscript w' = wscript w \<and>
   (\<forall>bs. r = Done (Inr bs) \<longrightarrow> length bs \<le> n)"
  by (auto simp: sys_read_def split: list.splits rout.splits)

lemma set_errno_error_keeps [simp]:
  "live (set_errno_error p w) = live w" "allocs (set_errno_error p w) = allocs w"
  "wscript (set_errno_error p w) = wscript w" "rscript (set_errno_error p w) = rscript w"
  "live (usb_responder_set_last_error m w) = live w" "allocs (usb_responder_set_last_error m w) = allocs w"
  "wscript (usb_responder_set_last_error m w) = wscript w" "rscript (usb_responder_set_last_error m w) = rscript w"
  by (simp_all add: set_errno_error_def usb_responder_set_last_error_def split: option.split)

lemma read_full_safe:
  "usb_responder_read_full sz got w = (r, w') \<Longrightarrow> length got \<le> sz \<Longrightarrow>
   (\<forall>bs. r = Done (Some bs) \<longrightarrow> length bs = sz) \<and>
   live w' = live w \<and> allocs w' = allocs w \<and> sent w' = sent w \<and> wscript w' = wscript w"
proof (induction sz got w arbitrary: r w' rule: usb_responder_read_full.induct)
  case (1 sz got w)
  note unf = usb_responder_read_full.simps [of sz got w]
  obtain x w1 where rd: "sys_read (sz - length got) w = (x, w1)" by (metis surj_pair)
  note keep = sys_read_keeps [OF rd]
  show ?case
  proof (cases "sz \<le> length got")
    case True
    with "1.prems" have "Done (Some got) = r" "w = w'" by (simp_all add: unf)
    with True "1.prems"(2) show ?thesis by auto
  next
    case False
    show ?thesis
    proof (cases x)
      case Blocked
      with False rd "1.prems"(1) have "r = Blocked" "w' = w1" by (simp_all add: unf)
      with keep show ?thesis by simp
    next
      case (Done y)
      show ?thesis
      proof (cases y)
        case (Inl e)
        show ?thesis
        proof (cases "e = EINTR")
          case True
          with False rd "1.prems"(1) Done Inl have "usb_responder_read_full sz got w1 = (r, w')"
            by (simp add: unf)
          from "1.IH"(1) [OF False rd [symmetric] Done Inl True this "1.prems"(2)] keep show ?thesis by simp
        next
          case neq: False
          with False rd "1.prems"(1) Done Inl have "r = Done None" "w' = set_errno_error ''read'' w1"
            by (simp_all add: unf)
          with keep show ?thesis by simp
        qed
      next
        case (Inr bs)
        show ?thesis
        proof (cases "bs = []")
          case True
          with False rd "1.prems"(1) Done Inr
          have "r = Done None" "w' = usb_responder_set_last_error (Some ''unexpected EOF'') w1"
            by (simp_all add: unf)
          with keep show ?thesis by simp
        next
          case ne: False
          with False rd "1.prems"(1) Done Inr have rec: "usb_responder_read_full sz (got @ bs) w1 = (r, w')"
            by (simp add: unf)
          have "length (got @ bs) \<le> sz" using keep Done Inr "1.prems"(2) by auto
          from "1.IH"(2) [OF False rd [symmetric] Done Inr ne rec this] keep show ?thesis by simp
        qed
      qed
    qed
  qed
qed

lemma c_malloc_then_free:
  "c_malloc w = (True, w1) \<Longrightarrow> live w2 = live w1 \<Longrightarrow> live (c_free True w2) = live w"
  by (rule c_malloc_cases [of w]) (auto simp: c_free_def dest: mem_only_live)

lemma read_frame_safe_aux:
  assumes rf: "usb_responder_protocol_read_frame mx w = (Done r, w')" and mx: "mx + 24 < 2 ^ 32"
  shows "case r of Inl e \<Rightarrow> e \<noteq> OutOfBounds \<and> live w' = live w
     | Inr fr \<Rightarrow> frame_wf fr \<and> unat (payload_len (header fr)) \<le> mx \<and>
         live w' = live w + (if payload fr = None then 0 else 1)"
proof -
  obtain h w1 where h: "usb_responder_read_full 24 [] w = (h, w1)" by (metis surj_pair)
  note h_safe = read_full_safe [OF h, simplified]
  show ?thesis
  proof (cases "\<exists>hdr. h = Done (Some hdr)")
    case False
    then have "r = Inl Reject" "w' = w1"
      using rf h by (auto simp: usb_responder_protocol_read_frame_def split: io.splits option.splits)
    then show ?thesis using h_safe by simp
  next
    case True
    then obtain hdr where hdr: "h = Done (Some hdr)" "length hdr = 24" using h_safe by blast
    obtain len where len: "read_le32 hdr 16 = Inr len" using read_le32_in [of 16 hdr] hdr(2) by auto
    show ?thesis
    proof (cases "mx < unat len")
      case True
      then have "r = Inl Reject" "w' = w1"
        using rf by (simp_all add: usb_responder_protocol_read_frame_def h hdr len)
      then show ?thesis using h_safe by simp
    next
      case fits: False
      then have N: "unat (24 + len) = 24 + unat len" using mx by (intro u32_header_add) simp
      have final: ?thesis
        if dec: "usb_responder_protocol_decode_frame whole w3 = (r, w4)" "w' = c_free True w4"
          and w3: "live w3 = live w + 1" and whole: "length whole = 24 + unat len"
        for whole w3 w4
      proof (rule decode_frame_cases [of whole w3])
        fix e w'' assume "usb_responder_protocol_decode_frame whole w3 = (Inl e, w'')"
          "e \<noteq> OutOfBounds" "mem_only w3 w'' 0"
        then show ?thesis using dec w3 by (auto simp: c_free_def dest: mem_only_live)
      next
        fix fr w'' assume acc: "usb_responder_protocol_decode_frame whole w3 = (Inr fr, w'')"
          "frame_wf fr" "frame_bytes fr = whole" "mem_only w3 w'' (if payload fr = None then 0 else 1)"
        then have "unat (payload_len (header fr)) = unat len"
          using whole length_frame_bytes [of fr] by (simp add: frame_wf_def frame_sized_def)
        then show ?thesis using dec w3 acc fits by (auto simp: c_free_def dest: mem_only_live)
      qed
      show ?thesis
      proof (cases rule: c_malloc_cases [of w1])
        case (fail w2)
        then have "r = Inl NoMem" "w' = w2"
          using rf fits by (simp_all add: usb_responder_protocol_read_frame_def h hdr len)
        then show ?thesis using h_safe mem_only_live [OF fail(2)] by simp
      next
        case (ok w2)
        then have w2: "live w2 = live w + 1" using h_safe mem_only_live by fastforce
        let ?raw = "hdr @ replicate (unat len) 0"
        have st: "store (replicate (unat (24 + len)) 0) 0 hdr = Inr ?raw"
          using hdr(2) by (simp add: N)
        show ?thesis
        proof (cases "0 < len")
          case False
          obtain r2 w4 where d: "usb_responder_protocol_decode_frame ?raw w2 = (r2, w4)" by (metis surj_pair)
          with False have "r = r2" "w' = c_free True w4"
            using rf fits ok(1) st
            by (simp_all add: usb_responder_protocol_read_frame_def h hdr len word_gt_0)
          with d show ?thesis by (intro final [of ?raw w2 w4]) (simp_all add: w2 hdr(2))
        next
          case True
          obtain b w3 where b: "usb_responder_read_full (unat len) [] w2 = (b, w3)" by (metis surj_pair)
          note b_safe = read_full_safe [OF b, simplified]
          show ?thesis
          proof (cases "\<exists>body. b = Done (Some body)")
            case False
            then have "r = Inl Reject" "w' = c_free True w3"
              using rf fits ok(1) st True b
              by (auto simp: usb_responder_protocol_read_frame_def h hdr len split: io.splits option.splits)
            then show ?thesis using b_safe w2 by (simp add: c_free_def)
          next
            case body: True
            then obtain body where body: "b = Done (Some body)" "length body = unat len" using b_safe by blast
            obtain r2 w4 where d: "usb_responder_protocol_decode_frame (hdr @ body) w3 = (r2, w4)" by (metis surj_pair)
            have "store ?raw 24 body = Inr (hdr @ body)" using hdr(2) body(2) by simp
            with d have "r = r2" "w' = c_free True w4"
              using rf fits ok(1) st True b body
              by (simp_all add: usb_responder_protocol_read_frame_def h hdr len)
            with d show ?thesis
              using b_safe w2 body(2) hdr(2) by (intro final [of "hdr @ body" w3 w4]) simp_all
          qed
        qed
      qed
    qed
  qed
qed

section \<open>Properties\<close>



text \<open>
  Receiving a frame. When the descriptor delivers the bytes of a frame in pieces of any
  size, with interrupted calls anywhere between them, and the payload is within the limit, the
  reader returns that frame, and afterwards only its payload is allocated.
\<close>

theorem read_frame_reassembles:
  assumes "frame_sized fr" and "payload fr = None \<longleftrightarrow> payload_len (header fr) = 0"
    and "unat (payload_len (header fr)) \<le> mx" and "allocs w = []"
    and "rscript w = arriving ps @ arriving qs @ rest" and "[] \<notin> snd ` set (ps @ qs)"
    and "arrived (ps @ qs) = frame_bytes fr" and "length (arrived ps) = 24"
  shows "\<exists>w'. usb_responder_protocol_read_frame mx w = (Done (Inr (sealed fr)), w') \<and>
    rscript w' = rest \<and> live w' = live w + (if payload fr = None then 0 else 1)"
proof -
  let ?len = "payload_len (header fr)"
  have arr: "arrived ps @ arrived qs = frame_bytes fr"
    using assms(7) by (simp add: arrived_def)
  have N: "unat (24 + ?len) = 24 + unat ?len"
    using assms(1) by (intro u32_header_add) (simp add: frame_sized_def)
  have qlen: "length (arrived qs) = unat ?len"
    using arg_cong [OF arr, of length] assms(1,8) by (simp add: length_frame_bytes frame_sized_def)
  have "read_le32 (frame_bytes fr) 16 = Inr ?len"
    by (simp add: frame_bytes_def codec_simps)
  then have hlen: "read_le32 (arrived ps) 16 = Inr ?len"
    using assms(8) by (simp add: read_le32_def nth_append flip: arr split: if_splits)
  from read_full_arriving [of w ps "arriving qs @ rest" 24 "[]"] obtain e where
    h: "usb_responder_read_full 24 [] w = (Done (Some (arrived ps)), w\<lparr>rscript := arriving qs @ rest, errno_val := e\<rparr>)"
      (is "_ = (_, ?w1)")
    using assms(5,6,8) by auto
  let ?w2 = "?w1\<lparr>live := live w + 1\<rparr>"
  have m: "c_malloc ?w1 = (True, ?w2)" using assms(4) by (simp add: c_malloc_succeeds)
  show ?thesis
  proof (cases "?len = 0")
    case True
    then have qs: "qs = []" using qlen assms(6) by (cases qs) (auto simp: arrived_def)
    with True h m hlen assms(8) arr N
      decode_frame_bytes [OF assms(1,2), of ?w2] assms(2,4)
    show ?thesis
      by (simp add: usb_responder_protocol_read_frame_def c_free_def)
  next
    case False
    from read_full_arriving [of ?w2 qs rest "unat ?len" "[]"] obtain e' where
      b: "usb_responder_read_full (unat ?len) [] ?w2 = (Done (Some (arrived qs)), ?w2\<lparr>rscript := rest, errno_val := e'\<rparr>)"
      using assms(6) qlen by auto
    with False h m hlen assms(3,8) arr N qlen
      decode_frame_bytes [OF assms(1,2), of "?w2\<lparr>rscript := rest, errno_val := e'\<rparr>"] assms(2,4)
    show ?thesis
      by (simp add: usb_responder_protocol_read_frame_def c_free_def word_gt_0)
  qed
qed

theorem read_frame_reassembles_witness:
  "\<exists>w'. usb_responder_protocol_read_frame 10
      (calm_world\<lparr>rscript := arriving [(2, take 20 (frame_bytes sample_frame)), (0, take 4 (drop 20 (frame_bytes sample_frame)))]
         @ arriving [(1, drop 24 (frame_bytes sample_frame))] @ []\<rparr>)
      = (Done (Inr (sealed sample_frame)), w') \<and>
    rscript w' = [] \<and> live w' = 1"
proof -
  let ?b = "frame_bytes sample_frame"
  have len: "length ?b = 27" by (simp add: length_frame_bytes frame_body_def sample_frame_def)
  have sz: "frame_sized sample_frame" by (simp add: sample_frame_def frame_sized_def frame_body_def)
  have parts: "take 20 ?b @ take 4 (drop 20 ?b) @ drop 24 ?b = ?b"
    using take_drop_append [of 20 ?b 4] by (metis append.assoc append_take_drop_id numeral_plus_numeral semiring_norm(2,6,7) Num.add_num_simps)
  have s: "payload sample_frame \<noteq> None" "unat (payload_len (header sample_frame)) = 3"
    "payload_len (header sample_frame) \<noteq> 0" by (simp_all add: sample_frame_def)
  show ?thesis
    using read_frame_reassembles [OF sz, of 10
        "calm_world\<lparr>rscript := arriving [(2, take 20 ?b), (0, take 4 (drop 20 ?b))] @ arriving [(1, drop 24 ?b)] @ []\<rparr>"
        "[(2, take 20 ?b), (0, take 4 (drop 20 ?b))]" "[(1, drop 24 ?b)]" "[]"] s len parts
    by (simp add: arrived_def min_def) (auto simp flip: length_0_conv)
qed

text \<open>
  Safety of the frame reader. With a payload limit below \<open>2 ^ 32 - 24\<close> the reader never
  leaves a buffer, whatever arrives; it returns a well-formed frame within the limit or rejects,
  and only the payload of a returned frame stays allocated.
\<close>

theorem read_frame_safe:
  assumes "mx + 24 < 2 ^ 32" and "usb_responder_protocol_read_frame mx w = (Done r, w')"
  shows "case r of Inl e \<Rightarrow> e \<noteq> OutOfBounds \<and> live w' = live w
     | Inr fr \<Rightarrow> frame_wf fr \<and> unat (payload_len (header fr)) \<le> mx \<and>
         live w' = live w + (if payload fr = None then 0 else 1)"
  using assms read_frame_safe_aux by blast

theorem read_frame_safe_witness:
  "\<exists>r w'. usb_responder_protocol_read_frame 10 (calm_world\<lparr>rscript := [RData []]\<rparr>) = (Done r, w') \<and>
     (case r of Inl e \<Rightarrow> e \<noteq> OutOfBounds \<and> live w' = live calm_world
     | Inr fr \<Rightarrow> frame_wf fr \<and> unat (payload_len (header fr)) \<le> 10 \<and>
         live w' = live calm_world + (if payload fr = None then 0 else 1))"
proof -
  let ?w = "calm_world\<lparr>rscript := [RData []]\<rparr>"
  have "\<exists>w'. usb_responder_protocol_read_frame 10 ?w = (Done (Inl Reject), w')"
    by (simp add: usb_responder_protocol_read_frame_def usb_responder_read_full.simps [of 24 "[]"] sys_read_def)
  then obtain w' where rf: "usb_responder_protocol_read_frame 10 ?w = (Done (Inl Reject), w')" ..
  with read_frame_safe [of 10 ?w "Inl Reject" w'] show ?thesis by auto
qed

end
