(* ===== verification/Posix.thy ===== *)
theory Posix
  imports Io_Utils
begin

text \<open>
  The file system and the standard streams as the sources use them: a tree of named inodes,
  the calls that change it with the error codes they return, and buffered output streams.
  Every call first consumes an entry of a fault script, so that a theorem about all worlds
  covers a failure of every call with every error code. Symbolic links are leaves that no
  call follows; ownership and permission bits are recorded and not enforced.
\<close>

section \<open>Path names\<close>

type_synonym fpath = "string list"

fun split_slash :: "string \<Rightarrow> string list" where
  "split_slash [] = [[]]"
| "split_slash (c # s) =
     (if c = CHR ''/'' then [] # split_slash s
      else case split_slash s of [] \<Rightarrow> [[c]] | p # ps \<Rightarrow> (c # p) # ps)"

text \<open>The names a path walks through: empty parts and \<open>.\<close> stay where they are.\<close>

definition comps :: "string \<Rightarrow> fpath" where
  "comps s = filter (\<lambda>p. p \<noteq> [] \<and> p \<noteq> ''.'') (split_slash s)"

definition render :: "fpath \<Rightarrow> string" where
  "render cs = (if cs = [] then ''/'' else concat (map (\<lambda>c. CHR ''/'' # c) cs))"

definition plain_name :: "string \<Rightarrow> bool" where
  "plain_name c \<longleftrightarrow> c \<noteq> [] \<and> c \<noteq> ''.'' \<and> c \<noteq> ''..'' \<and> CHR ''/'' \<notin> set c \<and> nul_free c"

lemma split_slash_ne [simp]: "split_slash s \<noteq> []"
  by (induction s) (auto split: list.split)

lemma split_slash_plain: "CHR ''/'' \<notin> set c \<Longrightarrow> split_slash c = [c]"
  by (induction c) auto

lemma split_slash_append:
  "CHR ''/'' \<notin> set c \<Longrightarrow> split_slash (c @ CHR ''/'' # s) = c # split_slash s"
  by (induction c) auto

lemma comps_slash: "comps (CHR ''/'' # s) = comps s"
  by (simp add: comps_def)

lemma comps_Nil [simp]: "comps [] = []"
  by (simp add: comps_def)

lemma comps_plain: "plain_name c \<Longrightarrow> comps c = [c]"
  by (simp add: comps_def plain_name_def split_slash_plain)

lemma comps_name_slash:
  "CHR ''/'' \<notin> set c \<Longrightarrow> comps (c @ CHR ''/'' # s) = (if c = [] \<or> c = ''.'' then [] else [c]) @ comps s"
  by (simp add: comps_def split_slash_append)

lemma split_slash_append_slash:
  "split_slash (s @ CHR ''/'' # t) = split_slash s @ split_slash t"
proof (induction s)
  case Nil
  then show ?case by simp
next
  case (Cons c s)
  then show ?case by (cases "split_slash s") auto
qed

lemma comps_append_slash: "comps (s @ CHR ''/'' # t) = comps s @ comps t"
  by (simp add: comps_def split_slash_append_slash)

lemma comps_concat_names:
  "list_all plain_name cs \<Longrightarrow> comps (concat (map (\<lambda>c. CHR ''/'' # c) cs)) = cs"
proof (induction cs rule: rev_induct)
  case Nil
  then show ?case by simp
next
  case (snoc c cs)
  then show ?case by (simp add: comps_append_slash comps_plain)
qed

lemma comps_render: "list_all plain_name cs \<Longrightarrow> comps (render cs) = cs"
  by (auto simp: render_def comps_concat_names comps_slash)

lemma render_snoc: "cs \<noteq> [] \<Longrightarrow> render (cs @ [c]) = render cs @ CHR ''/'' # c"
  by (simp add: render_def)

lemma render_inj: "list_all plain_name cs \<Longrightarrow> list_all plain_name ds \<Longrightarrow> render cs = render ds \<Longrightarrow> cs = ds"
  by (metis comps_render)

section \<open>The tree\<close>

datatype fkind = Reg | Dir | Link | Other

record inode =
  i_kind :: fkind
  i_data :: "byte list"
  i_mode :: u32
  i_uid :: u32
  i_gid :: u32

record vfs =
  dents :: "(fpath \<times> nat) list"
  inodes :: "nat \<Rightarrow> inode"
  next_ino :: nat
  self_uid :: u32
  self_gid :: u32

definition fs_ino :: "vfs \<Rightarrow> fpath \<Rightarrow> nat option" where
  "fs_ino v p = map_of (dents v) p"

definition fs_get :: "vfs \<Rightarrow> fpath \<Rightarrow> inode option" where
  "fs_get v p = map_option (inodes v) (fs_ino v p)"

definition is_dir :: "vfs \<Rightarrow> fpath \<Rightarrow> bool" where
  "is_dir v p = (case fs_get v p of None \<Rightarrow> False | Some i \<Rightarrow> i_kind i = Dir)"

text \<open>The walk to a path: every proper prefix has to be a directory.\<close>

definition walk_err :: "vfs \<Rightarrow> fpath \<Rightarrow> errno option" where
  "walk_err v p =
     (case find (\<lambda>q. \<not> is_dir v q) (map (\<lambda>k. take k p) [0..<length p]) of
        None \<Rightarrow> None
      | Some q \<Rightarrow> Some (if fs_get v q = None then ENOENT else ENOTDIR))"

definition fs_lookup :: "vfs \<Rightarrow> fpath \<Rightarrow> errno + nat" where
  "fs_lookup v p =
     (case walk_err v p of
        Some e \<Rightarrow> Inl e
      | None \<Rightarrow> (case fs_ino v p of None \<Rightarrow> Inl ENOENT | Some i \<Rightarrow> Inr i))"

definition fs_new :: "fpath \<Rightarrow> fkind \<Rightarrow> u32 \<Rightarrow> vfs \<Rightarrow> vfs" where
  "fs_new p k m v =
     v\<lparr>dents := dents v @ [(p, next_ino v)],
       inodes := (inodes v)(next_ino v := \<lparr>i_kind = k, i_data = [], i_mode = m, i_uid = self_uid v, i_gid = self_gid v\<rparr>),
       next_ino := next_ino v + 1\<rparr>"

definition fs_drop :: "fpath \<Rightarrow> vfs \<Rightarrow> vfs" where
  "fs_drop p v = v\<lparr>dents := filter (\<lambda>d. fst d \<noteq> p) (dents v)\<rparr>"

definition fs_children :: "vfs \<Rightarrow> fpath \<Rightarrow> string list" where
  "fs_children v p = map (\<lambda>d. last (fst d)) (filter (\<lambda>d. fst d \<noteq> [] \<and> butlast (fst d) = p) (dents v))"

definition fs_mkdir :: "fpath \<Rightarrow> u32 \<Rightarrow> vfs \<Rightarrow> errno + vfs" where
  "fs_mkdir p m v =
     (case walk_err v p of
        Some e \<Rightarrow> Inl e
      | None \<Rightarrow> if fs_ino v p \<noteq> None then Inl EEXIST else Inr (fs_new p Dir m v))"

definition fs_creat :: "fpath \<Rightarrow> u32 \<Rightarrow> vfs \<Rightarrow> errno + nat \<times> vfs" where
  "fs_creat p m v =
     (case walk_err v p of
        Some e \<Rightarrow> Inl e
      | None \<Rightarrow>
          (case fs_ino v p of
             None \<Rightarrow> Inr (next_ino v, fs_new p Reg m v)
           | Some i \<Rightarrow>
               if i_kind (inodes v i) = Dir then Inl EISDIR
               else if i_kind (inodes v i) = Link then Inl (EOTHER 40)
               else Inr (i, v\<lparr>inodes := (inodes v)(i := (inodes v i)\<lparr>i_data := []\<rparr>)\<rparr>)))"

definition fs_unlink :: "fpath \<Rightarrow> vfs \<Rightarrow> errno + vfs" where
  "fs_unlink p v =
     (case fs_lookup v p of
        Inl e \<Rightarrow> Inl e
      | Inr i \<Rightarrow> if i_kind (inodes v i) = Dir then Inl EISDIR else Inr (fs_drop p v))"

definition fs_rmdir :: "fpath \<Rightarrow> vfs \<Rightarrow> errno + vfs" where
  "fs_rmdir p v =
     (case fs_lookup v p of
        Inl e \<Rightarrow> Inl e
      | Inr i \<Rightarrow>
          if i_kind (inodes v i) \<noteq> Dir then Inl ENOTDIR
          else if p = [] then Inl EBUSY
          else if fs_children v p \<noteq> [] then Inl ENOTEMPTY
          else Inr (fs_drop p v))"

definition fs_chmod :: "fpath \<Rightarrow> u32 \<Rightarrow> vfs \<Rightarrow> errno + vfs" where
  "fs_chmod p m v =
     (case fs_lookup v p of
        Inl e \<Rightarrow> Inl e
      | Inr i \<Rightarrow> Inr (v\<lparr>inodes := (inodes v)(i := (inodes v i)\<lparr>i_mode := m\<rparr>)\<rparr>))"

definition under :: "fpath \<Rightarrow> fpath \<Rightarrow> bool" where
  "under p q \<longleftrightarrow> take (length p) q = p"

definition fs_move :: "fpath \<Rightarrow> fpath \<Rightarrow> vfs \<Rightarrow> vfs" where
  "fs_move a b v =
     v\<lparr>dents := map (\<lambda>(q, i). if under a q then (b @ drop (length a) q, i) else (q, i))
                  (filter (\<lambda>d. fst d \<noteq> b) (dents v))\<rparr>"

definition fs_rename :: "fpath \<Rightarrow> fpath \<Rightarrow> vfs \<Rightarrow> errno + vfs" where
  "fs_rename a b v =
     (case (fs_lookup v a, walk_err v b) of
        (Inl e, _) \<Rightarrow> Inl e
      | (Inr _, Some e) \<Rightarrow> Inl e
      | (Inr i, None) \<Rightarrow>
          if a = [] \<or> b = [] then Inl EBUSY
          else if a = b then Inr v
          else if under a b then Inl EINVAL
          else case fs_ino v b of
            None \<Rightarrow> Inr (fs_move a b v)
          | Some j \<Rightarrow>
              if i_kind (inodes v i) = Dir \<and> i_kind (inodes v j) \<noteq> Dir then Inl ENOTDIR
              else if i_kind (inodes v i) \<noteq> Dir \<and> i_kind (inodes v j) = Dir then Inl EISDIR
              else if i_kind (inodes v j) = Dir \<and> fs_children v b \<noteq> [] then Inl ENOTEMPTY
              else Inr (fs_move a b v))"

section \<open>The world with a file system\<close>

record stream =
  s_ino :: nat
  s_off :: nat
  s_pending :: "byte list"

record fs_world = io_world +
  vfs :: vfs
  streams :: "nat \<Rightarrow> stream option"
  next_stream :: nat
  faults :: "(errno \<times> nat) option list"
  umask :: u32
  dir_end :: nat
  mountinfo :: "string option"
  statvfs_of :: "string \<Rightarrow> (u64 \<times> u64 \<times> u64) option"
  pw_name :: "u32 \<Rightarrow> string option"
  gr_name :: "u32 \<Rightarrow> string option"

definition next_fault :: "'a fs_world_scheme \<Rightarrow> (errno \<times> nat) option \<times> 'a fs_world_scheme" where
  "next_fault w = (case faults w of [] \<Rightarrow> (None, w) | f # r \<Rightarrow> (f, w\<lparr>faults := r\<rparr>))"

text \<open>A call that either meets a scheduled fault or does its work on the tree.\<close>

definition tree_call :: "(vfs \<Rightarrow> errno + vfs) \<Rightarrow> 'a fs_world_scheme \<Rightarrow> bool \<times> 'a fs_world_scheme" where
  "tree_call f w =
     (case next_fault w of
        (Some (e, _), w1) \<Rightarrow> (False, w1\<lparr>errno_val := e\<rparr>)
      | (None, w1) \<Rightarrow>
          (case f (vfs w1) of
             Inl e \<Rightarrow> (False, w1\<lparr>errno_val := e\<rparr>)
           | Inr v \<Rightarrow> (True, w1\<lparr>vfs := v\<rparr>)))"

definition c_mkdir :: "string \<Rightarrow> u32 \<Rightarrow> 'a fs_world_scheme \<Rightarrow> bool \<times> 'a fs_world_scheme" where
  "c_mkdir p m w = tree_call (fs_mkdir (comps p) (m AND NOT (umask w))) w"

definition c_unlink :: "string \<Rightarrow> 'a fs_world_scheme \<Rightarrow> bool \<times> 'a fs_world_scheme" where
  "c_unlink p w = tree_call (fs_unlink (comps p)) w"

definition c_rmdir :: "string \<Rightarrow> 'a fs_world_scheme \<Rightarrow> bool \<times> 'a fs_world_scheme" where
  "c_rmdir p w = tree_call (fs_rmdir (comps p)) w"

definition c_rename :: "string \<Rightarrow> string \<Rightarrow> 'a fs_world_scheme \<Rightarrow> bool \<times> 'a fs_world_scheme" where
  "c_rename a b w = tree_call (fs_rename (comps a) (comps b)) w"

definition c_chmod :: "string \<Rightarrow> u32 \<Rightarrow> 'a fs_world_scheme \<Rightarrow> bool \<times> 'a fs_world_scheme" where
  "c_chmod p m w = tree_call (fs_chmod (comps p) m) w"

definition c_lstat :: "string \<Rightarrow> 'a fs_world_scheme \<Rightarrow> inode option \<times> 'a fs_world_scheme" where
  "c_lstat p w =
     (case next_fault w of
        (Some (e, _), w1) \<Rightarrow> (None, w1\<lparr>errno_val := e\<rparr>)
      | (None, w1) \<Rightarrow>
          (case fs_lookup (vfs w1) (comps p) of
             Inl e \<Rightarrow> (None, w1\<lparr>errno_val := e\<rparr>)
           | Inr i \<Rightarrow> (Some (inodes (vfs w1) i), w1)))"

text \<open>\<open>stat\<close> would follow a link; the target of a link is not part of the tree.\<close>

definition c_stat :: "string \<Rightarrow> 'a fs_world_scheme \<Rightarrow> inode option \<times> 'a fs_world_scheme" where
  "c_stat p w =
     (case c_lstat p w of
        (None, w1) \<Rightarrow> (None, w1)
      | (Some i, w1) \<Rightarrow> if i_kind i = Link then (None, w1\<lparr>errno_val := ENOENT\<rparr>) else (Some i, w1))"

text \<open>
  A directory stream is the list of names it still has to deliver, taken when it is opened.
  A fault in \<open>readdir\<close> returns a null pointer, as the end of the directory does.
\<close>

definition c_opendir :: "string \<Rightarrow> 'a fs_world_scheme \<Rightarrow> string list option \<times> 'a fs_world_scheme" where
  "c_opendir p w =
     (case next_fault w of
        (Some (e, _), w1) \<Rightarrow> (None, w1\<lparr>errno_val := e\<rparr>)
      | (None, w1) \<Rightarrow>
          (case fs_lookup (vfs w1) (comps p) of
             Inl e \<Rightarrow> (None, w1\<lparr>errno_val := e\<rparr>)
           | Inr i \<Rightarrow>
               if i_kind (inodes (vfs w1) i) = Dir
               then (Some (''.'' # ''..'' # fs_children (vfs w1) (comps p)), w1)
               else (None, w1\<lparr>errno_val := ENOTDIR\<rparr>)))"

text \<open>Calls that leave the tree alone: \<open>readdir\<close>, \<open>fseek\<close>, \<open>ftell\<close>, \<open>fsync\<close>.\<close>

definition plain_call :: "'a fs_world_scheme \<Rightarrow> bool \<times> 'a fs_world_scheme" where
  "plain_call w =
     (case next_fault w of
        (Some (e, _), w1) \<Rightarrow> (False, w1\<lparr>errno_val := e\<rparr>)
      | (None, w1) \<Rightarrow> (True, w1))"

section \<open>Output streams\<close>

definition write_at :: "byte list \<Rightarrow> nat \<Rightarrow> byte list \<Rightarrow> byte list" where
  "write_at d off bs = take off d @ replicate (off - length d) 0 @ bs @ drop (off + length bs) d"

definition c_fopen_wb :: "string \<Rightarrow> 'a fs_world_scheme \<Rightarrow> nat option \<times> 'a fs_world_scheme" where
  "c_fopen_wb p w =
     (case next_fault w of
        (Some (e, _), w1) \<Rightarrow> (None, w1\<lparr>errno_val := e\<rparr>)
      | (None, w1) \<Rightarrow>
          (case fs_creat (comps p) (0x1B6 AND NOT (umask w1)) (vfs w1) of
             Inl e \<Rightarrow> (None, w1\<lparr>errno_val := e\<rparr>)
           | Inr (i, v) \<Rightarrow>
               (Some (next_stream w1),
                w1\<lparr>vfs := v,
                   streams := (streams w1)(next_stream w1 \<mapsto> \<lparr>s_ino = i, s_off = 0, s_pending = []\<rparr>),
                   next_stream := next_stream w1 + 1\<rparr>)))"

text \<open>\<open>fwrite\<close> takes the data into the buffer; a fault lets it take only some of it.\<close>

definition c_fwrite :: "byte list \<Rightarrow> nat \<Rightarrow> 'a fs_world_scheme \<Rightarrow> nat \<times> 'a fs_world_scheme" where
  "c_fwrite d f w =
     (case streams w f of
        None \<Rightarrow> (0, w)
      | Some s \<Rightarrow>
          let (flt, w1) = next_fault w;
              n = (case flt of None \<Rightarrow> length d | Some (_, k) \<Rightarrow> min k (length d));
              w2 = (case flt of None \<Rightarrow> w1 | Some (e, _) \<Rightarrow> w1\<lparr>errno_val := e\<rparr>)
          in (n, w2\<lparr>streams := (streams w2)(f \<mapsto> s\<lparr>s_pending := s_pending s @ take n d\<rparr>)\<rparr>))"

text \<open>Writing out the buffer; a fault writes only some of it, and the rest is lost.\<close>

definition c_fflush :: "nat \<Rightarrow> 'a fs_world_scheme \<Rightarrow> bool \<times> 'a fs_world_scheme" where
  "c_fflush f w =
     (case streams w f of
        None \<Rightarrow> (False, w)
      | Some s \<Rightarrow>
          let (flt, w1) = next_fault w;
              out = (case flt of None \<Rightarrow> s_pending s | Some (_, k) \<Rightarrow> take k (s_pending s));
              w2 = (case flt of None \<Rightarrow> w1 | Some (e, _) \<Rightarrow> w1\<lparr>errno_val := e\<rparr>);
              nd = (inodes (vfs w2))(s_ino s := (inodes (vfs w2) (s_ino s))
                     \<lparr>i_data := write_at (i_data (inodes (vfs w2) (s_ino s))) (s_off s) out\<rparr>)
          in (flt = None,
              w2\<lparr>vfs := (vfs w2)\<lparr>inodes := nd\<rparr>,
                 streams := (streams w2)(f \<mapsto> s\<lparr>s_off := s_off s + length out, s_pending := []\<rparr>)\<rparr>))"

definition c_fclose :: "nat \<Rightarrow> 'a fs_world_scheme \<Rightarrow> bool \<times> 'a fs_world_scheme" where
  "c_fclose f w =
     (let (ok, w1) = c_fflush f w in (ok, w1\<lparr>streams := (streams w1)(f := None)\<rparr>))"

section \<open>Reading files\<close>

text \<open>
  A file opened for reading is its inode. The end position of a directory is up to the file
  system (\<open>dir_end\<close>), and reading from one fails.
\<close>

definition c_fopen_rb :: "string \<Rightarrow> 'a fs_world_scheme \<Rightarrow> inode option \<times> 'a fs_world_scheme" where
  "c_fopen_rb p w = c_stat p w"

definition file_end :: "inode \<Rightarrow> 'a fs_world_scheme \<Rightarrow> nat" where
  "file_end i w = (if i_kind i = Dir then dir_end w else length (i_data i))"

definition c_fread_all :: "inode \<Rightarrow> nat \<Rightarrow> 'a fs_world_scheme \<Rightarrow> byte list \<times> 'a fs_world_scheme" where
  "c_fread_all i n w =
     (let d = (if i_kind i = Dir then [] else take n (i_data i))
      in case next_fault w of
           (Some (e, k), w1) \<Rightarrow> (take k d, w1\<lparr>errno_val := e\<rparr>)
         | (None, w1) \<Rightarrow> (d, if i_kind i = Dir then w1\<lparr>errno_val := EISDIR\<rparr> else w1))"

end
