(* ===== verification/Paths.thy ===== *)
theory Paths
  imports Posix
begin

text \<open>
  Path names and storages (\<open>src/file_ops.c\<close>): \<open>build_path\<close>, which turns the path of a
  request into an absolute path and the storage it lies on, the storage names, the check
  of a desired storage, and the parser of permission strings.
\<close>

section \<open>The code\<close>

abbreviation (input) USB_RESPONDER_PATH_MAX_LEN :: nat where "USB_RESPONDER_PATH_MAX_LEN \<equiv> 4096"

datatype storage = STORAGE_NAND | STORAGE_SD

definition usb_responder_storage_name :: "storage \<Rightarrow> string" where
  "usb_responder_storage_name st = (case st of STORAGE_NAND \<Rightarrow> ''nand'' | STORAGE_SD \<Rightarrow> ''sd'')"

definition usb_responder_storage_from_name :: "string option \<Rightarrow> storage option" where
  "usb_responder_storage_from_name name =
     (case name of
        None \<Rightarrow> None
      | Some n \<Rightarrow>
          if strcmp_eq n ''nand'' then Some STORAGE_NAND
          else if strcmp_eq n ''sd'' then Some STORAGE_SD
          else None)"

definition path_is_storage_root :: "string \<Rightarrow> bool" where
  "path_is_storage_root abs_path \<longleftrightarrow> strcmp_eq abs_path ''/'' \<or> strcmp_eq abs_path ''/sd''"

definition path_component_is_dotdot :: "string \<Rightarrow> bool" where
  "path_component_is_dotdot seg \<longleftrightarrow> length seg = 2 \<and> seg ! 0 = CHR ''.'' \<and> seg ! 1 = CHR ''.''"

definition path_component_is_dot :: "string \<Rightarrow> bool" where
  "path_component_is_dot seg \<longleftrightarrow> length seg = 1 \<and> seg ! 0 = CHR ''.''"

text \<open>
  The loop of \<open>build_path\<close>. \<open>out\<close> is the path built so far, \<open>used\<close> its length; a failure
  returns what the buffer then holds.
\<close>

function build_path_loop ::
  "nat \<Rightarrow> string \<Rightarrow> string \<Rightarrow> bool \<Rightarrow> storage \<Rightarrow> 'a io_world_scheme \<Rightarrow>
   (string + string \<times> storage) \<times> 'a io_world_scheme" where
  "build_path_loop out_size r out saw st w =
     (let r1 = dropWhile (\<lambda>c. c = CHR ''/'') r
      in if r1 = [] then (Inr (out, st), w)
         else
           let seg = takeWhile (\<lambda>c. c \<noteq> CHR ''/'') r1;
               nxt = drop (length seg + 1) r1
           in if path_component_is_dotdot seg then
                (Inl out, usb_responder_set_last_error (Some ''path traversal not allowed'') w)
              else if path_component_is_dot seg then build_path_loop out_size nxt out saw st w
              else
                let st1 = (if \<not> saw \<and> length seg = 2 \<and> seg ! 0 = CHR ''s'' \<and> seg ! 1 = CHR ''d''
                           then STORAGE_SD else st);
                    used = length out
                in if out_size \<le> used + (if 1 < used then 1 else 0) + length seg then
                     (Inl out, usb_responder_set_last_error (Some ''path too long'') w)
                   else
                     let out1 = (if 1 < used then out @ ''/'' else out)
                     in build_path_loop out_size nxt (out1 @ seg) True st1 w)"
  by pat_completeness auto
termination
proof (relation "measure (\<lambda>(n, r, _). length r)", goal_cases)
  case 1
  show ?case by simp
next
  case (2 n r out saw st w x xa xb)
  have "length x \<le> length r" "x \<noteq> []" using 2(1,2) by (simp_all add: length_dropWhile_le)
  with 2(4) show ?case by (simp add: less_le_trans [OF diff_less])
next
  case (3 n r out saw st w x xa xb xc xd xe)
  have "length x \<le> length r" "x \<noteq> []" using 3(1,2) by (simp_all add: length_dropWhile_le)
  with 3(4) show ?case by (simp add: less_le_trans [OF diff_less])
qed

declare build_path_loop.simps [simp del]

definition build_path ::
  "string option \<Rightarrow> nat \<Rightarrow> 'a io_world_scheme \<Rightarrow> (string + string \<times> storage) \<times> 'a io_world_scheme" where
  "build_path relative out_size w =
     (case relative of
        None \<Rightarrow> (Inl [], w)
      | Some r \<Rightarrow>
          if out_size < 2 then (Inl [], w)
          else build_path_loop out_size (c_str r) ''/'' False STORAGE_NAND w)"

definition path_storage_matches_desire ::
  "storage \<Rightarrow> string option \<Rightarrow> 'a io_world_scheme \<Rightarrow> bool \<times> 'a io_world_scheme" where
  "path_storage_matches_desire actual desire w =
     (case desire of
        None \<Rightarrow> (True, w)
      | Some d \<Rightarrow>
          if c_str d = [] then (True, w)
          else case usb_responder_storage_from_name (Some d) of
            None \<Rightarrow> (False, usb_responder_set_last_error (Some ''invalid desire_storage'') w)
          | Some desired \<Rightarrow>
              if desired \<noteq> actual then
                (False, usb_responder_set_last_error
                   (Some (snprintf_buf 128 (''desire_storage='' @ usb_responder_storage_name desired @
                      '' but path is on '' @ usb_responder_storage_name actual))) w)
              else (True, w))"

definition parse_perm_octal :: "string option \<Rightarrow> 'a io_world_scheme \<Rightarrow> u32 option \<times> 'a io_world_scheme" where
  "parse_perm_octal perm w =
     (case perm of
        None \<Rightarrow> (None, w)
      | Some p \<Rightarrow>
          if c_str p = [] then (None, w)
          else
            let (val, rest) = c_strtoul (long_bits w) 8 (c_str p)
            in if rest = c_str p \<or> rest \<noteq> [] \<or> 4095 < val
               then (None, usb_responder_set_last_error (Some ''invalid perm'') w)
               else (Some (of_nat val), w))"

section \<open>What \<open>build_path\<close> computes\<close>

text \<open>The storage a list of names lies on.\<close>

definition storage_of :: "fpath \<Rightarrow> storage" where
  "storage_of cs = (if cs \<noteq> [] \<and> hd cs = ''sd'' then STORAGE_SD else STORAGE_NAND)"

lemma is_dotdot: "path_component_is_dotdot seg \<longleftrightarrow> seg = ''..''"
  by (auto simp: path_component_is_dotdot_def length_Suc_conv numeral_2_eq_2)

lemma is_dot: "path_component_is_dot seg \<longleftrightarrow> seg = ''.''"
  by (auto simp: path_component_is_dot_def length_Suc_conv)

lemma is_sd: "length seg = 2 \<and> seg ! 0 = CHR ''s'' \<and> seg ! 1 = CHR ''d'' \<longleftrightarrow> seg = ''sd''"
  by (auto simp: length_Suc_conv numeral_2_eq_2)

lemma comps_dropWhile: "comps (dropWhile (\<lambda>c. c = CHR ''/'') r) = comps r"
  by (induction r) (auto simp: comps_slash)

lemma comps_segment:
  assumes "r \<noteq> []" and "hd r \<noteq> CHR ''/''"
  defines "seg \<equiv> takeWhile (\<lambda>c. c \<noteq> CHR ''/'') r"
  shows "comps r = (if seg = ''.'' then [] else [seg]) @ comps (drop (length seg + 1) r)"
    and "seg \<noteq> []" and "CHR ''/'' \<notin> set seg"
proof -
  show ne: "seg \<noteq> []" using assms by (cases r) auto
  show ns: "CHR ''/'' \<notin> set seg" by (auto simp: seg_def dest: set_takeWhileD)
  show "comps r = (if seg = ''.'' then [] else [seg]) @ comps (drop (length seg + 1) r)"
  proof (cases "dropWhile (\<lambda>c. c \<noteq> CHR ''/'') r")
    case Nil
    then have "seg = r" by (simp add: seg_def takeWhile_eq_all_conv)
    with split_slash_plain [OF ns] ne show ?thesis by (simp add: comps_def)
  next
    case (Cons c t)
    then have "c = CHR ''/''" using hd_dropWhile [of "\<lambda>c. c \<noteq> CHR ''/''" r] by simp
    with Cons have r: "r = seg @ CHR ''/'' # t"
      using takeWhile_dropWhile_id [of "\<lambda>c. c \<noteq> CHR ''/''" r] by (simp add: seg_def)
    have "drop (length seg + 1) r = drop (length seg + 1) (seg @ CHR ''/'' # t)"
      using r by (rule arg_cong)
    then have "drop (length seg + 1) r = t" by simp
    with comps_name_slash [OF ns, of t] ne show ?thesis by (subst r) simp
  qed
qed


text \<open>Only the error text changed.\<close>

definition err_only :: "'a io_world_scheme \<Rightarrow> 'a io_world_scheme \<Rightarrow> bool" where
  "err_only w w' \<longleftrightarrow> w' = w\<lparr>last_error := last_error w'\<rparr>"

lemma err_only_refl [simp, intro]: "err_only w w"
  by (simp add: err_only_def)

lemma err_only_set [simp, intro]: "err_only w (usb_responder_set_last_error m w)"
  by (simp add: err_only_def usb_responder_set_last_error_def split: option.split)

lemma length_render: "cs \<noteq> [] \<Longrightarrow> list_all plain_name cs \<Longrightarrow> 1 < length (render cs)"
  by (cases cs) (auto simp: render_def plain_name_def neq_Nil_conv)

lemma length_render_mono: "length (render cs) \<le> length (render (cs @ ds))"
  by (auto simp: render_def neq_Nil_conv)

lemma storage_of_append: "cs \<noteq> [] \<Longrightarrow> storage_of (cs @ ds) = storage_of cs"
  by (simp add: storage_of_def)

lemma nul_free_dropWhile: "nul_free s \<Longrightarrow> nul_free (dropWhile P s)"
  by (auto simp: nul_free_def dest: set_dropWhileD)

lemma nul_free_drop: "nul_free s \<Longrightarrow> nul_free (drop n s)"
  by (auto simp: nul_free_def dest: in_set_dropD)

lemma nul_free_takeWhile: "nul_free s \<Longrightarrow> nul_free (takeWhile P s)"
  by (auto simp: nul_free_def dest: set_takeWhileD)

text \<open>One pass of the loop on a path whose next name is neither \<open>.\<close> nor \<open>..\<close>.\<close>

lemma build_step:
  assumes "list_all plain_name cs" and "plain_name seg"
  shows "(if 1 < length (render cs) then render cs @ ''/'' else render cs) @ seg = render (cs @ [seg])"
    and "length (render cs) + (if 1 < length (render cs) then 1 else 0) + length seg = length (render (cs @ [seg]))"
    and "(if \<not> (cs \<noteq> []) \<and> seg = ''sd'' then STORAGE_SD else storage_of cs) = storage_of (cs @ [seg])"
proof -
  show eq: "(if 1 < length (render cs) then render cs @ ''/'' else render cs) @ seg = render (cs @ [seg])"
  proof (cases "cs = []")
    case True
    then show ?thesis by (simp add: render_def)
  next
    case False
    then show ?thesis using length_render [OF False assms(1)] by (simp add: render_def)
  qed
  from arg_cong [OF eq, of length]
  show "length (render cs) + (if 1 < length (render cs) then 1 else 0) + length seg = length (render (cs @ [seg]))"
    by (auto split: if_splits)
  show "(if \<not> (cs \<noteq> []) \<and> seg = ''sd'' then STORAGE_SD else storage_of cs) = storage_of (cs @ [seg])"
    by (cases cs) (auto simp: storage_of_def)
qed

lemma build_path_loop_end:
  "dropWhile (\<lambda>c. c = CHR ''/'') r = [] \<Longrightarrow> build_path_loop n r out saw st w = (Inr (out, st), w)"
  by (subst build_path_loop.simps) (simp only: Let_def if_True simp_thms)

text \<open>The head of a path behind its leading slashes, and the rest behind the next slash.\<close>

definition next_seg :: "string \<Rightarrow> string" where
  "next_seg r = takeWhile (\<lambda>c. c \<noteq> CHR ''/'') (dropWhile (\<lambda>c. c = CHR ''/'') r)"

definition next_rest :: "string \<Rightarrow> string" where
  "next_rest r = drop (length (next_seg r) + 1) (dropWhile (\<lambda>c. c = CHR ''/'') r)"

lemma build_path_loop_seg:
  assumes "dropWhile (\<lambda>c. c = CHR ''/'') r \<noteq> []"
  shows "build_path_loop n r out saw st w =
    (if next_seg r = ''..'' then (Inl out, usb_responder_set_last_error (Some ''path traversal not allowed'') w)
     else if next_seg r = ''.'' then build_path_loop n (next_rest r) out saw st w
     else if n \<le> length out + (if 1 < length out then 1 else 0) + length (next_seg r)
     then (Inl out, usb_responder_set_last_error (Some ''path too long'') w)
     else build_path_loop n (next_rest r) ((if 1 < length out then out @ ''/'' else out) @ next_seg r) True
        (if \<not> saw \<and> next_seg r = ''sd'' then STORAGE_SD else st) w)"
  by (subst build_path_loop.simps)
    (simp only: Let_def assms if_False is_dotdot is_dot is_sd next_seg_def [symmetric] next_rest_def [symmetric])

lemma next_seg_props:
  assumes "dropWhile (\<lambda>c. c = CHR ''/'') r \<noteq> []"
  shows "comps r = (if next_seg r = ''.'' then [] else [next_seg r]) @ comps (next_rest r)"
    and "next_seg r \<noteq> []" and "CHR ''/'' \<notin> set (next_seg r)" and "length (next_rest r) < length r"
    and "nul_free r \<Longrightarrow> nul_free (next_seg r) \<and> nul_free (next_rest r)"
proof -
  let ?r1 = "dropWhile (\<lambda>c. c = CHR ''/'') r"
  have hd: "hd ?r1 \<noteq> CHR ''/''" using hd_dropWhile [OF assms] by simp
  note seg = comps_segment [OF assms hd]
  show "comps r = (if next_seg r = ''.'' then [] else [next_seg r]) @ comps (next_rest r)"
    using seg(1) unfolding next_rest_def next_seg_def by (simp only: comps_dropWhile)
  show "next_seg r \<noteq> []" "CHR ''/'' \<notin> set (next_seg r)"
    using seg(2,3) unfolding next_seg_def by blast+
  have "length (next_rest r) < length ?r1" using assms by (simp add: next_rest_def del: dropWhile_eq_Nil_conv)
  then show "length (next_rest r) < length r" using length_dropWhile_le [of "\<lambda>c. c = CHR ''/''" r] by linarith
  show "nul_free r \<Longrightarrow> nul_free (next_seg r) \<and> nul_free (next_rest r)"
    by (simp add: next_seg_def next_rest_def nul_free_takeWhile nul_free_drop nul_free_dropWhile)
qed

definition built :: "nat \<Rightarrow> fpath \<Rightarrow> string + string \<times> storage \<Rightarrow> 'a io_world_scheme \<Rightarrow> 'a io_world_scheme \<Rightarrow> bool" where
  "built n cs res w w' \<longleftrightarrow>
     (if ''..'' \<notin> set cs \<and> length (render cs) < n
      then res = Inr (render cs, storage_of cs) \<and> w' = w \<and> list_all plain_name cs
      else (\<exists>out. res = Inl out) \<and> err_only w w')"

lemma build_path_loop_spec:
  "build_path_loop n r (render cs) (cs \<noteq> []) (storage_of cs) w = (res, w') \<Longrightarrow>
   list_all plain_name cs \<Longrightarrow> nul_free r \<Longrightarrow> length (render cs) < n \<Longrightarrow>
   built n (cs @ comps r) res w w'"
proof (induction r arbitrary: cs rule: length_induct)
  case (1 r)
  show ?case
  proof (cases "dropWhile (\<lambda>c. c = CHR ''/'') r = []")
    case True
    then have "comps r = []" by (metis comps_dropWhile comps_Nil)
    moreover have "(Inr (render cs, storage_of cs), w) = (res, w')"
      using "1.prems"(1) by (simp only: build_path_loop_end [OF True])
    moreover have "''..'' \<notin> set cs" using "1.prems"(2) by (auto simp: list_all_iff plain_name_def)
    ultimately show ?thesis using "1.prems"(2,4) by (auto simp: built_def)
  next
    case False
    note run = build_path_loop_seg [OF False, of n "render cs" "cs \<noteq> []" "storage_of cs" w]
    note seg = next_seg_props [OF False]
    consider "next_seg r = ''..''" | "next_seg r = ''.''" | "next_seg r \<noteq> ''..''" "next_seg r \<noteq> ''.''" by blast
    then show ?thesis
    proof cases
      case 1
      then have "''..'' \<in> set (comps r)" using seg(1) by simp
      moreover have "(Inl (render cs), usb_responder_set_last_error (Some ''path traversal not allowed'') w) = (res, w')"
        using "1.prems"(1) run 1 by simp
      ultimately show ?thesis by (auto simp: built_def)
    next
      case 2
      then have "build_path_loop n (next_rest r) (render cs) (cs \<noteq> []) (storage_of cs) w = (res, w')"
          and "comps r = comps (next_rest r)"
        using "1.prems"(1) run seg(1) by simp_all
      then show ?thesis using "1.IH" seg(4,5) "1.prems"(2-4) by simp
    next
      case 3
      then have plain: "plain_name (next_seg r)" using seg "1.prems"(3) by (simp add: plain_name_def)
      note step = build_step [OF "1.prems"(2) plain]
      have c: "comps r = next_seg r # comps (next_rest r)" using seg(1) 3 by simp
      show ?thesis
      proof (cases "n \<le> length (render (cs @ [next_seg r]))")
        case True
        then have "\<not> length (render (cs @ comps r)) < n"
          using length_render_mono [of "cs @ [next_seg r]" "comps (next_rest r)"] c by simp
        moreover have "(Inl (render cs), usb_responder_set_last_error (Some ''path too long'') w) = (res, w')"
          using True "1.prems"(1) run 3 step(2) by simp
        ultimately show ?thesis by (auto simp: built_def)
      next
        case fits: False
        then have rec: "build_path_loop n (next_rest r) (render (cs @ [next_seg r])) (cs @ [next_seg r] \<noteq> [])
            (storage_of (cs @ [next_seg r])) w = (res, w')"
          using "1.prems"(1) run 3 step by simp
        have "list_all plain_name (cs @ [next_seg r])" using "1.prems"(2) plain by simp
        from "1.IH" [rule_format, OF seg(4) rec this] seg(5) "1.prems"(3) fits c show ?thesis by simp
      qed
    qed
  qed
qed

text \<open>
  The whole routine: it succeeds exactly if no name is \<open>..\<close> and the path fits; the result is
  the normal form of the path and the storage of its first name.
\<close>

lemma build_path_cases:
  assumes "2 \<le> n"
  obtains (ok) "build_path (Some r) n w = (Inr (render (comps (c_str r)), storage_of (comps (c_str r))), w)"
      "''..'' \<notin> set (comps (c_str r))" "length (render (comps (c_str r))) < n" "list_all plain_name (comps (c_str r))"
  | (bad) out w' where "build_path (Some r) n w = (Inl out, w')" "err_only w w'"
      "''..'' \<in> set (comps (c_str r)) \<or> n \<le> length (render (comps (c_str r)))"
proof -
  obtain res w' where run: "build_path_loop n (c_str r) ''/'' False STORAGE_NAND w = (res, w')" by (metis surj_pair)
  then have "build_path_loop n (c_str r) (render []) ([] \<noteq> []) (storage_of []) w = (res, w')"
    by (simp add: render_def storage_of_def)
  from build_path_loop_spec [OF this] assms
  have b: "built n (comps (c_str r)) res w w'" by (simp add: render_def)
  have top: "build_path (Some r) n w = (res, w')" using assms run by (simp add: build_path_def)
  show ?thesis
  proof (cases "''..'' \<notin> set (comps (c_str r)) \<and> length (render (comps (c_str r))) < n")
    case True
    with b top ok show ?thesis by (simp add: built_def)
  next
    case False
    with b top bad show ?thesis by (auto simp: built_def not_less)
  qed
qed

section \<open>Permission strings\<close>

lemma of_char_digit: "d < 8 \<Longrightarrow> (of_char (digit_char d) :: nat) = 48 + d"
  by (simp add: digit_char_def of_char_of)

lemma digit_char_8: "d < 8 \<Longrightarrow> is_digit_in 8 (digit_char d) \<and> digit_val (digit_char d) = d"
  by (simp add: is_digit_in_def digit_val_def of_char_digit)

definition oct_value :: "nat \<Rightarrow> string \<Rightarrow> nat" where
  "oct_value n s = foldl (\<lambda>n c. n * 8 + digit_val c) n s"

lemma digits_of_8:
  "list_all (is_digit_in 8) acc \<Longrightarrow>
   list_all (is_digit_in 8) (digits_of 8 n acc) \<and> oct_value 0 (digits_of 8 n acc) = oct_value n acc \<and>
   digits_of 8 n acc \<noteq> []"
proof (induction "8 :: nat" n acc rule: digits_of.induct)
  case (1 n acc)
  show ?case
  proof (cases "n < 8")
    case True
    then show ?thesis using "1.prems" digit_char_8 [OF True]
      by (subst (1 2 3) digits_of.simps) (simp add: oct_value_def)
  next
    case False
    then have nb: "\<not> (n < 8 \<or> (8 :: nat) < 2)" by simp
    have "n mod 8 < 8" by simp
    from "1.hyps" [OF nb] digit_char_8 [OF this] "1.prems" False show ?thesis
      by (subst (1 2 3) digits_of.simps) (simp add: oct_value_def)
  qed
qed

lemma show_oct4_digits:
  "list_all (is_digit_in 8) (show_oct4 n)" "oct_value 0 (show_oct4 n) = n" "show_oct4 n \<noteq> []"
proof -
  note d = digits_of_8 [of "[]" n, simplified]
  have zero: "is_digit_in 8 (CHR ''0'')" "digit_val (CHR ''0'') = 0"
    by (simp_all add: is_digit_in_def digit_val_def)
  have pad: "oct_value 0 (replicate k (CHR ''0'')) = 0" for k
    by (induction k) (simp_all add: oct_value_def zero(2))
  show "list_all (is_digit_in 8) (show_oct4 n)"
    using d zero by (auto simp: show_oct4_def zero_pad_def list_all_iff)
  show "oct_value 0 (show_oct4 n) = n"
    using d pad by (simp add: show_oct4_def zero_pad_def oct_value_def)
  show "show_oct4 n \<noteq> []" using d by (simp add: show_oct4_def zero_pad_def)
qed

lemma digit_8_not: "is_digit_in 8 c \<Longrightarrow> \<not> is_space c \<and> c \<noteq> CHR ''-'' \<and> c \<noteq> CHR ''+'' \<and> c \<noteq> NUL"
  by (auto simp: is_digit_in_def is_space_def)

lemma c_strtoul_digits:
  assumes "list_all (is_digit_in 8) s" and "s \<noteq> []" and "oct_value 0 s < 2 ^ W"
  shows "c_strtoul W 8 s = (oct_value 0 s, [])"
proof -
  obtain c r where s: "s = c # r" using assms(2) by (cases s) auto
  have c: "\<not> is_space c" "c \<noteq> CHR ''-''" "c \<noteq> CHR ''+''" using digit_8_not [of c] assms(1) s by auto
  have all: "takeWhile (is_digit_in 8) s = s" using assms(1) by (simp add: takeWhile_eq_all_conv list_all_iff)
  show ?thesis
    using c all assms(3) by (simp add: c_strtoul_def s Let_def) (simp add: oct_value_def)
qed

lemma show_oct4_perm:
  assumes "m \<le> 0xFFF" and "12 \<le> long_bits w"
  shows "parse_perm_octal (Some (show_oct4 (unat m))) w = (Some m, w)"
proof -
  let ?s = "show_oct4 (unat m)"
  have "nul_free ?s"
    using show_oct4_digits(1) [of "unat m"] digit_8_not by (auto simp: nul_free_def list_all_iff)
  then have cs: "c_str ?s = ?s" by simp
  have le: "unat m \<le> 4095" using assms(1) by (simp add: word_le_nat_alt)
  also have "(4095 :: nat) < 2 ^ 12" by simp
  also have "(2 :: nat) ^ 12 \<le> 2 ^ long_bits w" using assms(2) by (rule power_increasing) simp
  finally have "c_strtoul (long_bits w) 8 ?s = (unat m, [])"
    using c_strtoul_digits [OF show_oct4_digits(1,3), of "unat m" "long_bits w"] show_oct4_digits(2) by simp
  then show ?thesis using show_oct4_digits(3) [of "unat m"] le by (simp add: parse_perm_octal_def cs)
qed

text \<open>The paths the operations accept, and what they work on then.\<close>

definition accepted_path :: "string \<Rightarrow> bool" where
  "accepted_path r \<longleftrightarrow> ''..'' \<notin> set (comps (c_str r)) \<and> length (render (comps (c_str r))) < USB_RESPONDER_PATH_MAX_LEN"

lemma build_path_request:
  obtains (ok) "accepted_path r"
      "build_path (Some r) USB_RESPONDER_PATH_MAX_LEN w = (Inr (render (comps (c_str r)), storage_of (comps (c_str r))), w)"
      "comps (render (comps (c_str r))) = comps (c_str r)" "list_all plain_name (comps (c_str r))"
  | (bad) out w' where "\<not> accepted_path r" "build_path (Some r) USB_RESPONDER_PATH_MAX_LEN w = (Inl out, w')" "err_only w w'"
proof -
  have "(2 :: nat) \<le> USB_RESPONDER_PATH_MAX_LEN" by simp
  then show ?thesis
  proof (cases rule: build_path_cases [of USB_RESPONDER_PATH_MAX_LEN r w])
    case ok
    then show ?thesis using that(1) comps_render [OF ok(4)] by (simp add: accepted_path_def)
  next
    case (bad out w')
    then show ?thesis using that(2) [of out w'] by (auto simp: accepted_path_def)
  qed
qed

section \<open>Properties\<close>

text \<open>
  C13. Paths of requests. On every path and every world \<open>build_path\<close> either returns the normal form
  of the path (its names joined by single slashes behind a leading one, no name \<open>.\<close> or \<open>..\<close>,
  shorter than the buffer) with the storage that its first name decides, and is then idempotent;
  or it fails, and then the path has a name \<open>..\<close> or its normal form does not fit.
\<close>

theorem build_path_normal_form:
  assumes "2 \<le> n"
  shows "case build_path (Some r) n w of
      (Inr (p, st), w') \<Rightarrow> w' = w \<and> p = render (comps (c_str r)) \<and> comps p = comps (c_str r) \<and>
        ''..'' \<notin> set (comps p) \<and> length p < n \<and>
        (st = STORAGE_SD \<longleftrightarrow> (\<exists>rest. comps p = ''sd'' # rest)) \<and>
        build_path (Some p) n w = (Inr (p, st), w)
    | (Inl _, w') \<Rightarrow> ''..'' \<in> set (comps (c_str r)) \<or> n \<le> length (render (comps (c_str r)))"
  using assms
proof (cases rule: build_path_cases [of n r w])
  case ok
  let ?p = "render (comps (c_str r))"
  have cp: "comps ?p = comps (c_str r)" by (rule comps_render [OF ok(4)])
  have "nul_free ?p" using ok(4) by (auto simp: render_def nul_free_def plain_name_def list_all_iff)
  then have cs: "c_str ?p = ?p" by simp
  from assms have again: "build_path (Some ?p) n w = (Inr (?p, storage_of (comps (c_str r))), w)"
  proof (cases rule: build_path_cases [of n ?p w])
    case ok': ok
    then show ?thesis by (simp add: cs cp)
  next
    case (bad out w')
    with ok(2,3) show ?thesis by (simp add: cs cp)
  qed
  have "storage_of (comps (c_str r)) = STORAGE_SD \<longleftrightarrow> (\<exists>rest. comps (c_str r) = ''sd'' # rest)"
    by (cases "comps (c_str r)") (auto simp: storage_of_def)
  with ok again cp show ?thesis by simp
next
  case (bad out w')
  then show ?thesis by auto
qed

theorem build_path_normal_form_witness:
  "case build_path (Some ''//sd/./a//b/'') 4096 calm_world of
      (Inr (p, st), w') \<Rightarrow> w' = calm_world \<and> p = render (comps (c_str ''//sd/./a//b/'')) \<and>
        comps p = comps (c_str ''//sd/./a//b/'') \<and> ''..'' \<notin> set (comps p) \<and> length p < 4096 \<and>
        (st = STORAGE_SD \<longleftrightarrow> (\<exists>rest. comps p = ''sd'' # rest)) \<and>
        build_path (Some p) 4096 calm_world = (Inr (p, st), calm_world)
    | (Inl _, w') \<Rightarrow> ''..'' \<in> set (comps (c_str ''//sd/./a//b/'')) \<or>
        4096 \<le> length (render (comps (c_str ''//sd/./a//b/'')))"
  by (rule build_path_normal_form) simp

text \<open>
  Permission round trip. Every permission word of twelve bits, printed in octal as the stat
  operation prints it, is read back by the permission parser of an upload.
\<close>

theorem perm_roundtrip:
  assumes "m \<le> 0xFFF" and "12 \<le> long_bits w"
  shows "parse_perm_octal (Some (show_oct4 (unat m))) w = (Some m, w)"
  using assms by (rule show_oct4_perm)

theorem perm_roundtrip_witness:
  "parse_perm_octal (Some (show_oct4 (unat (0x1A4 :: u32)))) calm_world = (Some 0x1A4, calm_world)"
  by (rule perm_roundtrip) (simp_all add: calm_world_def)

end
