(* ===== verification/Storage.thy ===== *)
theory Storage
  imports Paths
begin

text \<open>
  The storages of the device (\<open>src/file_ops.c\<close>): the scan of \<open>/proc/self/mountinfo\<close> that
  decides whether an SD card is mounted, the guard every modifying operation runs before it
  touches the card, the sizes reported to the host, and the text of file errors.
\<close>

section \<open>The code\<close>

definition set_file_error :: "string \<Rightarrow> string \<Rightarrow> 'a io_world_scheme \<Rightarrow> 'a io_world_scheme" where
  "set_file_error prefix path w =
     usb_responder_set_last_error
       (Some (snprintf_buf 512 (prefix @ '' '' @ c_str path @ '': '' @ strerr w (errno_val w)))) w"

text \<open>
  \<open>fgets\<close> with a buffer of \<open>n\<close> bytes: up to \<open>n - 1\<close> characters, ending behind a newline.
\<close>

fun line_end :: "string \<Rightarrow> nat" where
  "line_end [] = 0"
| "line_end (c # s) = (if c = CHR 0x0A then 1 else Suc (line_end s))"

definition fgets_len :: "nat \<Rightarrow> string \<Rightarrow> nat" where
  "fgets_len n s = min (n - 1) (line_end s)"

text \<open>The conversion \<open>%<width>s\<close> of \<open>sscanf\<close>: the token and the rest, if there is one.\<close>

definition scan_token :: "nat \<Rightarrow> string \<Rightarrow> (string \<times> string) option" where
  "scan_token width s =
     (let t = dropWhile is_space s;
          tok = take width (takeWhile (\<lambda>c. \<not> is_space c) t)
      in if tok = [] then None else Some (tok, drop (length tok) t))"

fun skip_tokens :: "nat \<Rightarrow> string \<Rightarrow> string option" where
  "skip_tokens 0 s = Some s"
| "skip_tokens (Suc n) s =
     (case scan_token (length s) s of None \<Rightarrow> None | Some (_, r) \<Rightarrow> skip_tokens n r)"

text \<open>\<open>strstr\<close>: the text from the first occurrence on.\<close>

fun c_strstr :: "string \<Rightarrow> string \<Rightarrow> string option" where
  "c_strstr [] pat = (if pat = [] then Some [] else None)"
| "c_strstr (c # s) pat = (if take (length pat) (c # s) = pat then Some (c # s) else c_strstr s pat)"

text \<open>One line of the mount table: the source of the mount, if it puts an MMC device at \<open>/sd\<close>.\<close>

definition mount_line :: "string \<Rightarrow> string option" where
  "mount_line line =
     (case Option.bind (skip_tokens 4 line) (scan_token 4095) of
        None \<Rightarrow> None
      | Some (mount_point, _) \<Rightarrow>
          (case c_strstr line '' - '' of
             None \<Rightarrow> None
           | Some sep \<Rightarrow>
               if mount_point \<noteq> ''/sd'' then None
               else case scan_token 127 (drop 3 sep) of
                 None \<Rightarrow> None
               | Some (fs_type, r) \<Rightarrow>
                   (case scan_token 4095 r of
                      None \<Rightarrow> None
                    | Some (mount_source, _) \<Rightarrow>
                        if c_strstr mount_source ''/dev/mmcblk'' \<noteq> None then Some mount_source else None)))"

function scan_mounts :: "string \<Rightarrow> string option" where
  "scan_mounts s =
     (if s = [] then None
      else
        let n = fgets_len 2048 s
        in case mount_line (c_str (take n s)) of
             Some src \<Rightarrow> Some src
           | None \<Rightarrow> scan_mounts (drop n s))"
  by pat_completeness auto
termination
proof (relation "measure length", goal_cases)
  case 1
  show ?case by simp
next
  case (2 s n)
  then have "0 < n" by (cases s) (auto simp: fgets_len_def)
  with 2 show ?case by simp
qed

declare scan_mounts.simps [simp del]

definition read_mountinfo_sd :: "nat \<Rightarrow> 'a fs_world_scheme \<Rightarrow> string option \<times> 'a fs_world_scheme" where
  "read_mountinfo_sd n w =
     (if n = 0 then (None, w)
      else case plain_call w of
        (False, w1) \<Rightarrow> (None, w1)
      | (True, w1) \<Rightarrow>
          (map_option (snprintf_buf n) (Option.bind (mountinfo w1) scan_mounts), w1))"

definition is_sd_mounted :: "'a fs_world_scheme \<Rightarrow> bool \<times> 'a fs_world_scheme" where
  "is_sd_mounted w = (let (src, w1) = read_mountinfo_sd USB_RESPONDER_PATH_MAX_LEN w in (src \<noteq> None, w1))"

definition ensure_storage_writeable :: "storage \<Rightarrow> 'a fs_world_scheme \<Rightarrow> bool \<times> 'a fs_world_scheme" where
  "ensure_storage_writeable st w =
     (if st = STORAGE_SD then
        case is_sd_mounted w of
          (True, w1) \<Rightarrow> (True, w1)
        | (False, w1) \<Rightarrow> (False, usb_responder_set_last_error (Some ''sd storage is not mounted on mmc'') w1)
      else (True, w))"

record storage_info =
  sd_mounted :: bool
  nand_total_bytes :: u64
  nand_free_bytes :: u64
  sd_total_bytes :: u64
  sd_free_bytes :: u64

text \<open>Block count, free blocks and fragment size are multiplied in 64 bits.\<close>

definition storage_statvfs_or_zero :: "string \<Rightarrow> 'a fs_world_scheme \<Rightarrow> (u64 \<times> u64) \<times> 'a fs_world_scheme" where
  "storage_statvfs_or_zero path w =
     (case plain_call w of
        (False, w1) \<Rightarrow> ((0, 0), w1)
      | (True, w1) \<Rightarrow>
          (case statvfs_of w1 path of
             None \<Rightarrow> (0, 0)
           | Some (blocks, bavail, frsize) \<Rightarrow> (blocks * frsize, bavail * frsize), w1))"

definition usb_responder_storage_info_read :: "'a fs_world_scheme \<Rightarrow> storage_info \<times> 'a fs_world_scheme" where
  "usb_responder_storage_info_read w =
     (let ((nt, nf), w1) = storage_statvfs_or_zero ''/'' w;
          (sd, w2) = is_sd_mounted w1;
          ((st, sf), w3) = (if sd then storage_statvfs_or_zero ''/sd'' w2 else ((0, 0), w2))
      in (\<lparr>sd_mounted = sd, nand_total_bytes = nt, nand_free_bytes = nf,
           sd_total_bytes = st, sd_free_bytes = sf\<rparr>, w3))"

section \<open>What the calls leave alone\<close>

text \<open>
  \<open>tree_only w w'\<close>: from \<open>w\<close> to \<open>w'\<close> only the tree, the error texts and the fault script moved;
  \<open>quiet w w'\<close>: not even the tree.
\<close>

definition tree_only :: "'a fs_world_scheme \<Rightarrow> 'a fs_world_scheme \<Rightarrow> bool" where
  "tree_only w w' \<longleftrightarrow>
     streams w' = streams w \<and> next_stream w' = next_stream w \<and> umask w' = umask w \<and>
     dir_end w' = dir_end w \<and> mountinfo w' = mountinfo w \<and> statvfs_of w' = statvfs_of w \<and>
     pw_name w' = pw_name w \<and> gr_name w' = gr_name w \<and> fs_world.more w' = fs_world.more w \<and>
     long_bits w' = long_bits w \<and> strerr w' = strerr w \<and> allocs w' = allocs w \<and> live w' = live w \<and>
     wscript w' = wscript w \<and> sent w' = sent w \<and> rscript w' = rscript w \<and> pscript w' = pscript w \<and>
     (faults w = [] \<longrightarrow> faults w' = [])"

definition quiet :: "'a fs_world_scheme \<Rightarrow> 'a fs_world_scheme \<Rightarrow> bool" where
  "quiet w w' \<longleftrightarrow> tree_only w w' \<and> vfs w' = vfs w"

lemma quiet_refl [simp, intro]: "quiet w w"
  by (simp add: quiet_def tree_only_def)

lemma tree_only_keeps:
  assumes "tree_only w w'"
  shows "streams w' = streams w" "next_stream w' = next_stream w" "umask w' = umask w"
    "mountinfo w' = mountinfo w" "live w' = live w" "allocs w' = allocs w" "long_bits w' = long_bits w"
    "strerr w' = strerr w" "statvfs_of w' = statvfs_of w" "dir_end w' = dir_end w" "sent w' = sent w"
    "pw_name w' = pw_name w" "gr_name w' = gr_name w" "faults w = [] \<Longrightarrow> faults w' = []"
  using assms by (simp_all add: tree_only_def)

lemma quiet_tree_only: "quiet w w' \<Longrightarrow> tree_only w w'"
  by (simp add: quiet_def)

lemma quiet_vfs: "quiet w w' \<Longrightarrow> vfs w' = vfs w"
  by (simp add: quiet_def)

lemmas quiet_keeps = tree_only_keeps [OF quiet_tree_only]

lemma tree_only_trans [trans]: "tree_only u v \<Longrightarrow> tree_only v w \<Longrightarrow> tree_only u w"
  by (simp add: tree_only_def)

lemma quiet_trans [trans]: "quiet u v \<Longrightarrow> quiet v w \<Longrightarrow> quiet u w"
  by (auto simp: quiet_def intro: tree_only_trans)

lemma quiet_errno [simp]: "quiet w (w\<lparr>errno_val := e\<rparr>)"
  by (simp add: quiet_def tree_only_def)

lemma quiet_set_last_error [simp]: "quiet w (usb_responder_set_last_error m w)"
  by (simp add: quiet_def tree_only_def usb_responder_set_last_error_def split: option.split)

lemma quiet_err_only: "err_only w w' \<Longrightarrow> quiet w w'"
proof -
  assume "err_only w w'"
  then have eq: "w' = w\<lparr>last_error := last_error w'\<rparr>" by (simp add: err_only_def)
  show "quiet w w'" by (subst eq) (simp add: quiet_def tree_only_def)
qed

lemma quiet_set_file_error [simp]: "quiet w (set_file_error p q w)"
  by (simp add: set_file_error_def)

lemma quiet_then_err:
  "quiet w w1 \<Longrightarrow> quiet w (usb_responder_set_last_error m w1)"
  "quiet w w1 \<Longrightarrow> quiet w (set_file_error p q w1)"
  by (rule quiet_trans, assumption, simp)+

lemma next_fault_quiet: "next_fault w = (f, w') \<Longrightarrow> quiet w w' \<and> (faults w = [] \<longrightarrow> f = None \<and> w' = w)"
  by (auto simp: next_fault_def quiet_def tree_only_def split: list.splits)

lemma plain_call_quiet: "plain_call w = (ok, w') \<Longrightarrow> quiet w w' \<and> (faults w = [] \<longrightarrow> ok \<and> w' = w)"
  using next_fault_quiet [of w]
  by (auto simp: plain_call_def split: prod.splits option.splits intro: quiet_trans)

text \<open>Whether the card is mounted, as the mount table says.\<close>

definition sd_present :: "'a fs_world_scheme \<Rightarrow> bool" where
  "sd_present w \<longleftrightarrow> Option.bind (mountinfo w) scan_mounts \<noteq> None"

lemma is_sd_mounted_present:
  assumes "is_sd_mounted w = (r, w')"
  shows "quiet w w'" and "r \<Longrightarrow> sd_present w" and "faults w = [] \<Longrightarrow> r = sd_present w \<and> w' = w"
proof -
  obtain ok w1 where pc: "plain_call w = (ok, w1)" by (metis surj_pair)
  note q = plain_call_quiet [OF pc]
  have r: "r = (ok \<and> sd_present w)" and w': "w' = w1"
    using assms pc quiet_keeps(4) [of w w1] q
    by (cases ok; simp add: is_sd_mounted_def read_mountinfo_sd_def sd_present_def)+
  show "quiet w w'" "r \<Longrightarrow> sd_present w" "faults w = [] \<Longrightarrow> r = sd_present w \<and> w' = w"
    using r w' q by simp_all
qed

lemma ensure_storage_quiet:
  assumes "ensure_storage_writeable st w = (ok, w')"
  shows "quiet w w'" and "ok \<Longrightarrow> st = STORAGE_SD \<Longrightarrow> sd_present w"
    and "faults w = [] \<Longrightarrow> ok = (st = STORAGE_SD \<longrightarrow> sd_present w) \<and> (ok \<longrightarrow> w' = w)"
proof -
  obtain m w1 where sd: "is_sd_mounted w = (m, w1)" by (metis surj_pair)
  note p = is_sd_mounted_present [OF sd]
  show "quiet w w'" "ok \<Longrightarrow> st = STORAGE_SD \<Longrightarrow> sd_present w"
    "faults w = [] \<Longrightarrow> ok = (st = STORAGE_SD \<longrightarrow> sd_present w) \<and> (ok \<longrightarrow> w' = w)"
    using assms sd p by (cases m; auto simp: ensure_storage_writeable_def intro: quiet_then_err split: if_splits)+
qed

lemma path_storage_matches_desire_quiet:
  "path_storage_matches_desire st d w = (ok, w') \<Longrightarrow> err_only w w' \<and> (ok \<longrightarrow> w' = w)"
  by (auto simp: path_storage_matches_desire_def split: option.splits if_splits)

end
