(* ===== verification/Sessions.thy ===== *)
theory Sessions
  imports Storage
begin

text \<open>
  The table of upload sessions (\<open>src/file_ops.h\<close>, \<open>find_session\<close> and \<open>alloc_session\<close> of
  \<open>src/file_ops.c\<close>). A locale states what a table of slots with a linear search promises:
  as long as the keys of the used slots are unique, the table is a finite map. The session
  table is an interpretation.
\<close>

section \<open>The code\<close>

abbreviation (input) USB_RESPONDER_MAX_UPLOAD_SESSIONS :: nat where "USB_RESPONDER_MAX_UPLOAD_SESSIONS \<equiv> 16"

record upload_session =
  used :: bool
  transfer_id :: u32
  fp :: "nat option"
  relative_path :: string
  temp_path :: string
  final_path :: string
  bytes_written :: u64
  synced_bytes :: u64
  apply_perm :: bool
  file_mode :: u32

type_synonym file_ops = "upload_session list"

definition zero_session :: upload_session where
  "zero_session = \<lparr>used = False, transfer_id = 0, fp = None, relative_path = [], temp_path = [],
     final_path = [], bytes_written = 0, synced_bytes = 0, apply_perm = False, file_mode = 0\<rparr>"

definition usb_responder_file_ops_init :: file_ops where
  "usb_responder_file_ops_init = replicate USB_RESPONDER_MAX_UPLOAD_SESSIONS zero_session"

definition find_session :: "file_ops \<Rightarrow> u32 \<Rightarrow> nat option" where
  "find_session ops tid =
     List.find (\<lambda>i. used (ops ! i) \<and> transfer_id (ops ! i) = tid) [0..<USB_RESPONDER_MAX_UPLOAD_SESSIONS]"

definition alloc_session :: "file_ops \<Rightarrow> (nat \<times> file_ops) option" where
  "alloc_session ops =
     (case List.find (\<lambda>i. \<not> used (ops ! i)) [0..<USB_RESPONDER_MAX_UPLOAD_SESSIONS] of
        None \<Rightarrow> None
      | Some i \<Rightarrow> Some (i, ops[i := (ops ! i)\<lparr>used := True\<rparr>]))"

section \<open>Tables of slots\<close>

locale slot_table =
  fixes find :: "'o \<Rightarrow> 'k \<Rightarrow> nat option"
    and claim :: "'o \<Rightarrow> (nat \<times> 'o) option"
    and slot :: "'o \<Rightarrow> nat \<Rightarrow> 's"
    and put :: "'o \<Rightarrow> nat \<Rightarrow> 's \<Rightarrow> 'o"
    and cap :: nat
    and sized :: "'o \<Rightarrow> bool"
    and key :: "'s \<Rightarrow> 'k"
    and taken :: "'s \<Rightarrow> bool"
  assumes find_sound: "find t k = Some i \<Longrightarrow> i < cap \<and> taken (slot t i) \<and> key (slot t i) = k"
    and find_complete: "i < cap \<Longrightarrow> taken (slot t i) \<Longrightarrow> find t (key (slot t i)) \<noteq> None"
    and sized_put: "sized t \<Longrightarrow> sized (put t i s)"
    and slot_put: "sized t \<Longrightarrow> i < cap \<Longrightarrow> slot (put t i s) j = (if j = i then s else slot t j)"
    and claim_sound: "sized t \<Longrightarrow> claim t = Some (i, t') \<Longrightarrow>
      i < cap \<and> \<not> taken (slot t i) \<and> sized t' \<and> (\<forall>s. put t' i s = put t i s)"
    and claim_complete: "claim t = None \<Longrightarrow> i < cap \<Longrightarrow> taken (slot t i)"
begin

definition view :: "'o \<Rightarrow> 'k \<Rightarrow> 's option" where
  "view t k = map_option (slot t) (find t k)"

definition unique :: "'o \<Rightarrow> bool" where
  "unique t \<longleftrightarrow> sized t \<and> inj_on (\<lambda>i. key (slot t i)) {i. i < cap \<and> taken (slot t i)}"

lemma uniqueD:
  "unique t \<Longrightarrow> i < cap \<Longrightarrow> j < cap \<Longrightarrow> taken (slot t i) \<Longrightarrow> taken (slot t j) \<Longrightarrow>
   key (slot t i) = key (slot t j) \<Longrightarrow> i = j"
  by (auto simp: unique_def dest: inj_onD)

lemma unique_sized: "unique t \<Longrightarrow> sized t"
  by (simp add: unique_def)

lemma find_iff:
  assumes "unique t"
  shows "find t k = Some i \<longleftrightarrow> i < cap \<and> taken (slot t i) \<and> key (slot t i) = k"
proof
  assume "find t k = Some i"
  then show "i < cap \<and> taken (slot t i) \<and> key (slot t i) = k" by (rule find_sound)
next
  assume i: "i < cap \<and> taken (slot t i) \<and> key (slot t i) = k"
  then obtain j where j: "find t k = Some j" using find_complete by blast
  from find_sound [OF j] i have "i = j" by (intro uniqueD [OF assms]) auto
  with j show "find t k = Some i" by simp
qed

lemma find_None_iff: "find t k = None \<longleftrightarrow> (\<forall>i<cap. taken (slot t i) \<longrightarrow> key (slot t i) \<noteq> k)"
  by (metis find_complete find_sound not_None_eq)

lemma view_eqI:
  assumes "unique t"
    and none: "\<And>k i. m k = None \<Longrightarrow> i < cap \<Longrightarrow> taken (slot t i) \<Longrightarrow> key (slot t i) \<noteq> k"
    and some: "\<And>k s. m k = Some s \<Longrightarrow> \<exists>i<cap. slot t i = s \<and> taken s \<and> key s = k"
  shows "view t = m"
proof
  fix k
  show "view t k = m k"
  proof (cases "m k")
    case None
    then have "find t k = None" using none by (simp add: find_None_iff)
    with None show ?thesis by (simp add: view_def)
  next
    case (Some s)
    then obtain i where i: "i < cap" "slot t i = s" "taken s" "key s = k" using some by blast
    then have "find t k = Some i" using find_iff [OF assms(1)] by simp
    with Some i(2) show ?thesis by (simp add: view_def)
  qed
qed

lemma view_SomeD:
  "view t k = Some s \<Longrightarrow> \<exists>i<cap. slot t i = s \<and> taken s \<and> key s = k"
  using find_sound by (fastforce simp: view_def)

lemma view_NoneD: "view t k = None \<Longrightarrow> i < cap \<Longrightarrow> taken (slot t i) \<Longrightarrow> key (slot t i) \<noteq> k"
  by (auto simp: view_def find_None_iff)

text \<open>Storing into a slot that is free, or that already holds the key, is an update of the map.\<close>

lemma put_taken:
  assumes u: "unique t" and i: "i < cap" and s: "taken s"
    and at: "find t (key s) = Some i \<or> \<not> taken (slot t i) \<and> find t (key s) = None"
  shows "unique (put t i s)" and "view (put t i s) = (view t)(key s \<mapsto> s)"
proof -
  note sz = unique_sized [OF u]
  note slot' = slot_put [OF sz i]
  have other: "key (slot t j) \<noteq> key s" if j: "j < cap" "taken (slot t j)" "j \<noteq> i" for j
  proof
    assume "key (slot t j) = key s"
    then have "find t (key s) = Some j" using j find_iff [OF u] by simp
    with at j(3) show False by auto
  qed
  show u': "unique (put t i s)"
    unfolding unique_def
  proof (intro conjI inj_onI)
    fix a b
    assume ab: "a \<in> {i'. i' < cap \<and> taken (slot (put t i s) i')}" "b \<in> {i'. i' < cap \<and> taken (slot (put t i s) i')}"
      and eq: "key (slot (put t i s) a) = key (slot (put t i s) b)"
    show "a = b"
    proof (cases "a = i \<or> b = i")
      case True
      then show ?thesis using ab eq other [of a] other [of b] by (auto simp: slot' split: if_splits)
    next
      case False
      then show ?thesis using ab eq uniqueD [OF u, of a b] by (simp add: slot')
    qed
  qed (rule sized_put [OF sz])
  show "view (put t i s) = (view t)(key s \<mapsto> s)"
  proof (rule view_eqI [OF u'])
    fix k j
    assume "((view t)(key s \<mapsto> s)) k = None" "j < cap" "taken (slot (put t i s) j)"
    then show "key (slot (put t i s) j) \<noteq> k"
      using view_NoneD [of t k j] by (auto simp: slot' split: if_splits)
  next
    fix k x
    assume x: "((view t)(key s \<mapsto> s)) k = Some x"
    show "\<exists>j<cap. slot (put t i s) j = x \<and> taken x \<and> key x = k"
    proof (cases "k = key s")
      case True
      then show ?thesis using i s x by (auto simp: slot')
    next
      case False
      with x obtain j where j: "j < cap" "slot t j = x" "taken x" "key x = k"
        using view_SomeD [of t k x] by auto
      have "j \<noteq> i"
      proof
        assume "j = i"
        with at j have "find t (key s) = Some i" by auto
        with find_sound \<open>j = i\<close> j False show False by blast
      qed
      with j show ?thesis by (auto simp: slot')
    qed
  qed
qed

text \<open>Storing an unused session into the slot of a key removes the key; into a free slot, nothing.\<close>

lemma put_free:
  assumes u: "unique t" and i: "i < cap" and s: "\<not> taken s"
  shows "unique (put t i s)"
    and "view (put t i s) = (if taken (slot t i) then (view t)(key (slot t i) := None) else view t)"
proof -
  note sz = unique_sized [OF u]
  note slot' = slot_put [OF sz i]
  let ?m = "if taken (slot t i) then (view t)(key (slot t i) := None) else view t"
  show u': "unique (put t i s)"
    unfolding unique_def
  proof (intro conjI inj_onI)
    fix a b
    assume "a \<in> {i'. i' < cap \<and> taken (slot (put t i s) i')}" "b \<in> {i'. i' < cap \<and> taken (slot (put t i s) i')}"
      and "key (slot (put t i s) a) = key (slot (put t i s) b)"
    then show "a = b" using s uniqueD [OF u, of a b] by (auto simp: slot' split: if_splits)
  qed (rule sized_put [OF sz])
  show "view (put t i s) = ?m"
  proof (rule view_eqI [OF u'])
    fix k j
    assume a: "?m k = None" "j < cap" "taken (slot (put t i s) j)"
    then have j: "j \<noteq> i" "taken (slot t j)" using s by (auto simp: slot' split: if_splits)
    show "key (slot (put t i s) j) \<noteq> k"
    proof (cases "taken (slot t i) \<and> k = key (slot t i)")
      case True
      then show ?thesis using uniqueD [OF u a(2) i j(2)] j(1) by (auto simp: slot')
    next
      case False
      then have "view t k = None" using a(1) by (auto split: if_splits)
      then show ?thesis using view_NoneD [of t k j] a(2) j by (simp add: slot')
    qed
  next
    fix k x
    assume "?m k = Some x"
    then have "view t k = Some x" and k: "\<not> (taken (slot t i) \<and> k = key (slot t i))"
      by (auto split: if_splits)
    then obtain j where j: "j < cap" "slot t j = x" "taken x" "key x = k" using view_SomeD by blast
    then have "j \<noteq> i" using k by auto
    with j show "\<exists>j<cap. slot (put t i s) j = x \<and> taken x \<and> key x = k" by (auto simp: slot')
  qed
qed

lemma claim_none_full: "claim t = None \<longleftrightarrow> card {i. i < cap \<and> taken (slot t i)} = cap" if "sized t"
proof
  assume "claim t = None"
  then have "{i. i < cap \<and> taken (slot t i)} = {..<cap}" using claim_complete by auto
  then show "card {i. i < cap \<and> taken (slot t i)} = cap" by simp
next
  assume c: "card {i. i < cap \<and> taken (slot t i)} = cap"
  have "{i. i < cap \<and> taken (slot t i)} = {..<cap}"
    by (rule card_subset_eq) (auto simp: c)
  show "claim t = None"
  proof (rule ccontr)
    assume "claim t \<noteq> None"
    then obtain i t' where "claim t = Some (i, t')" by auto
    with claim_sound [OF that this] have "i < cap" "\<not> taken (slot t i)" by blast+
    with \<open>{i. i < cap \<and> taken (slot t i)} = {..<cap}\<close> show False by blast
  qed
qed

end

section \<open>The session table\<close>

lemma find_session_Some:
  "find_session ops tid = Some i \<Longrightarrow> i < 16 \<and> used (ops ! i) \<and> transfer_id (ops ! i) = tid"
  by (auto simp: find_session_def find_Some_iff)

lemma find_session_None:
  "find_session ops tid = None \<longleftrightarrow> (\<forall>i<16. used (ops ! i) \<longrightarrow> transfer_id (ops ! i) \<noteq> tid)"
  by (auto simp: find_session_def find_None_iff)

lemma alloc_session_Some:
  "alloc_session ops = Some (i, ops') \<Longrightarrow>
   i < 16 \<and> \<not> used (ops ! i) \<and> ops' = ops[i := (ops ! i)\<lparr>used := True\<rparr>]"
  by (auto simp: alloc_session_def find_Some_iff split: option.splits)

lemma alloc_session_None: "alloc_session ops = None \<longleftrightarrow> (\<forall>i<16. used (ops ! i))"
  by (auto simp: alloc_session_def find_None_iff find_Some_iff split: option.splits)

interpretation session_table: slot_table find_session alloc_session nth list_update 16 "\<lambda>ops. length ops = 16"
  transfer_id used
proof unfold_locales
  fix t :: file_ops and i
  assume "i < 16" "used (t ! i)"
  then show "find_session t (transfer_id (t ! i)) \<noteq> None" by (auto simp: find_session_None)
qed (auto dest: find_session_Some alloc_session_Some simp: alloc_session_None)

text \<open>The table as a finite map from transfer ids to sessions.\<close>

definition sessions :: "file_ops \<Rightarrow> u32 \<Rightarrow> upload_session option" where
  "sessions ops tid = map_option (\<lambda>i. ops ! i) (find_session ops tid)"

definition ids_unique :: "file_ops \<Rightarrow> bool" where
  "ids_unique ops \<longleftrightarrow> length ops = 16 \<and>
     (\<forall>i<16. \<forall>j<16. used (ops ! i) \<and> used (ops ! j) \<and> transfer_id (ops ! i) = transfer_id (ops ! j) \<longrightarrow> i = j)"

lemma sessions_view: "sessions = session_table.view"
  by (simp add: fun_eq_iff sessions_def session_table.view_def)

lemma ids_unique_iff: "ids_unique ops \<longleftrightarrow> session_table.unique ops"
  by (auto simp: ids_unique_def session_table.unique_def inj_on_def)

end
