(* ===== verification/Uploads.thy ===== *)
theory Uploads
  imports Sessions
begin

text \<open>
  Uploads (\<open>src/file_ops.c\<close>): begin, append, finish and abort, the pacing of write-backs and
  the shutdown of the table. The lemmas show that the table stays a map from transfer ids to
  sessions, that the open streams are exactly those of the used sessions whatever fails, and
  what an upload leaves in the file system.
\<close>

section \<open>The code\<close>

abbreviation (input) USB_RESPONDER_UPLOAD_SYNC_INTERVAL :: u64 where
  "USB_RESPONDER_UPLOAD_SYNC_INTERVAL \<equiv> 0x100000"

definition upload_pace_writeback :: "upload_session \<Rightarrow> 'a fs_world_scheme \<Rightarrow> 'a fs_world_scheme" where
  "upload_pace_writeback s w =
     (case fp s of
        None \<Rightarrow> w
      | Some f \<Rightarrow>
          (case c_fflush f w of
             (False, w1) \<Rightarrow> w1
           | (True, w1) \<Rightarrow> snd (plain_call w1)))"

definition usb_responder_file_abort_upload ::
  "file_ops \<Rightarrow> u32 \<Rightarrow> 'a fs_world_scheme \<Rightarrow> bool \<times> file_ops \<times> 'a fs_world_scheme" where
  "usb_responder_file_abort_upload ops tid w =
     (case find_session ops tid of
        None \<Rightarrow> (False, ops, w)
      | Some i \<Rightarrow>
          let s = ops ! i;
              w1 = (case fp s of None \<Rightarrow> w | Some f \<Rightarrow> snd (c_fclose f w));
              w2 = snd (c_unlink (temp_path s) w1)
          in (True, ops[i := zero_session], w2))"

text \<open>
  The part of \<open>begin_upload\<close> between the allocation of the slot and the opening of the
  temporary file: every check that may still refuse the upload.
\<close>

definition prepare_upload ::
  "upload_session \<Rightarrow> string \<Rightarrow> string option \<Rightarrow> string option \<Rightarrow> 'a fs_world_scheme \<Rightarrow>
   bool \<times> upload_session \<times> 'a fs_world_scheme" where
  "prepare_upload s0 rel desire perm w =
     (let s = s0\<lparr>apply_perm := False, file_mode := 0x1A4\<rparr>;
          given = (case perm of None \<Rightarrow> False | Some p \<Rightarrow> c_str p \<noteq> []);
          (mode, w1) = (if given then parse_perm_octal perm w else (None, w))
      in if given \<and> mode = None then (False, s\<lparr>used := False\<rparr>, w1)
         else
           let s1 = (case mode of None \<Rightarrow> s | Some m \<Rightarrow> s\<lparr>file_mode := m, apply_perm := True\<rparr>)
           in case build_path (Some rel) USB_RESPONDER_PATH_MAX_LEN w1 of
                (Inl out, w2) \<Rightarrow> (False, s1\<lparr>final_path := out, used := False\<rparr>, w2)
              | (Inr (final, storage), w2) \<Rightarrow>
                  let s2 = s1\<lparr>final_path := final\<rparr>
                  in case path_storage_matches_desire storage desire w2 of
                       (False, w3) \<Rightarrow> (False, s2\<lparr>used := False\<rparr>, w3)
                     | (True, w3) \<Rightarrow>
                         (case ensure_storage_writeable storage w3 of
                            (False, w4) \<Rightarrow> (False, s2\<lparr>used := False\<rparr>, w4)
                          | (True, w4) \<Rightarrow>
                              let s3 = s2\<lparr>relative_path := snprintf_buf 4096 (c_str rel)\<rparr>
                              in if USB_RESPONDER_PATH_MAX_LEN \<le> length (c_str rel) then
                                   (False, s3\<lparr>used := False\<rparr>,
                                    usb_responder_set_last_error (Some ''relative path too long'') w4)
                                 else
                                   let s4 = s3\<lparr>temp_path := snprintf_buf 4096 (final @ ''.part'')\<rparr>
                                   in if USB_RESPONDER_PATH_MAX_LEN \<le> length (final @ ''.part'') then
                                        (False, s4\<lparr>used := False\<rparr>,
                                         usb_responder_set_last_error (Some ''temp path too long'') w4)
                                      else (True, s4, w4)))"

definition usb_responder_file_begin_upload ::
  "file_ops \<Rightarrow> u32 \<Rightarrow> string option \<Rightarrow> string option \<Rightarrow> string option \<Rightarrow> 'a fs_world_scheme \<Rightarrow>
   bool \<times> file_ops \<times> 'a fs_world_scheme" where
  "usb_responder_file_begin_upload ops tid relative desire perm w =
     (case relative of
        None \<Rightarrow> (False, ops, usb_responder_set_last_error (Some ''invalid upload session'') w)
      | Some rel \<Rightarrow>
          let (_, ops1, w1) = (if find_session ops tid \<noteq> None
                then usb_responder_file_abort_upload ops tid w else (True, ops, w))
          in case alloc_session ops1 of
               None \<Rightarrow> (False, ops1, usb_responder_set_last_error (Some ''no free upload session'') w1)
             | Some (i, ops2) \<Rightarrow>
                 (case prepare_upload (ops2 ! i) rel desire perm w1 of
                    (False, s, w2) \<Rightarrow> (False, ops2[i := s], w2)
                  | (True, s, w2) \<Rightarrow>
                      (case c_fopen_wb (temp_path s) w2 of
                         (None, w3) \<Rightarrow>
                           (False, ops2[i := s\<lparr>fp := None, used := False\<rparr>], set_file_error ''fopen'' (temp_path s) w3)
                       | (Some f, w3) \<Rightarrow>
                           (True, ops2[i := s\<lparr>fp := Some f, transfer_id := tid, bytes_written := 0,
                              synced_bytes := 0\<rparr>], w3))))"

definition usb_responder_file_append_upload_chunk ::
  "file_ops \<Rightarrow> u32 \<Rightarrow> byte list option \<Rightarrow> 'a fs_world_scheme \<Rightarrow> bool \<times> file_ops \<times> 'a fs_world_scheme" where
  "usb_responder_file_append_upload_chunk ops tid chunk w =
     (case chunk of
        None \<Rightarrow> (False, ops, usb_responder_set_last_error (Some ''invalid upload chunk'') w)
      | Some data \<Rightarrow>
          if data = [] then (False, ops, usb_responder_set_last_error (Some ''invalid upload chunk'') w)
          else case find_session ops tid of
            None \<Rightarrow> (False, ops, usb_responder_set_last_error (Some ''upload session not found'') w)
          | Some i \<Rightarrow>
              (case fp (ops ! i) of
                 None \<Rightarrow> (False, ops, usb_responder_set_last_error (Some ''upload session not found'') w)
               | Some f \<Rightarrow>
                   let (n, w1) = c_fwrite data f w
                   in if n \<noteq> length data then (False, ops, set_file_error ''fwrite'' (temp_path (ops ! i)) w1)
                      else
                        let s = (ops ! i)\<lparr>bytes_written := bytes_written (ops ! i) + of_nat (length data)\<rparr>
                        in if USB_RESPONDER_UPLOAD_SYNC_INTERVAL \<le> bytes_written s - synced_bytes s then
                             (True, ops[i := s\<lparr>synced_bytes := bytes_written s\<rparr>], upload_pace_writeback s w1)
                           else (True, ops[i := s], w1)))"

definition usb_responder_file_finish_upload ::
  "file_ops \<Rightarrow> u32 \<Rightarrow> 'a fs_world_scheme \<Rightarrow> bool \<times> file_ops \<times> 'a fs_world_scheme" where
  "usb_responder_file_finish_upload ops tid w =
     (case find_session ops tid of
        None \<Rightarrow> (False, ops, usb_responder_set_last_error (Some ''upload session not found'') w)
      | Some i \<Rightarrow>
          let s = ops ! i;
              w1 = (case fp s of None \<Rightarrow> w | Some f \<Rightarrow> snd (c_fclose f w))
          in case c_rename (temp_path s) (final_path s) w1 of
               (False, w2) \<Rightarrow>
                 (False, ops[i := zero_session],
                  snd (c_unlink (temp_path s) (set_file_error ''rename'' (final_path s) w2)))
             | (True, w2) \<Rightarrow>
                 if apply_perm s then
                   (case c_chmod (final_path s) (file_mode s) w2 of
                      (False, w3) \<Rightarrow>
                        (False, ops[i := zero_session],
                         snd (c_unlink (final_path s) (set_file_error ''chmod'' (final_path s) w3)))
                    | (True, w3) \<Rightarrow> (True, ops[i := zero_session], w3))
                 else (True, ops[i := zero_session], w2))"

fun shutdown_sessions :: "upload_session list \<Rightarrow> 'a fs_world_scheme \<Rightarrow> 'a fs_world_scheme" where
  "shutdown_sessions [] w = w"
| "shutdown_sessions (s # ss) w =
     shutdown_sessions ss
       (if used s then
          snd (c_unlink (temp_path s) (case fp s of None \<Rightarrow> w | Some f \<Rightarrow> snd (c_fclose f w)))
        else w)"

definition usb_responder_file_ops_shutdown ::
  "file_ops \<Rightarrow> 'a fs_world_scheme \<Rightarrow> file_ops \<times> 'a fs_world_scheme" where
  "usb_responder_file_ops_shutdown ops w =
     (replicate USB_RESPONDER_MAX_UPLOAD_SESSIONS zero_session,
      shutdown_sessions (take USB_RESPONDER_MAX_UPLOAD_SESSIONS ops) w)"

section \<open>What the calls do to the streams\<close>

lemma tree_call_tree_only: "tree_call f w = (ok, w') \<Longrightarrow> tree_only w w'"
  using next_fault_quiet [of w]
  by (fastforce simp: tree_call_def quiet_def tree_only_def split: prod.splits option.splits sum.splits)

lemmas tree_ops = c_unlink_def c_rename_def c_chmod_def c_mkdir_def c_rmdir_def

lemma tree_ops_tree_only:
  "c_unlink p w = (ok, w') \<Longrightarrow> tree_only w w'" "c_rename p q w = (ok, w') \<Longrightarrow> tree_only w w'"
  "c_chmod p m w = (ok, w') \<Longrightarrow> tree_only w w'" "c_mkdir p m w = (ok, w') \<Longrightarrow> tree_only w w'"
  "c_rmdir p w = (ok, w') \<Longrightarrow> tree_only w w'"
  by (auto simp: tree_ops intro: tree_call_tree_only)

lemma tree_only_snd [simp]:
  "tree_only w (snd (c_unlink p w))" "tree_only w (snd (c_chmod p m w))"
  by (metis prod.collapse tree_ops_tree_only(1), metis prod.collapse tree_ops_tree_only(3))

text \<open>The streams that are open.\<close>

definition same_streams :: "'a fs_world_scheme \<Rightarrow> 'a fs_world_scheme \<Rightarrow> bool" where
  "same_streams w w' \<longleftrightarrow> dom (streams w') = dom (streams w) \<and> next_stream w' = next_stream w"

lemma same_streams_trans [trans]: "same_streams u v \<Longrightarrow> same_streams v w \<Longrightarrow> same_streams u w"
  by (simp add: same_streams_def)

lemma tree_only_same: "tree_only w w' \<Longrightarrow> same_streams w w'"
  by (simp add: same_streams_def tree_only_keeps)

lemma quiet_same: "quiet w w' \<Longrightarrow> same_streams w w'"
  by (rule tree_only_same [OF quiet_tree_only])

lemma next_fault_same: "next_fault w = (flt, w') \<Longrightarrow> streams w' = streams w \<and> next_stream w' = next_stream w"
  using next_fault_quiet [of w flt w'] quiet_keeps(1,2) [of w w'] by simp

lemma fwrite_same: "same_streams w (snd (c_fwrite d f w))"
proof (cases "streams w f")
  case None
  then show ?thesis by (simp add: c_fwrite_def same_streams_def)
next
  case (Some s)
  obtain flt w1 where nf: "next_fault w = (flt, w1)" by (metis surj_pair)
  show ?thesis
    using next_fault_same [OF nf] Some
    by (cases flt) (auto simp: c_fwrite_def same_streams_def nf Let_def split: prod.split)
qed

lemma fflush_same: "same_streams w (snd (c_fflush f w))"
proof (cases "streams w f")
  case None
  then show ?thesis by (simp add: c_fflush_def same_streams_def)
next
  case (Some s)
  obtain flt w1 where nf: "next_fault w = (flt, w1)" by (metis surj_pair)
  show ?thesis
    using next_fault_same [OF nf] Some
    by (cases flt) (auto simp: c_fflush_def same_streams_def nf Let_def split: prod.split)
qed

lemma fclose_streams:
  "dom (streams (snd (c_fclose f w))) = dom (streams w) - {f}"
  "next_stream (snd (c_fclose f w)) = next_stream w"
  using fflush_same [of w f] by (simp_all add: c_fclose_def same_streams_def case_prod_beta dom_def [symmetric] dom_fun_upd)

lemma fopen_streams:
  assumes "c_fopen_wb p w = (r, w')"
  shows "case r of None \<Rightarrow> same_streams w w'
    | Some f \<Rightarrow> f = next_stream w \<and> dom (streams w') = insert f (dom (streams w)) \<and> next_stream w' = next_stream w + 1"
proof -
  obtain flt w1 where nf: "next_fault w = (flt, w1)" by (metis surj_pair)
  note st = next_fault_same [OF nf]
  show ?thesis
  proof (cases flt)
    case (Some e)
    then show ?thesis using assms st by (cases e) (auto simp: c_fopen_wb_def nf same_streams_def)
  next
    case None
    then show ?thesis using assms st
      by (cases "fs_creat (comps p) (0x1B6 AND NOT (umask w1)) (vfs w1)")
        (auto simp: c_fopen_wb_def nf same_streams_def)
  qed
qed

lemma pace_same: "same_streams w (upload_pace_writeback s w)"
proof (cases "fp s")
  case None
  then show ?thesis by (simp add: upload_pace_writeback_def same_streams_def)
next
  case (Some f)
  obtain ok w1 where fl: "c_fflush f w = (ok, w1)" by (metis surj_pair)
  obtain ok2 w2 where pc: "plain_call w1 = (ok2, w2)" by (metis surj_pair)
  have "same_streams w1 w2" using plain_call_quiet [OF pc] by (auto intro: quiet_same)
  with fflush_same [of w f] show ?thesis
    by (cases ok) (auto simp: upload_pace_writeback_def Some fl pc intro: same_streams_trans)
qed

section \<open>The invariant of the table\<close>

text \<open>
  The ids of the used sessions are unique, the used sessions are those with a stream, no two
  share one, and nothing else has a stream open.
\<close>

definition uploads_inv :: "file_ops \<Rightarrow> 'a fs_world_scheme \<Rightarrow> bool" where
  "uploads_inv ops w \<longleftrightarrow>
     ids_unique ops \<and>
     (\<forall>i<16. used (ops ! i) \<longleftrightarrow> fp (ops ! i) \<noteq> None) \<and>
     (\<forall>i<16. \<forall>j<16. \<forall>f. fp (ops ! i) = Some f \<longrightarrow> fp (ops ! j) = Some f \<longrightarrow> i = j) \<and>
     (\<forall>f. f \<in> dom (streams w) \<longleftrightarrow> (\<exists>i<16. fp (ops ! i) = Some f)) \<and>
     (\<forall>f\<in>dom (streams w). f < next_stream w)"

lemma uploads_invI:
  assumes "ids_unique ops"
    and "\<And>i. i < 16 \<Longrightarrow> used (ops ! i) \<longleftrightarrow> fp (ops ! i) \<noteq> None"
    and "\<And>i j f. i < 16 \<Longrightarrow> j < 16 \<Longrightarrow> fp (ops ! i) = Some f \<Longrightarrow> fp (ops ! j) = Some f \<Longrightarrow> i = j"
    and "\<And>f. f \<in> dom (streams w) \<longleftrightarrow> (\<exists>i<16. fp (ops ! i) = Some f)"
    and "\<And>f. f \<in> dom (streams w) \<Longrightarrow> f < next_stream w"
  shows "uploads_inv ops w"
  using assms unfolding uploads_inv_def by blast

lemma uploads_invD:
  assumes "uploads_inv ops w"
  shows "ids_unique ops" "length ops = 16" "session_table.unique ops"
    and "i < 16 \<Longrightarrow> used (ops ! i) \<longleftrightarrow> fp (ops ! i) \<noteq> None"
    and "i < 16 \<Longrightarrow> j < 16 \<Longrightarrow> fp (ops ! i) = Some f \<Longrightarrow> fp (ops ! j) = Some f \<Longrightarrow> i = j"
    and "f \<in> dom (streams w) \<longleftrightarrow> (\<exists>i<16. fp (ops ! i) = Some f)"
    and "f \<in> dom (streams w) \<Longrightarrow> f < next_stream w"
proof -
  show u: "ids_unique ops" using assms by (simp add: uploads_inv_def)
  then show "length ops = 16" by (simp add: ids_unique_def)
  show "session_table.unique ops" using u by (simp add: ids_unique_iff)
  show "i < 16 \<Longrightarrow> used (ops ! i) \<longleftrightarrow> fp (ops ! i) \<noteq> None"
    "i < 16 \<Longrightarrow> j < 16 \<Longrightarrow> fp (ops ! i) = Some f \<Longrightarrow> fp (ops ! j) = Some f \<Longrightarrow> i = j"
    "f \<in> dom (streams w) \<longleftrightarrow> (\<exists>i<16. fp (ops ! i) = Some f)"
    "f \<in> dom (streams w) \<Longrightarrow> f < next_stream w"
    using assms unfolding uploads_inv_def by blast+
qed

lemma inv_same_streams: "uploads_inv ops w \<Longrightarrow> same_streams w w' \<Longrightarrow> uploads_inv ops w'"
  unfolding uploads_inv_def same_streams_def by simp

text \<open>
  Replacing the session in slot \<open>i\<close>: the invariant survives if the new session has its own
  stream or none, and the open streams change accordingly.
\<close>

lemma inv_put:
  assumes inv: "uploads_inv ops w" and i: "i < 16" and u: "ids_unique (ops[i := s])"
    and s: "used s \<longleftrightarrow> fp s \<noteq> None"
    and new: "\<And>f j. fp s = Some f \<Longrightarrow> j < 16 \<Longrightarrow> fp (ops ! j) = Some f \<Longrightarrow> j = i"
    and dom: "\<And>f. f \<in> dom (streams w') \<longleftrightarrow> fp s = Some f \<or> f \<in> dom (streams w) \<and> fp (ops ! i) \<noteq> Some f"
    and bound: "\<And>f. f \<in> dom (streams w') \<Longrightarrow> f < next_stream w'"
  shows "uploads_inv (ops[i := s]) w'"
proof (rule uploads_invI [OF u _ _ _ bound])
  note D = uploads_invD [OF inv]
  have nth: "ops[i := s] ! j = (if j = i then s else ops ! j)" if "j < 16" for j
    using D(2) that by (cases "j = i") simp_all
  show "used (ops[i := s] ! j) \<longleftrightarrow> fp (ops[i := s] ! j) \<noteq> None" if "j < 16" for j
    using nth [OF that] s D(4) [OF that] by simp
  show "j = k" if "j < 16" "k < 16" "fp (ops[i := s] ! j) = Some f" "fp (ops[i := s] ! k) = Some f" for j k f
  proof -
    have at: "if m = i then fp s = Some f else fp (ops ! m) = Some f" if "m < 16" "fp (ops[i := s] ! m) = Some f" for m
      using that nth [OF that(1)] by (cases "m = i") simp_all
    consider "j = i" "k = i" | "j = i" "k \<noteq> i" | "j \<noteq> i" "k = i" | "j \<noteq> i" "k \<noteq> i" by blast
    then show ?thesis
    proof cases
      case 1
      then show ?thesis by simp
    next
      case 2
      then have "fp s = Some f" "fp (ops ! k) = Some f" using at [OF that(1,3)] at [OF that(2,4)] by simp_all
      from new [OF this(1) that(2) this(2)] 2 show ?thesis by simp
    next
      case 3
      then have "fp s = Some f" "fp (ops ! j) = Some f" using at [OF that(1,3)] at [OF that(2,4)] by simp_all
      from new [OF this(1) that(1) this(2)] 3 show ?thesis by simp
    next
      case 4
      then have "fp (ops ! j) = Some f" "fp (ops ! k) = Some f" using at [OF that(1,3)] at [OF that(2,4)] by simp_all
      then show ?thesis by (rule D(5) [OF that(1,2)])
    qed
  qed
  show "f \<in> dom (streams w') \<longleftrightarrow> (\<exists>j<16. fp (ops[i := s] ! j) = Some f)" for f
  proof
    assume "f \<in> dom (streams w')"
    then consider "fp s = Some f" | j where "j < 16" "fp (ops ! j) = Some f" "fp (ops ! i) \<noteq> Some f"
      using dom [of f] D(6) [of f] by metis
    then show "\<exists>j<16. fp (ops[i := s] ! j) = Some f"
    proof cases
      case 1
      then have "fp (ops[i := s] ! i) = Some f" using nth [OF i] by simp
      with i show ?thesis by (intro exI conjI)
    next
      case 2
      then have "j \<noteq> i" by metis
      then have "fp (ops[i := s] ! j) = Some f" using nth [OF 2(1)] 2(2) by simp
      with 2(1) show ?thesis by (intro exI conjI)
    qed
  next
    assume "\<exists>j<16. fp (ops[i := s] ! j) = Some f"
    then obtain j where j: "j < 16" "fp (ops[i := s] ! j) = Some f" by (elim exE conjE)
    show "f \<in> dom (streams w')"
    proof (cases "j = i")
      case True
      then have "fp s = Some f" using j nth [OF j(1)] by simp
      then show ?thesis using dom [of f] by simp
    next
      case False
      then have fpj: "fp (ops ! j) = Some f" using j nth [OF j(1)] by simp
      have "fp (ops ! i) \<noteq> Some f" using D(5) [OF j(1) i fpj] False by metis
      moreover have "f \<in> dom (streams w)" using D(6) [of f] j(1) fpj by metis
      ultimately show ?thesis using dom [of f] by simp
    qed
  qed
qed

lemma inv_close:
  assumes "uploads_inv ops w" and "i < 16" and "fp (ops ! i) = Some f"
    and "dom (streams w') = dom (streams w) - {f}" and "next_stream w' = next_stream w"
  shows "uploads_inv (ops[i := zero_session]) w'"
proof (rule inv_put [OF assms(1,2)])
  note D = uploads_invD [OF assms(1)]
  show "ids_unique (ops[i := zero_session])"
    using session_table.put_free(1) [OF D(3) assms(2)] by (simp add: ids_unique_iff zero_session_def)
qed (use assms uploads_invD(7) [OF assms(1)] in \<open>auto simp: zero_session_def\<close>)

lemma inv_put_unused:
  assumes "uploads_inv ops w" and "i < 16" and "\<not> used (ops ! i)" and "\<not> used s" "fp s = None"
    and "same_streams w w'"
  shows "uploads_inv (ops[i := s]) w'"
proof (rule inv_put [OF assms(1,2)])
  note D = uploads_invD [OF assms(1)]
  show "ids_unique (ops[i := s])"
    using session_table.put_free(1) [OF D(3) assms(2)] assms(4) by (simp add: ids_unique_iff)
  have "fp (ops ! i) = None" using D(4) [OF assms(2)] assms(3) by simp
  then show "f \<in> dom (streams w') \<longleftrightarrow> fp s = Some f \<or> f \<in> dom (streams w) \<and> fp (ops ! i) \<noteq> Some f" for f
    using assms(5,6) by (simp add: same_streams_def)
qed (use assms uploads_invD(7) [OF assms(1)] in \<open>auto simp: same_streams_def\<close>)

lemma inv_put_same:
  assumes "uploads_inv ops w" and "i < 16" and "used (ops ! i)" and "used s" "fp s = fp (ops ! i)"
    and "transfer_id s = transfer_id (ops ! i)" and "same_streams w w'"
  shows "uploads_inv (ops[i := s]) w'"
proof (rule inv_put [OF assms(1,2)])
  note D = uploads_invD [OF assms(1)]
  have "find_session ops (transfer_id s) = Some i"
    using assms(2,3,6) session_table.find_iff [OF D(3)] by simp
  then show "ids_unique (ops[i := s])"
    using session_table.put_taken(1) [OF D(3) assms(2,4)] by (simp add: ids_unique_iff)
  show "used s \<longleftrightarrow> fp s \<noteq> None" using D(4) [OF assms(2)] assms(3-5) by simp
  show "j = i" if "fp s = Some f" "j < 16" "fp (ops ! j) = Some f" for f j
    using D(5) [OF that(2) assms(2) that(3)] that(1) assms(5) by simp
  show "f \<in> dom (streams w') \<longleftrightarrow> fp s = Some f \<or> f \<in> dom (streams w) \<and> fp (ops ! i) \<noteq> Some f" for f
    using assms(5,7) D(6) [of f] assms(2) by (auto simp: same_streams_def)
qed (use assms(7) uploads_invD(7) [OF assms(1)] in \<open>auto simp: same_streams_def\<close>)

lemma inv_open:
  assumes "uploads_inv ops w" and "i < 16" and "\<not> used (ops ! i)" and "used s" "fp s = Some (next_stream w)"
    and "find_session ops (transfer_id s) = None"
    and "dom (streams w') = insert (next_stream w) (dom (streams w))" "next_stream w' = next_stream w + 1"
  shows "uploads_inv (ops[i := s]) w'"
proof (rule inv_put [OF assms(1,2)])
  note D = uploads_invD [OF assms(1)]
  show "ids_unique (ops[i := s])"
    using session_table.put_taken(1) [OF D(3) assms(2,4)] assms(3,6) by (simp add: ids_unique_iff)
  show "used s \<longleftrightarrow> fp s \<noteq> None" using assms(4,5) by simp
  show "j = i" if "fp s = Some f" "j < 16" "fp (ops ! j) = Some f" for f j
  proof -
    have "f \<in> dom (streams w)" using D(6) [of f] that by blast
    from D(7) [OF this] that(1) assms(5) show ?thesis by simp
  qed
  have "fp (ops ! i) = None" using D(4) [OF assms(2)] assms(3) by simp
  then show "f \<in> dom (streams w') \<longleftrightarrow> fp s = Some f \<or> f \<in> dom (streams w) \<and> fp (ops ! i) \<noteq> Some f" for f
    using assms(5,7) by auto
  show "f < next_stream w'" if "f \<in> dom (streams w')" for f
  proof (cases "f = next_stream w")
    case True
    then show ?thesis using assms(8) by simp
  next
    case False
    then have "f \<in> dom (streams w)" using that assms(7) by simp
    from D(7) [OF this] show ?thesis using assms(8) by simp
  qed
qed

section \<open>The operations on the table\<close>

lemma sessions_SomeD:
  "sessions ops tid = Some s \<Longrightarrow> \<exists>i. find_session ops tid = Some i \<and> i < 16 \<and> s = ops ! i \<and> used s \<and> transfer_id s = tid"
  by (auto simp: sessions_def dest: find_session_Some)

lemma sessions_put_taken:
  assumes "uploads_inv ops w" and "i < 16" and "used s"
    and "find_session ops (transfer_id s) = Some i \<or> \<not> used (ops ! i) \<and> find_session ops (transfer_id s) = None"
  shows "sessions (ops[i := s]) = (sessions ops)(transfer_id s \<mapsto> s)"
  using session_table.put_taken(2) [OF uploads_invD(3) [OF assms(1)] assms(2-4)] by (simp add: sessions_view)

lemma sessions_put_free:
  assumes "uploads_inv ops w" and "i < 16" and "\<not> used s"
  shows "sessions (ops[i := s]) =
    (if used (ops ! i) then (sessions ops)(transfer_id (ops ! i) := None) else sessions ops)"
  using session_table.put_free(2) [OF uploads_invD(3) [OF assms(1)] assms(2,3)] by (simp add: sessions_view)

lemma sessions_drop:
  assumes "uploads_inv ops w" and "find_session ops tid = Some i"
  shows "sessions (ops[i := zero_session]) = (sessions ops)(tid := None)"
  using sessions_put_free [OF assms(1), of i zero_session] find_session_Some [OF assms(2)]
  by (simp add: zero_session_def)

text \<open>Closing the stream of a session, followed by calls on the tree only, and clearing the slot.\<close>

lemma inv_close_then:
  assumes "uploads_inv ops w" and "find_session ops tid = Some i" and "fp (ops ! i) = Some f"
    and "tree_only (snd (c_fclose f w)) w'"
  shows "uploads_inv (ops[i := zero_session]) w'"
  using inv_close [OF assms(1) _ assms(3) fclose_streams]  find_session_Some [OF assms(2)] assms(4)
  by (blast intro: inv_same_streams tree_only_same)

lemma abort_effect:
  assumes "uploads_inv ops w" and "usb_responder_file_abort_upload ops tid w = (r, ops', w')"
  shows "uploads_inv ops' w'" and "sessions ops' = (sessions ops)(tid := None)"
    and "r \<longleftrightarrow> sessions ops tid \<noteq> None"
proof -
  have "uploads_inv ops' w' \<and> sessions ops' = (sessions ops)(tid := None) \<and> (r \<longleftrightarrow> sessions ops tid \<noteq> None)"
  proof (cases "find_session ops tid")
    case None
    then have "sessions ops tid = None" by (simp add: sessions_def)
    with None assms show ?thesis by (auto simp: usb_responder_file_abort_upload_def fun_upd_idem)
  next
    case (Some i)
    then obtain f where f: "fp (ops ! i) = Some f"
      using find_session_Some uploads_invD(4) [OF assms(1), of i] by auto
    have "uploads_inv (ops[i := zero_session]) (snd (c_unlink (temp_path (ops ! i)) (snd (c_fclose f w))))"
      using assms(1) Some f by (rule inv_close_then) simp
    then show ?thesis using assms(2) Some f sessions_drop [OF assms(1) Some]
      by (auto simp: usb_responder_file_abort_upload_def sessions_def Let_def)
  qed
  then show "uploads_inv ops' w'" "sessions ops' = (sessions ops)(tid := None)"
    "r \<longleftrightarrow> sessions ops tid \<noteq> None" by blast+
qed

lemma finish_effect:
  assumes "uploads_inv ops w" and "usb_responder_file_finish_upload ops tid w = (r, ops', w')"
  shows "uploads_inv ops' w'" and "sessions ops' = (sessions ops)(tid := None)"
    and "r \<Longrightarrow> sessions ops tid \<noteq> None"
proof -
  have "uploads_inv ops' w' \<and> sessions ops' = (sessions ops)(tid := None) \<and> (r \<longrightarrow> sessions ops tid \<noteq> None)"
  proof (cases "find_session ops tid")
    case None
    then have "sessions ops tid = None" by (simp add: sessions_def)
    moreover have "uploads_inv ops (usb_responder_set_last_error m w)" for m
      using assms(1) by (rule inv_same_streams) (simp add: quiet_same)
    ultimately show ?thesis using None assms(2) by (auto simp: usb_responder_file_finish_upload_def fun_upd_idem)
  next
    case (Some i)
    then obtain f where f: "fp (ops ! i) = Some f"
      using find_session_Some uploads_invD(4) [OF assms(1), of i] by auto
    let ?s = "ops ! i" and ?w1 = "snd (c_fclose f w)"
    have "ops' = ops[i := zero_session] \<and> tree_only ?w1 w'"
    proof -
      obtain ok w2 where rn: "c_rename (temp_path ?s) (final_path ?s) ?w1 = (ok, w2)" by (metis surj_pair)
      note t2 = tree_ops_tree_only(2) [OF rn]
      obtain ok3 w3 where cm: "c_chmod (final_path ?s) (file_mode ?s) w2 = (ok3, w3)" by (metis surj_pair)
      note t3 = tree_only_trans [OF t2 tree_ops_tree_only(3) [OF cm]]
      have fail: "tree_only ?w1 (snd (c_unlink q (set_file_error p q' v)))" if "tree_only ?w1 v" for p q q' v
        using that quiet_tree_only [OF quiet_set_file_error] tree_only_snd(1) by (blast intro: tree_only_trans)
      show ?thesis
        using assms(2) Some f rn cm t2 t3 fail
        by (cases ok; cases ok3; cases "apply_perm ?s") (auto simp: usb_responder_file_finish_upload_def Let_def)
    qed
    then show ?thesis
      using inv_close_then [OF assms(1) Some f] sessions_drop [OF assms(1) Some] Some by (auto simp: sessions_def)
  qed
  then show "uploads_inv ops' w'" "sessions ops' = (sessions ops)(tid := None)"
    "r \<Longrightarrow> sessions ops tid \<noteq> None" by blast+
qed

lemma append_effect:
  assumes "uploads_inv ops w" and "usb_responder_file_append_upload_chunk ops tid chunk w = (r, ops', w')"
  shows "uploads_inv ops' w'"
    and "r \<Longrightarrow> \<exists>s d n. chunk = Some d \<and> sessions ops tid = Some s \<and>
      sessions ops' = (sessions ops)(tid \<mapsto> s\<lparr>bytes_written := bytes_written s + of_nat (length d), synced_bytes := n\<rparr>)"
    and "\<not> r \<Longrightarrow> ops' = ops"
proof -
  have quiet: "uploads_inv ops (usb_responder_set_last_error m w)" for m
    using assms(1) by (rule inv_same_streams) (simp add: quiet_same)
  have "uploads_inv ops' w' \<and>
    (r \<longrightarrow> (\<exists>s d n. chunk = Some d \<and> sessions ops tid = Some s \<and>
      sessions ops' = (sessions ops)(tid \<mapsto> s\<lparr>bytes_written := bytes_written s + of_nat (length d), synced_bytes := n\<rparr>)))
    \<and> (\<not> r \<longrightarrow> ops' = ops)"
  proof (cases "\<exists>d i. chunk = Some d \<and> d \<noteq> [] \<and> find_session ops tid = Some i")
    case False
    then show ?thesis using assms(2) quiet
      by (auto simp: usb_responder_file_append_upload_chunk_def split: option.splits if_splits)
  next
    case True
    then obtain d i where d: "chunk = Some d" "d \<noteq> []" "find_session ops tid = Some i" by blast
    note i = find_session_Some [OF d(3)]
    then obtain f where f: "fp (ops ! i) = Some f" using uploads_invD(4) [OF assms(1), of i] by auto
    obtain n w1 where fw: "c_fwrite d f w = (n, w1)" by (metis surj_pair)
    have st1: "same_streams w w1" using fwrite_same [of w d f] fw by simp
    show ?thesis
    proof (cases "n = length d")
      case False
      then have "r = False" "ops' = ops" "w' = set_file_error ''fwrite'' (temp_path (ops ! i)) w1"
        using assms(2) d f fw by (auto simp: usb_responder_file_append_upload_chunk_def)
      moreover have "same_streams w w'"
        using st1 quiet_same [OF quiet_set_file_error] calculation(3) by (auto intro: same_streams_trans)
      ultimately show ?thesis using inv_same_streams [OF assms(1)] by blast
    next
      case True
      let ?b = "bytes_written (ops ! i) + of_nat (length d)"
      have "\<exists>m. r \<and> ops' = ops[i := (ops ! i)\<lparr>bytes_written := ?b, synced_bytes := m\<rparr>] \<and> same_streams w w'"
      proof (cases "0x100000 \<le> ?b - synced_bytes (ops ! i)")
        case True
        then show ?thesis using assms(2) d f fw \<open>n = length d\<close> same_streams_trans [OF st1 pace_same]
          by (auto simp: usb_responder_file_append_upload_chunk_def Let_def intro!: exI [of _ ?b])
      next
        case False
        have "(ops ! i)\<lparr>bytes_written := ?b\<rparr> = (ops ! i)\<lparr>bytes_written := ?b, synced_bytes := synced_bytes (ops ! i)\<rparr>"
          by simp
        with False show ?thesis using assms(2) d f fw \<open>n = length d\<close> st1
          by (auto simp: usb_responder_file_append_upload_chunk_def Let_def intro!: exI [of _ "synced_bytes (ops ! i)"])
      qed
      then obtain m where m: "r" "ops' = ops[i := (ops ! i)\<lparr>bytes_written := ?b, synced_bytes := m\<rparr>]" "same_streams w w'"
        by blast
      have "uploads_inv ops' w'" unfolding m(2)
        by (rule inv_put_same [OF assms(1)]) (use i m(3) in simp_all)
      moreover have "sessions ops' = (sessions ops)(tid \<mapsto> (ops ! i)\<lparr>bytes_written := ?b, synced_bytes := m\<rparr>)"
        unfolding m(2) using sessions_put_taken [OF assms(1), of i "(ops ! i)\<lparr>bytes_written := ?b, synced_bytes := m\<rparr>"] i d(3)
        by simp
      ultimately show ?thesis using m(1) d by (auto simp: sessions_def)
    qed
  qed
  then show "uploads_inv ops' w'"
    and "r \<Longrightarrow> \<exists>s d n. chunk = Some d \<and> sessions ops tid = Some s \<and>
      sessions ops' = (sessions ops)(tid \<mapsto> s\<lparr>bytes_written := bytes_written s + of_nat (length d), synced_bytes := n\<rparr>)"
    and "\<not> r \<Longrightarrow> ops' = ops" by blast+
qed

text \<open>What the checks before the opening guarantee.\<close>

definition upload_target :: "upload_session \<Rightarrow> string \<Rightarrow> bool" where
  "upload_target s rel \<longleftrightarrow>
     final_path s = render (comps (c_str rel)) \<and> temp_path s = final_path s @ ''.part'' \<and>
     relative_path s = c_str rel \<and> list_all plain_name (comps (c_str rel)) \<and> length (temp_path s) < 4096"

definition perm_given :: "string option \<Rightarrow> bool" where
  "perm_given perm = (case perm of None \<Rightarrow> False | Some p \<Rightarrow> c_str p \<noteq> [])"

lemma parse_perm_err_only: "parse_perm_octal p w = (r, w') \<Longrightarrow> err_only w w' \<and> (r \<noteq> None \<longrightarrow> w' = w)"
  by (auto simp: parse_perm_octal_def Let_def split: option.splits if_splits prod.splits)

lemma prepare_upload_spec:
  assumes run: "prepare_upload s0 rel desire perm w = (ok, s, w')" and "used s0"
  shows "quiet w w'" and "fp s = fp s0" and "used s = ok" and "transfer_id s = transfer_id s0"
    and "ok \<Longrightarrow> upload_target s rel" and "ok \<Longrightarrow> storage_of (comps (c_str rel)) = STORAGE_SD \<Longrightarrow> sd_present w"
    and "ok \<Longrightarrow> apply_perm s = perm_given perm"
    and "ok \<Longrightarrow> perm_given perm \<Longrightarrow> fst (parse_perm_octal perm w) = Some (file_mode s)"
proof -
  let ?s = "s0\<lparr>apply_perm := False, file_mode := 0x1A4\<rparr>"
  obtain mode w1 where m: "(if perm_given perm then parse_perm_octal perm w else (None, w)) = (mode, w1)" by (metis surj_pair)
  have q1: "quiet w w1" "mode \<noteq> None \<Longrightarrow> w1 = w" "\<not> perm_given perm \<Longrightarrow> mode = None \<and> w1 = w"
    using m parse_perm_err_only [of perm w mode w1] by (auto split: if_splits intro: quiet_err_only)
  have unf: "prepare_upload s0 rel desire perm w = (if perm_given perm \<and> mode = None then (False, ?s\<lparr>used := False\<rparr>, w1) else
      let s1 = (case mode of None \<Rightarrow> ?s | Some m \<Rightarrow> ?s\<lparr>file_mode := m, apply_perm := True\<rparr>)
           in case build_path (Some rel) 4096 w1 of
                (Inl out, w2) \<Rightarrow> (False, s1\<lparr>final_path := out, used := False\<rparr>, w2)
              | (Inr (final, storage), w2) \<Rightarrow>
                  let s2 = s1\<lparr>final_path := final\<rparr>
                  in case path_storage_matches_desire storage desire w2 of
                       (False, w3) \<Rightarrow> (False, s2\<lparr>used := False\<rparr>, w3)
                     | (True, w3) \<Rightarrow>
                         (case ensure_storage_writeable storage w3 of
                            (False, w4) \<Rightarrow> (False, s2\<lparr>used := False\<rparr>, w4)
                          | (True, w4) \<Rightarrow>
                              let s3 = s2\<lparr>relative_path := snprintf_buf 4096 (c_str rel)\<rparr>
                              in if 4096 \<le> length (c_str rel) then
                                   (False, s3\<lparr>used := False\<rparr>,
                                    usb_responder_set_last_error (Some ''relative path too long'') w4)
                                 else
                                   let s4 = s3\<lparr>temp_path := snprintf_buf 4096 (final @ ''.part'')\<rparr>
                                   in if 4096 \<le> length (final @ ''.part'') then
                                        (False, s4\<lparr>used := False\<rparr>,
                                         usb_responder_set_last_error (Some ''temp path too long'') w4)
                                      else (True, s4, w4)))"
    unfolding prepare_upload_def perm_given_def [symmetric] m Let_def by simp
  have "quiet w w' \<and> fp s = fp s0 \<and> used s = ok \<and> transfer_id s = transfer_id s0 \<and>
    (ok \<longrightarrow> upload_target s rel \<and> (storage_of (comps (c_str rel)) = STORAGE_SD \<longrightarrow> sd_present w) \<and>
      apply_perm s = perm_given perm \<and>
      (perm_given perm \<longrightarrow> fst (parse_perm_octal perm w) = Some (file_mode s)))"
  proof (cases "perm_given perm \<and> mode = None")
    case True
    with run unf q1(1) show ?thesis by auto
  next
    case given: False
    define s1 where "s1 = (case mode of None \<Rightarrow> ?s | Some m \<Rightarrow> ?s\<lparr>file_mode := m, apply_perm := True\<rparr>)"
    have w1: "w1 = w" using given q1(2,3) by auto
    have s1: "fp s1 = fp s0" "used s1" "transfer_id s1 = transfer_id s0" "apply_perm s1 = perm_given perm"
      "perm_given perm \<Longrightarrow> fst (parse_perm_octal perm w) = Some (file_mode s1)"
      using assms(2) given q1(3) m by (auto simp: s1_def split: option.splits)
    have "(2 :: nat) \<le> 4096" by simp
    then show ?thesis
    proof (cases rule: build_path_cases [of 4096 rel w])
      case (bad out w2)
      with run unf given s1 show ?thesis by (auto simp: w1 s1_def [symmetric] Let_def intro: quiet_err_only)
    next
      case ok: ok
      let ?f = "render (comps (c_str rel))" and ?st = "storage_of (comps (c_str rel))"
      obtain ok3 w3 where pm: "path_storage_matches_desire ?st desire w = (ok3, w3)" by (metis surj_pair)
      note pm' = path_storage_matches_desire_quiet [OF pm]
      obtain ok4 w4 where en: "ensure_storage_writeable ?st w3 = (ok4, w4)" by (metis surj_pair)
      note en' = ensure_storage_quiet [OF en]
      have q3: "quiet w w3" using pm' by (auto intro: quiet_err_only)
      have q4: "quiet w w4" using q3 en'(1) by (rule quiet_trans)
      have present: "ok4 \<Longrightarrow> ?st = STORAGE_SD \<Longrightarrow> sd_present w"
        using en'(2) quiet_keeps(4) [OF q3] by (simp add: sd_present_def)
      consider "\<not> ok3" | "ok3" "\<not> ok4" | "ok3" "ok4" "4096 \<le> length (c_str rel)"
        | "ok3" "ok4" "length (c_str rel) < 4096" "4096 \<le> length (?f @ ''.part'')"
        | "ok3" "ok4" "length (c_str rel) < 4096" "length (?f @ ''.part'') < 4096" by linarith
      then show ?thesis
      proof cases
        case 1
        with run unf given ok(1) pm s1 q3 show ?thesis by (auto simp: w1 s1_def [symmetric] Let_def)
      next
        case 2
        with run unf given ok(1) pm en s1 q4 show ?thesis by (auto simp: w1 s1_def [symmetric] Let_def)
      next
        case 3
        with run unf given ok(1) pm en s1 q4 show ?thesis
          by (auto simp: w1 s1_def [symmetric] Let_def intro: quiet_trans)
      next
        case 4
        with run unf given ok(1) pm en s1 q4 show ?thesis
          by (auto simp: w1 s1_def [symmetric] Let_def intro: quiet_trans)
      next
        case 5
        then have "ok" "s = s1\<lparr>final_path := ?f, relative_path := c_str rel, temp_path := ?f @ ''.part''\<rparr>" "w' = w4"
          using run unf given ok(1) pm en by (simp_all add: w1 s1_def [symmetric] Let_def snprintf_fits)
        with s1 q4 present ok(4) 5 show ?thesis by (simp add: upload_target_def)
      qed
    qed
  qed
  then show "quiet w w'" "fp s = fp s0" "used s = ok" "transfer_id s = transfer_id s0"
    "ok \<Longrightarrow> upload_target s rel" "ok \<Longrightarrow> storage_of (comps (c_str rel)) = STORAGE_SD \<Longrightarrow> sd_present w"
    "ok \<Longrightarrow> apply_perm s = perm_given perm"
    "ok \<Longrightarrow> perm_given perm \<Longrightarrow> fst (parse_perm_octal perm w) = Some (file_mode s)" by blast+
qed

lemma begin_effect:
  assumes inv: "uploads_inv ops w" and run: "usb_responder_file_begin_upload ops tid (Some rel) desire perm w = (r, ops', w')"
  shows "uploads_inv ops' w'"
    and "\<not> r \<Longrightarrow> sessions ops' = (sessions ops)(tid := None)"
    and "r \<Longrightarrow> \<exists>s. sessions ops' = (sessions ops)(tid \<mapsto> s) \<and> upload_target s rel \<and>
      bytes_written s = 0 \<and> synced_bytes s = 0 \<and> apply_perm s = perm_given perm"
proof -
  obtain x ops1 w1 where ab: "(if find_session ops tid \<noteq> None
      then usb_responder_file_abort_upload ops tid w else (True, ops, w)) = (x, ops1, w1)" by (metis surj_pair)
  have ops1: "uploads_inv ops1 w1" "sessions ops1 = (sessions ops)(tid := None)"
  proof -
    have "uploads_inv ops1 w1 \<and> sessions ops1 = (sessions ops)(tid := None)"
    proof (cases "find_session ops tid")
      case None
      then have "sessions ops tid = None" by (simp add: sessions_def)
      with None ab inv show ?thesis by (auto simp: fun_upd_idem)
    next
      case (Some i)
      then show ?thesis using ab abort_effect(1,2) [OF inv] by simp
    qed
    then show "uploads_inv ops1 w1" "sessions ops1 = (sessions ops)(tid := None)" by blast+
  qed
  have none: "find_session ops1 tid = None" using fun_cong [OF ops1(2), of tid] by (simp add: sessions_def)
  have "uploads_inv ops' w' \<and> (\<not> r \<longrightarrow> sessions ops' = (sessions ops)(tid := None)) \<and>
    (r \<longrightarrow> (\<exists>s. sessions ops' = (sessions ops)(tid \<mapsto> s) \<and> upload_target s rel \<and>
      bytes_written s = 0 \<and> synced_bytes s = 0 \<and> apply_perm s = perm_given perm))"
  proof (cases "alloc_session ops1")
    case None
    then have "r = False" "ops' = ops1" "same_streams w1 w'"
      using run ab by (auto simp: usb_responder_file_begin_upload_def intro: quiet_same)
    then show ?thesis using ops1 inv_same_streams by blast
  next
    case (Some p)
    obtain i ops2 where p: "p = (i, ops2)" by (cases p)
    have i: "i < 16" "\<not> used (ops1 ! i)" "ops2 = ops1[i := (ops1 ! i)\<lparr>used := True\<rparr>]"
      using alloc_session_Some Some p by blast+
    have len: "length ops1 = 16" using uploads_invD(2) [OF ops1(1)] .
    have fp0: "fp (ops1 ! i) = None" using uploads_invD(4) [OF ops1(1) i(1)] i(2) by simp
    have ops2: "ops2 ! i = (ops1 ! i)\<lparr>used := True\<rparr>" "\<And>s. ops2[i := s] = ops1[i := s]"
      using i len by simp_all
    obtain ok s w2 where pr: "prepare_upload (ops2 ! i) rel desire perm w1 = (ok, s, w2)" by (metis surj_pair)
    note P = prepare_upload_spec [OF pr]
    have used2: "used (ops2 ! i)" by (simp add: ops2(1))
    note P = P [OF used2]
    have fps: "fp s = None" using P(2) ops2(1) fp0 by simp
    have unused: "uploads_inv (ops1[i := s']) v \<and> sessions (ops1[i := s']) = (sessions ops)(tid := None)"
      if "\<not> used s'" "fp s' = None" "same_streams w1 v" for s' v
      using inv_put_unused [OF ops1(1) i(1,2) that] sessions_put_free [OF ops1(1) i(1) that(1)] i(2) ops1(2) by simp
    show ?thesis
    proof (cases ok)
      case False
      then have "r = False" "ops' = ops1[i := s]" "w' = w2"
        using run ab Some p pr ops2(2) by (simp_all add: usb_responder_file_begin_upload_def)
      then show ?thesis using unused [OF _ fps quiet_same [OF P(1)]] P(3) False by simp
    next
      case True
      obtain q w3 where op: "c_fopen_wb (temp_path s) w2 = (q, w3)" by (metis surj_pair)
      note st = fopen_streams [OF op]
      have s12: "same_streams w1 w2" using P(1) by (rule quiet_same)
      show ?thesis
      proof (cases q)
        case None
        then have "r = False" "ops' = ops1[i := s\<lparr>fp := None, used := False\<rparr>]"
            "w' = set_file_error ''fopen'' (temp_path s) w3"
          using run ab Some p pr ops2(2) True op by (simp_all add: usb_responder_file_begin_upload_def)
        moreover have "same_streams w2 w3" using st None by simp
        then have "same_streams w1 w'" unfolding calculation(3)
          by (rule same_streams_trans [OF same_streams_trans [OF s12] quiet_same [OF quiet_set_file_error]])
        ultimately show ?thesis using unused [of "s\<lparr>fp := None, used := False\<rparr>" w'] by simp
      next
        case (Some f)
        let ?s = "s\<lparr>fp := Some f, transfer_id := tid, bytes_written := 0, synced_bytes := 0\<rparr>"
        have res: "r" "ops' = ops1[i := ?s]" "w' = w3"
          using run ab \<open>alloc_session ops1 = Some p\<close> p pr ops2(2) True op Some
          by (simp_all add: usb_responder_file_begin_upload_def)
        have w3: "f = next_stream w1" "dom (streams w3) = insert (next_stream w1) (dom (streams w1))"
          "next_stream w3 = next_stream w1 + 1"
          using st s12 Some by (simp_all add: same_streams_def)
        have us: "used ?s" using P(3) True by simp
        have "uploads_inv ops' w'" unfolding res(2,3)
          by (rule inv_open [OF ops1(1) i(1,2) us]) (simp_all add: w3 none)
        moreover have "sessions ops' = (sessions ops)(tid \<mapsto> ?s)"
          unfolding res(2) using sessions_put_taken [OF ops1(1) i(1) us] none i(2) ops1(2) by simp
        moreover have "upload_target ?s rel" using P(5) [OF True] by (auto simp: upload_target_def)
        ultimately show ?thesis using res(1) P(7) [OF True] by (auto intro!: exI [of _ ?s])
      qed
    qed
  qed
  then show "uploads_inv ops' w'" "\<not> r \<Longrightarrow> sessions ops' = (sessions ops)(tid := None)"
    "r \<Longrightarrow> \<exists>s. sessions ops' = (sessions ops)(tid \<mapsto> s) \<and> upload_target s rel \<and>
      bytes_written s = 0 \<and> synced_bytes s = 0 \<and> apply_perm s = perm_given perm" by blast+
qed

section \<open>Sequences of operations\<close>

datatype upload_call =
    BeginUpload u32 "string option" "string option" "string option"
  | AppendChunk u32 "byte list option"
  | FinishUpload u32
  | AbortUpload u32

fun upload_step :: "upload_call \<Rightarrow> file_ops \<times> 'a fs_world_scheme \<Rightarrow> file_ops \<times> 'a fs_world_scheme" where
  "upload_step (BeginUpload tid rel desire perm) (ops, w) = snd (usb_responder_file_begin_upload ops tid rel desire perm w)"
| "upload_step (AppendChunk tid d) (ops, w) = snd (usb_responder_file_append_upload_chunk ops tid d w)"
| "upload_step (FinishUpload tid) (ops, w) = snd (usb_responder_file_finish_upload ops tid w)"
| "upload_step (AbortUpload tid) (ops, w) = snd (usb_responder_file_abort_upload ops tid w)"

definition upload_run :: "upload_call list \<Rightarrow> file_ops \<times> 'a fs_world_scheme \<Rightarrow> file_ops \<times> 'a fs_world_scheme" where
  "upload_run cs st = fold upload_step cs st"

lemma upload_step_inv: "uploads_inv ops w \<Longrightarrow> upload_step c (ops, w) = (ops', w') \<Longrightarrow> uploads_inv ops' w'"
proof (cases c)
  case (BeginUpload tid rel desire perm)
  assume inv: "uploads_inv ops w" and run: "upload_step c (ops, w) = (ops', w')"
  show ?thesis
  proof (cases rel)
    case None
    with run BeginUpload have "ops' = ops" "w' = usb_responder_set_last_error (Some ''invalid upload session'') w"
      by (simp_all add: usb_responder_file_begin_upload_def)
    with inv_same_streams [OF inv quiet_same [OF quiet_set_last_error]] show ?thesis by simp
  next
    case (Some r)
    obtain x where "usb_responder_file_begin_upload ops tid (Some r) desire perm w = (x, ops', w')"
      using run BeginUpload Some by (metis prod.collapse upload_step.simps(1))
    with inv show ?thesis by (rule begin_effect(1))
  qed
qed (metis upload_step.simps prod.collapse append_effect(1) finish_effect(1) abort_effect(1))+

lemma upload_run_inv: "uploads_inv ops w \<Longrightarrow> upload_run cs (ops, w) = (ops', w') \<Longrightarrow> uploads_inv ops' w'"
proof (induction cs arbitrary: ops w)
  case Nil
  then show ?case by (simp add: upload_run_def)
next
  case (Cons c cs)
  obtain ops1 w1 where st: "upload_step c (ops, w) = (ops1, w1)" by (metis surj_pair)
  with Cons.prems have "upload_run cs (ops1, w1) = (ops', w')" by (simp add: upload_run_def)
  with upload_step_inv [OF Cons.prems(1) st] show ?case by (rule Cons.IH)
qed

lemma init_inv: "streams w = (\<lambda>_. None) \<Longrightarrow> uploads_inv usb_responder_file_ops_init w"
  by (rule uploads_invI) (auto simp: ids_unique_def usb_responder_file_ops_init_def zero_session_def)

lemma shutdown_streams:
  "dom (streams (shutdown_sessions ss w)) = dom (streams w) - {f. \<exists>s\<in>set ss. used s \<and> fp s = Some f}"
proof (induction ss arbitrary: w)
  case Nil
  then show ?case by simp
next
  case (Cons s ss)
  have keep: "dom (streams (snd (c_unlink p v))) = dom (streams v)" for p and v :: "'a fs_world_scheme"
    using tree_only_keeps(1) [OF tree_only_snd(1) [of v p]] by simp
  show ?case
  proof (cases "fp s")
    case None
    then show ?thesis by (auto simp: Cons.IH keep)
  next
    case (Some f)
    then show ?thesis by (auto simp: Cons.IH keep fclose_streams)
  qed
qed

end
