(* ===== verification/Receive.thy ===== *)
theory Receive
  imports Frame_Io Uploads
begin

text \<open>
  The receiving half of \<open>src/responder.c\<close>: the configuration and the run-time state of the
  responder, and the buffer in which it reassembles frames from the bulk OUT endpoint
  (\<open>rx_reserve\<close>, \<open>rx_read_some\<close>, \<open>read_frame_buffered\<close>). The buffer may hold more than one frame
  or a part of one; what is proved is that no byte is lost, repeated or reordered between frames.
\<close>

section \<open>State\<close>

abbreviation (input) USB_RESPONDER_MAX_PAYLOAD :: nat where "USB_RESPONDER_MAX_PAYLOAD \<equiv> 8388608"

record usb_responder_config =
  ffs_mount :: "string option"
  default_timeout_ms :: u32
  cfg_max_stdout :: u32
  cfg_max_stderr :: u32
  verbose :: bool

text \<open>
  \<open>rx_buf\<close> holds the \<open>rx_size\<close> bytes in use; the block behind it has \<open>rx_cap\<close> bytes and is a null
  pointer exactly while \<open>rx_cap\<close> is 0.
\<close>

record responder_runtime =
  cfg :: usb_responder_config
  files :: file_ops
  ep0_fd :: int
  ep_in_fd :: int
  ep_out_fd :: int
  rx_buf :: "byte list"
  rx_cap :: nat
  ep_shutdown :: bool

definition rx_size :: "responder_runtime \<Rightarrow> nat" where
  "rx_size rt = length (rx_buf rt)"

section \<open>The code\<close>

definition is_ep_shutdown_errno :: "errno \<Rightarrow> bool" where
  "is_ep_shutdown_errno e \<longleftrightarrow> e = ESHUTDOWN \<or> e = ENODEV \<or> e = EPIPE \<or> e = ECONNRESET"

definition rx_reserve ::
  "responder_runtime \<Rightarrow> nat \<Rightarrow> 'a io_world_scheme \<Rightarrow> bool \<times> responder_runtime \<times> 'a io_world_scheme" where
  "rx_reserve rt needed w =
     (if needed \<le> rx_cap rt then (True, rt, w)
      else
        let new_cap = grow_cap (if rx_cap rt \<noteq> 0 then rx_cap rt else 4096) needed
        in case c_realloc (rx_cap rt \<noteq> 0) w of
             (False, w1) \<Rightarrow> (False, rt, usb_responder_set_last_error (Some ''rx buffer oom'') w1)
           | (True, w1) \<Rightarrow> (True, rt\<lparr>rx_cap := new_cap\<rparr>, w1))"

text \<open>The loop of \<open>rx_read_some\<close> up to the first read that is not interrupted.\<close>

datatype rx_event = PollError errno | PollShutdown | Received "errno + byte list"

function rx_wait :: "'a io_world_scheme \<Rightarrow> rx_event io \<times> 'a io_world_scheme" where
  "rx_wait w =
     (case sys_poll w of
        (Blocked, w1) \<Rightarrow> (Blocked, w1)
      | (Done (Inl e), w1) \<Rightarrow> if e = EINTR then rx_wait w1 else (Done (PollError e), w1)
      | (Done (Inr rs), w1) \<Rightarrow>
          let ev = revents_at rs 0
          in if poll_count 1 rs = 0 then rx_wait w1
             else if pollhup ev \<or> pollerr ev \<or> pollnval ev then (Done PollShutdown, w1)
             else (case sys_read USB_RESPONDER_IO_CHUNK w1 of
                     (Blocked, w2) \<Rightarrow> (Blocked, w2)
                   | (Done r, w2) \<Rightarrow> if r = Inl EINTR then rx_wait w2 else (Done (Received r), w2)))"
  by pat_completeness auto
termination
  by (relation "measure (\<lambda>w. length (pscript w))")
    (auto simp: sys_poll_def sys_read_def split: list.splits pout.splits rout.splits)

declare rx_wait.simps [simp del]

definition rx_read_some ::
  "responder_runtime \<Rightarrow> 'a io_world_scheme \<Rightarrow> (bool \<times> responder_runtime) io \<times> 'a io_world_scheme" where
  "rx_read_some rt w =
     (case c_malloc w of
        (False, w1) \<Rightarrow> (Done (False, rt), usb_responder_set_last_error (Some ''rx read buffer oom'') w1)
      | (True, w1) \<Rightarrow>
          (case rx_wait w1 of
             (Blocked, w2) \<Rightarrow> (Blocked, w2)
           | (Done (PollError e), w2) \<Rightarrow>
               (Done (False, rt), c_free True (usb_responder_set_last_error
                  (Some (snprintf_buf 256 (''ep_out poll: '' @ strerr w2 e))) w2))
           | (Done PollShutdown, w2) \<Rightarrow>
               (Done (False, rt\<lparr>ep_shutdown := True\<rparr>),
                c_free True (usb_responder_set_last_error (Some ''ep_out poll shutdown'') w2))
           | (Done (Received (Inl e)), w2) \<Rightarrow>
               (Done (False, if is_ep_shutdown_errno e then rt\<lparr>ep_shutdown := True\<rparr> else rt),
                c_free True (usb_responder_set_last_error
                  (Some (snprintf_buf 256 (''ep_out read: '' @ strerr w2 e))) w2))
           | (Done (Received (Inr d)), w2) \<Rightarrow>
               if d = [] then
                 (Done (False, rt), c_free True (usb_responder_set_last_error (Some ''ep_out EOF'') w2))
               else
                 (case rx_reserve rt (rx_size rt + length d) w2 of
                    (False, rt1, w3) \<Rightarrow> (Done (False, rt1), c_free True w3)
                  | (True, rt1, w3) \<Rightarrow> (Done (True, rt1\<lparr>rx_buf := rx_buf rt1 @ d\<rparr>), c_free True w3))))"

lemma rx_wait_polls: "rx_wait w = (Done r, w') \<Longrightarrow> length (pscript w') < length (pscript w)"
proof (induction w rule: rx_wait.induct)
  case (1 w)
  obtain p w1 where p: "sys_poll w = (p, w1)" by (metis surj_pair)
  have pl: "p \<noteq> Blocked \<Longrightarrow> length (pscript w1) < length (pscript w)"
    using p by (auto simp: sys_poll_def split: list.splits pout.splits)
  have rl: "sys_read n w1 = (r, w2) \<Longrightarrow> pscript w2 = pscript w1" for n r w2
    by (auto simp: sys_read_def split: list.splits rout.splits)
  show ?case
  proof (cases p)
    case Blocked
    then show ?thesis using 1 p by (subst (asm) rx_wait.simps) simp
  next
    case (Done x)
    have less: "length (pscript w1) < length (pscript w)" using pl Done by simp
    show ?thesis
    proof (cases x)
      case (Inl e)
      then show ?thesis using "1.IH"(1) [OF p [symmetric] Done Inl] "1.prems" p Done less
        by (subst (asm) (2) rx_wait.simps) (auto split: if_splits)
    next
      case (Inr rs)
      obtain q w2 where q: "sys_read 16384 w1 = (q, w2)" by (metis surj_pair)
      show ?thesis
      proof (cases q)
        case Blocked
        then show ?thesis using "1.IH"(2) [OF p [symmetric] Done Inr refl] "1.prems" p q Done Inr less
          by (subst (asm) (2) rx_wait.simps) (auto simp: Let_def split: if_splits)
      next
        case D2: (Done y)
        show ?thesis using "1.IH"(2) [OF p [symmetric] Done Inr refl] "1.IH"(3) [OF p [symmetric] Done Inr refl _ _ q [symmetric] D2]
            "1.prems" p q Done Inr D2 less rl [OF q]
          by (subst (asm) (3) rx_wait.simps) (auto simp: Let_def split: if_splits)
      qed
    qed
  qed
qed

text \<open>The two loops that read until \<open>n\<close> bytes are buffered.\<close>

lemma rx_read_some_polls: "rx_read_some rt w = (Done (True, rt'), w') \<Longrightarrow> length (pscript w') < length (pscript w)"
proof -
  assume run: "rx_read_some rt w = (Done (True, rt'), w')"
  show ?thesis
  proof (cases rule: c_malloc_cases [of w])
    case (fail w1)
    then show ?thesis using run by (simp add: rx_read_some_def)
  next
    case (ok w1)
    obtain r w2 where wt: "rx_wait w1 = (r, w2)" by (metis surj_pair)
    then obtain d where r: "r = Done (Received (Inr d))" "d \<noteq> []"
      using run ok(1) by (auto simp: rx_read_some_def split: io.splits rx_event.splits sum.splits if_splits)
    obtain b rt1 w3 where rs: "rx_reserve rt (rx_size rt + length d) w2 = (b, rt1, w3)" by (metis prod_cases3)
    have "pscript w3 = pscript w2"
      using rs by (cases rule: c_realloc_cases [of "rx_cap rt \<noteq> 0" w2])
        (auto simp: rx_reserve_def Let_def usb_responder_set_last_error_def mem_only_keeps(4) split: if_splits)
    moreover have "w' = c_free True w3" using run ok(1) wt r rs by (cases b) (simp_all add: rx_read_some_def)
    ultimately show ?thesis
      using rx_wait_polls [of w1] wt r mem_only_keeps(4) [OF ok(2)] by (simp add: c_free_def)
  qed
qed

function rx_fill ::
  "nat \<Rightarrow> responder_runtime \<Rightarrow> 'a io_world_scheme \<Rightarrow> (bool \<times> responder_runtime) io \<times> 'a io_world_scheme" where
  "rx_fill n rt w =
     (if rx_size rt < n then
        (case rx_read_some rt w of
           (Blocked, w1) \<Rightarrow> (Blocked, w1)
         | (Done (ok, rt1), w1) \<Rightarrow> if ok then rx_fill n rt1 w1 else (Done (False, rt1), w1))
      else (Done (True, rt), w))"
  by pat_completeness auto
termination
  by (relation "measure (\<lambda>(n, rt, w). length (pscript w))") (auto dest: rx_read_some_polls [OF sym])

declare rx_fill.simps [simp del]

text \<open>The header fields that decide how much belongs to the frame.\<close>

definition rx_peek :: "byte list \<Rightarrow> (u32 \<times> u16 \<times> u32) cres" where
  "rx_peek buf =
     bind_sum (read_le32 buf 0) (\<lambda>mg.
     bind_sum (read_le16 buf 4) (\<lambda>vs.
     bind_sum (read_le32 buf 16) (\<lambda>len. Inr (mg, vs, len))))"

text \<open>The frame at the front of the buffer is copied out, removed and decoded.\<close>

definition rx_take_frame ::
  "nat \<Rightarrow> responder_runtime \<Rightarrow> 'a io_world_scheme \<Rightarrow> (frame cres \<times> responder_runtime) \<times> 'a io_world_scheme" where
  "rx_take_frame frame_size rt w =
     (case c_malloc w of
        (False, w1) \<Rightarrow> ((Inl NoMem, rt), usb_responder_set_last_error (Some ''frame buffer oom'') w1)
      | (True, w1) \<Rightarrow>
          (case load (rx_buf rt) 0 frame_size of
             Inl e \<Rightarrow> ((Inl e, rt), w1)
           | Inr raw \<Rightarrow>
               let rt1 = rt\<lparr>rx_buf := drop frame_size (rx_buf rt)\<rparr>
               in case usb_responder_protocol_decode_frame raw w1 of
                    (Inl e, w2) \<Rightarrow>
                      ((Inl e, rt1), usb_responder_set_last_error (Some ''decode frame failed'') (c_free True w2))
                  | (Inr fr, w2) \<Rightarrow> ((Inr fr, rt1), c_free True w2)))"

definition read_frame_buffered ::
  "responder_runtime \<Rightarrow> 'a io_world_scheme \<Rightarrow> (frame cres \<times> responder_runtime) io \<times> 'a io_world_scheme" where
  "read_frame_buffered rt w =
     (case rx_fill USB_RESPONDER_HEADER_SIZE rt w of
        (Blocked, w1) \<Rightarrow> (Blocked, w1)
      | (Done (ok, rt1), w1) \<Rightarrow>
          if \<not> ok then (Done (Inl Reject, rt1), w1)
          else (case rx_peek (rx_buf rt1) of
             Inl e \<Rightarrow> (Done (Inl e, rt1), w1)
           | Inr (mg, vs, len) \<Rightarrow>
               if mg \<noteq> USB_RESPONDER_MAGIC \<or> vs \<noteq> USB_RESPONDER_VERSION then
                 (Done (Inl Reject, rt1), usb_responder_set_last_error
                    (Some (snprintf_buf 256 (''bad frame header magic=0x'' @ show_hex8 (unat mg) @ '' version='' @
                       show_dec (unat vs) @ '' buffered='' @ show_dec (rx_size rt1)))) w1)
               else if USB_RESPONDER_MAX_PAYLOAD < unat len then
                 (Done (Inl Reject, rt1), usb_responder_set_last_error (Some ''payload too large'') w1)
               else
                 (case rx_fill (USB_RESPONDER_HEADER_SIZE + unat len) rt1 w1 of
                    (Blocked, w2) \<Rightarrow> (Blocked, w2)
                  | (Done (ok2, rt2), w2) \<Rightarrow>
                      if \<not> ok2 then (Done (Inl Reject, rt2), w2)
                      else (case rx_take_frame (USB_RESPONDER_HEADER_SIZE + unat len) rt2 w2 of
                              (r, w3) \<Rightarrow> (Done r, w3)))))"

section \<open>The buffer\<close>

text \<open>
  The capacity is 0 or a power of two of at least 4 KiB, and at most 16 MiB; so the doubling of
  \<open>rx_reserve\<close> stays far from the bounds of \<open>size_t\<close>.
\<close>

definition rx_capacities :: "nat set" where
  "rx_capacities = insert 0 ((\<lambda>k. 4096 * 2 ^ k) ` {..12})"

definition rx_ok :: "responder_runtime \<Rightarrow> bool" where
  "rx_ok rt \<longleftrightarrow> rx_size rt \<le> rx_cap rt \<and> rx_cap rt \<in> rx_capacities"

definition rx_block :: "responder_runtime \<Rightarrow> int" where
  "rx_block rt = (if rx_cap rt = 0 then 0 else 1)"

lemma grow_cap_capacities:
  "k \<le> 12 \<Longrightarrow> need \<le> 16777216 \<Longrightarrow> grow_cap (4096 * 2 ^ k) need \<in> rx_capacities"
proof (induction "12 - k" arbitrary: k)
  case 0
  then have "k = 12" by simp
  then show ?case using "0.prems" by (subst grow_cap.simps) (auto simp: rx_capacities_def intro: image_eqI [where x = 12])
next
  case (Suc m)
  show ?case
  proof (cases "4096 * 2 ^ k < need")
    case True
    have "grow_cap (4096 * 2 ^ Suc k) need \<in> rx_capacities"
      using Suc.hyps(2) Suc.prems by (intro Suc.hyps(1)) auto
    then show ?thesis using True by (subst grow_cap.simps) (simp add: mult.commute mult.left_commute)
  next
    case False
    then show ?thesis using Suc.prems by (subst grow_cap.simps) (auto simp: rx_capacities_def)
  qed
qed

text \<open>What a step of the receiver keeps of the run-time state.\<close>

definition rx_same :: "responder_runtime \<Rightarrow> responder_runtime \<Rightarrow> bool" where
  "rx_same rt rt' \<longleftrightarrow> cfg rt' = cfg rt \<and> files rt' = files rt \<and> ep0_fd rt' = ep0_fd rt \<and>
     ep_in_fd rt' = ep_in_fd rt \<and> ep_out_fd rt' = ep_out_fd rt"

lemma rx_same_refl [simp, intro]: "rx_same rt rt"
  by (simp add: rx_same_def)

lemma rx_same_trans: "rx_same a b \<Longrightarrow> rx_same b c \<Longrightarrow> rx_same a c"
  by (simp add: rx_same_def)

lemma rx_same_upd [simp]: "rx_same rt (rt\<lparr>ep_shutdown := b\<rparr>)" "rx_same rt (rt\<lparr>rx_buf := bs\<rparr>)" "rx_same rt (rt\<lparr>rx_cap := n\<rparr>)"
  by (simp_all add: rx_same_def)

lemma rx_ok_shutdown [simp]: "rx_ok (rt\<lparr>ep_shutdown := b\<rparr>) = rx_ok rt" "rx_block (rt\<lparr>ep_shutdown := b\<rparr>) = rx_block rt"
  by (simp_all add: rx_ok_def rx_size_def rx_block_def)

text \<open>The bytes a part of the script of \<open>read\<close> delivers.\<close>

definition delivered :: "rout list \<Rightarrow> byte list" where
  "delivered rs = concat (map (\<lambda>r. case r of RData d \<Rightarrow> take USB_RESPONDER_IO_CHUNK d | RFail e \<Rightarrow> []) rs)"

lemma delivered_simps [simp]: "delivered [] = []" "delivered (RFail e # rs) = delivered rs"
  "delivered (RData d # rs) = take USB_RESPONDER_IO_CHUNK d @ delivered rs" "delivered (xs @ ys) = delivered xs @ delivered ys"
  by (simp_all add: delivered_def)

text \<open>From \<open>w\<close> to \<open>w'\<close> the receiver has consumed \<open>con\<close> and changed the heap by \<open>d\<close> blocks.\<close>

definition rx_moves :: "rout list \<Rightarrow> int \<Rightarrow> 'a io_world_scheme \<Rightarrow> 'a io_world_scheme \<Rightarrow> bool" where
  "rx_moves con d w w' \<longleftrightarrow> rscript w = con @ rscript w' \<and> live w' = live w + d \<and> sent w' = sent w \<and>
     wscript w' = wscript w \<and> long_bits w' = long_bits w \<and> strerr w' = strerr w \<and>
     io_world.more w' = io_world.more w \<and> (allocs w = [] \<longrightarrow> allocs w' = [])"

lemma rx_moves_refl [simp, intro]: "rx_moves [] 0 w w"
  by (simp add: rx_moves_def)

lemma rx_moves_trans: "rx_moves a d u v \<Longrightarrow> rx_moves b e v w \<Longrightarrow> rx_moves (a @ b) (d + e) u w"
  by (simp add: rx_moves_def)

lemma mem_only_rx: "mem_only w w' d \<Longrightarrow> rx_moves [] d w w'"
  by (simp add: rx_moves_def mem_only_keeps mem_only_live mem_only_calm)

lemma rx_moves_error [simp]: "rx_moves [] 0 w (usb_responder_set_last_error m w)"
  by (simp add: rx_moves_def usb_responder_set_last_error_def split: option.split)

lemma rx_moves_then_mem: "rx_moves a d u v \<Longrightarrow> mem_only v w e \<Longrightarrow> rx_moves a (d + e) u w"
  using rx_moves_trans [OF _ mem_only_rx, of a d u v w e] by simp

lemma rx_moves_then_free: "rx_moves a d u v \<Longrightarrow> rx_moves a (d - 1) u (c_free True v)"
  by (simp add: rx_moves_def c_free_def)

lemma rx_moves_then_error: "rx_moves a d u v \<Longrightarrow> rx_moves a d u (usb_responder_set_last_error m v)"
  using rx_moves_trans [OF _ rx_moves_error, of a d u v m] by simp

lemma sys_poll_moves: "sys_poll w = (p, w') \<Longrightarrow> rx_moves [] 0 w w'"
  by (auto simp: sys_poll_def rx_moves_def split: list.splits pout.splits)

lemma sys_read_moves:
  "sys_read USB_RESPONDER_IO_CHUNK w = (Done r, w') \<Longrightarrow>
   \<exists>con. rx_moves con 0 w w' \<and> (case r of Inl e \<Rightarrow> delivered con = [] | Inr d \<Rightarrow> delivered con = d \<and> length d \<le> 16384)"
  by (auto simp: sys_read_def rx_moves_def split: list.splits rout.splits)

lemma rx_wait_moves:
  "rx_wait w = (Done r, w') \<Longrightarrow>
   \<exists>con. rx_moves con 0 w w' \<and> (case r of Received (Inr d) \<Rightarrow> delivered con = d \<and> length d \<le> 16384 | _ \<Rightarrow> True)"
proof (induction w rule: rx_wait.induct)
  case (1 w)
  obtain p w1 where p: "sys_poll w = (p, w1)" by (metis surj_pair)
  note P = sys_poll_moves [OF p]
  have again: ?case if "rx_wait w1 = (Done r, w')"
      "rx_wait w1 = (Done r, w') \<Longrightarrow> \<exists>con. rx_moves con 0 w1 w' \<and>
        (case r of Received (Inr d) \<Rightarrow> delivered con = d \<and> length d \<le> 16384 | _ \<Rightarrow> True)"
    using that rx_moves_trans [OF P, of _ 0 w'] by fastforce
  show ?case
  proof (cases p)
    case Blocked
    then show ?thesis using "1.prems" p by (subst (asm) rx_wait.simps) simp
  next
    case (Done x)
    show ?thesis
    proof (cases x)
      case (Inl e)
      show ?thesis
      proof (cases "e = EINTR")
        case True
        then have "rx_wait w1 = (Done r, w')" using "1.prems" p Done Inl by (subst (asm) rx_wait.simps) simp
        then show ?thesis using again "1.IH"(1) [OF p [symmetric] Done Inl True] by blast
      next
        case False
        then have "r = PollError e" "w' = w1" using "1.prems" p Done Inl by (subst (asm) rx_wait.simps, simp)+
        then show ?thesis using P by auto
      qed
    next
      case (Inr rs)
      let ?ev = "revents_at rs 0"
      note IH = "1.IH"(2,3) [OF p [symmetric] Done Inr refl]
      show ?thesis
      proof (cases "poll_count 1 rs = 0")
        case True
        then have "rx_wait w1 = (Done r, w')" using "1.prems" p Done Inr by (subst (asm) rx_wait.simps) simp
        then show ?thesis using again IH(1) [OF True] by blast
      next
        case ready: False
        show ?thesis
        proof (cases "pollhup ?ev \<or> pollerr ?ev \<or> pollnval ?ev")
          case True
          then have "r = PollShutdown" "w' = w1" using "1.prems" p Done Inr ready by (subst (asm) rx_wait.simps, simp)+
          then show ?thesis using P by auto
        next
          case False
          obtain q w2 where q: "sys_read 16384 w1 = (q, w2)" by (metis surj_pair)
          obtain y where y: "q = Done y"
            using "1.prems" p q Done Inr ready False by (cases q) (subst (asm) rx_wait.simps, simp)+
          obtain con where con: "rx_moves con 0 w1 w2"
              "case y of Inl e \<Rightarrow> delivered con = [] | Inr d \<Rightarrow> delivered con = d \<and> length d \<le> 16384"
            using sys_read_moves [of w1 y w2] q y by blast
          show ?thesis
          proof (cases "y = Inl EINTR")
            case True
            then have "rx_wait w2 = (Done r, w')" using "1.prems" p q y Done Inr ready False by (subst (asm) rx_wait.simps) simp
            from IH(2) [OF ready False q [symmetric] y True this] obtain con2 where
              "rx_moves con2 0 w2 w'" "case r of Received (Inr d) \<Rightarrow> delivered con2 = d \<and> length d \<le> 16384 | _ \<Rightarrow> True"
              by blast
            moreover have "delivered con = []" using con(2) True by simp
            ultimately show ?thesis using rx_moves_trans [OF P rx_moves_trans [OF con(1)]]
              by (intro exI [of _ "con @ con2"]) (auto split: rx_event.splits sum.splits)
          next
            case stop: False
            then have "r = Received y" "w' = w2" using "1.prems" p q y Done Inr ready False by (subst (asm) rx_wait.simps, simp)+
            then show ?thesis using con rx_moves_trans [OF P con(1)] by (auto split: sum.splits)
          qed
        qed
      qed
    qed
  qed
qed

lemma rx_reserve_spec:
  assumes run: "rx_reserve rt needed w = (ok, rt', w')" and rt: "rx_ok rt" and n: "needed \<le> 16777216"
  shows "rx_same rt rt'" "rx_buf rt' = rx_buf rt" "rx_ok rt'" "ok \<Longrightarrow> needed \<le> rx_cap rt'"
    "rx_moves [] (rx_block rt' - rx_block rt) w w'" "ep_shutdown rt' = ep_shutdown rt"
proof -
  let ?cap = "grow_cap (if rx_cap rt \<noteq> 0 then rx_cap rt else 4096) needed"
  have cap: "needed \<le> ?cap" "?cap \<in> rx_capacities" "0 < ?cap"
  proof -
    obtain k where k: "k \<le> 12" "(if rx_cap rt \<noteq> 0 then rx_cap rt else 4096) = 4096 * 2 ^ k"
    proof (cases "rx_cap rt = 0")
      case True
      then show ?thesis using that [of 0] by simp
    next
      case False
      then show ?thesis using that rt by (auto simp: rx_ok_def rx_capacities_def)
    qed
    show "needed \<le> ?cap" "0 < ?cap" by (intro grow_cap_ge grow_cap_pos, simp)+
    show "?cap \<in> rx_capacities" unfolding k(2) by (rule grow_cap_capacities [OF k(1) n])
  qed
  have "rx_same rt rt' \<and> rx_buf rt' = rx_buf rt \<and> rx_ok rt' \<and> (ok \<longrightarrow> needed \<le> rx_cap rt') \<and>
    rx_moves [] (rx_block rt' - rx_block rt) w w' \<and> ep_shutdown rt' = ep_shutdown rt"
  proof (cases "needed \<le> rx_cap rt")
    case True
    then show ?thesis using run rt by (auto simp: rx_reserve_def)
  next
    case False
    show ?thesis
    proof (cases rule: c_realloc_cases [of "rx_cap rt \<noteq> 0" w])
      case (fail w1)
      then have "rt' = rt" "\<not> ok" "w' = usb_responder_set_last_error (Some ''rx buffer oom'') w1"
        using run False by (simp_all add: rx_reserve_def Let_def)
      then show ?thesis using rt rx_moves_then_error [OF mem_only_rx [OF fail(2)]] by simp
    next
      case (ok w1)
      then have eq: "rt' = rt\<lparr>rx_cap := ?cap\<rparr>" "w' = w1" using run False by (simp_all add: rx_reserve_def Let_def)
      have "rx_block rt' - rx_block rt = (if rx_cap rt \<noteq> 0 then 0 else 1)" using cap(3) by (simp add: eq rx_block_def)
      moreover have "rx_ok rt'" using cap(1,2) rt False by (simp add: eq rx_ok_def rx_size_def)
      ultimately show ?thesis using mem_only_rx [OF ok(2)] cap(1) by (simp add: eq)
    qed
  qed
  then show "rx_same rt rt'" "rx_buf rt' = rx_buf rt" "rx_ok rt'" "ok \<Longrightarrow> needed \<le> rx_cap rt'"
    "rx_moves [] (rx_block rt' - rx_block rt) w w'" "ep_shutdown rt' = ep_shutdown rt" by blast+
qed

text \<open>
  What a step of the receiver does: unless it fails, the buffer is extended by exactly the bytes
  the endpoint delivered.
\<close>

definition rx_progress ::
  "bool \<Rightarrow> responder_runtime \<Rightarrow> 'a io_world_scheme \<Rightarrow> responder_runtime \<Rightarrow> 'a io_world_scheme \<Rightarrow> bool" where
  "rx_progress ok rt w rt' w' \<longleftrightarrow> rx_same rt rt' \<and> rx_ok rt' \<and>
     (\<exists>con. rx_moves con (rx_block rt' - rx_block rt) w w' \<and> (ok \<longrightarrow> rx_buf rt' = rx_buf rt @ delivered con))"

lemma rx_progress_refl: "rx_ok rt \<Longrightarrow> rx_progress ok rt w rt w"
  by (auto simp: rx_progress_def intro: exI [of _ "[]"])

lemma rx_progress_fail: "rx_progress ok rt w rt' w' \<Longrightarrow> rx_progress False rt w rt' w'"
  by (auto simp: rx_progress_def)

lemma rx_progress_trans:
  assumes "rx_progress True a u b v" "rx_progress ok b v c w"
  shows "rx_progress ok a u c w"
proof -
  obtain xs where xs: "rx_moves xs (rx_block b - rx_block a) u v" "rx_buf b = rx_buf a @ delivered xs"
    using assms(1) by (auto simp: rx_progress_def)
  obtain ys where ys: "rx_moves ys (rx_block c - rx_block b) v w" "ok \<longrightarrow> rx_buf c = rx_buf b @ delivered ys"
    using assms(2) by (auto simp: rx_progress_def)
  have "rx_moves (xs @ ys) (rx_block c - rx_block a) u w" using rx_moves_trans [OF xs(1) ys(1)] by simp
  moreover have "ok \<longrightarrow> rx_buf c = rx_buf a @ delivered (xs @ ys)" using xs(2) ys(2) by simp
  ultimately show ?thesis using assms rx_same_trans [of a b c] by (auto simp: rx_progress_def)
qed

lemma rx_progress_error: "rx_progress False rt w rt' w' \<Longrightarrow> rx_progress False rt w rt' (usb_responder_set_last_error m w')"
  by (auto simp: rx_progress_def intro: rx_moves_then_error)

lemma rx_read_some_spec:
  assumes run: "rx_read_some rt w = (Done (ok, rt'), w')" and rt: "rx_ok rt" and n: "rx_size rt + 16384 \<le> 16777216"
  shows "rx_progress ok rt w rt' w'" "rx_size rt' \<le> rx_size rt + 16384" "ok \<Longrightarrow> rx_size rt < rx_size rt'"
proof -
  have "rx_progress ok rt w rt' w' \<and> rx_size rt' \<le> rx_size rt + 16384 \<and> (ok \<longrightarrow> rx_size rt < rx_size rt')"
  proof (cases rule: c_malloc_cases [of w])
    case (fail w1)
    then have eq: "ok = False" "rt' = rt" "w' = usb_responder_set_last_error (Some ''rx read buffer oom'') w1"
      using run by (simp_all add: rx_read_some_def)
    have "rx_progress False rt w rt w1"
      using rt mem_only_rx [OF fail(2)] by (auto simp: rx_progress_def)
    then show ?thesis by (simp add: eq rx_progress_error)
  next
    case (ok w1)
    obtain r w2 where wt: "rx_wait w1 = (r, w2)" by (metis surj_pair)
    obtain ev where r: "r = Done ev" using run ok(1) wt by (cases r) (simp_all add: rx_read_some_def)
    obtain con where con: "rx_moves con 0 w1 w2" "case ev of Received (Inr d) \<Rightarrow> delivered con = d \<and> length d \<le> 16384 | _ \<Rightarrow> True"
      using rx_wait_moves [of w1 ev w2] wt r by blast
    have m2: "rx_moves con 1 w w2" using rx_moves_trans [OF mem_only_rx [OF ok(2)] con(1)] by simp
    have failed: ?thesis if "ok = False" "rx_same rt rt'" "rx_ok rt'" "rx_size rt' = rx_size rt" "rx_block rt' = rx_block rt"
      "\<exists>m. w' = c_free True (usb_responder_set_last_error m w2)"
      using that rx_moves_then_free [OF rx_moves_then_error [OF m2]] by (auto simp: rx_progress_def)
    show ?thesis
    proof (cases ev)
      case (PollError e)
      then show ?thesis using run ok(1) wt r rt by (intro failed) (auto simp: rx_read_some_def)
    next
      case PollShutdown
      then show ?thesis using run ok(1) wt r rt by (intro failed) (auto simp: rx_read_some_def rx_size_def)
    next
      case (Received x)
      show ?thesis
      proof (cases x)
        case (Inl e)
        then show ?thesis using run ok(1) wt r rt Received by (intro failed) (auto simp: rx_read_some_def rx_size_def)
      next
        case (Inr d)
        show ?thesis
        proof (cases "d = []")
          case True
          then show ?thesis using run ok(1) wt r rt Received Inr by (intro failed) (auto simp: rx_read_some_def)
        next
          case False
          have d: "delivered con = d" "length d \<le> 16384" using con(2) Received Inr by simp_all
          obtain b rt1 w3 where rs: "rx_reserve rt (rx_size rt + length d) w2 = (b, rt1, w3)" by (metis prod_cases3)
          note S = rx_reserve_spec [OF rs rt]
          have S': "rx_same rt rt1" "rx_buf rt1 = rx_buf rt" "rx_ok rt1" "b \<longrightarrow> rx_size rt + length d \<le> rx_cap rt1"
              "rx_moves [] (rx_block rt1 - rx_block rt) w2 w3"
            using S n d(2) by simp_all
          have m3: "rx_moves con (rx_block rt1 - rx_block rt) w (c_free True w3)"
            using rx_moves_then_free [OF rx_moves_trans [OF m2 S'(5)]] by simp
          have eq: "ok = b" "rt' = (if b then rt1\<lparr>rx_buf := rx_buf rt1 @ d\<rparr> else rt1)" "w' = c_free True w3"
            using run ok(1) wt r rs Received Inr False by (cases b; simp add: rx_read_some_def)+
          show ?thesis
          proof (cases b)
            case True
            have "rx_ok rt'" using S'(2,3,4) True by (simp add: eq rx_ok_def rx_size_def)
            moreover have "rx_block rt' = rx_block rt1" by (simp add: eq rx_block_def)
            moreover have "rx_same rt rt'" using S'(1) by (simp add: eq rx_same_def)
            ultimately show ?thesis using m3 True d False S'(2) by (auto simp: eq rx_progress_def rx_size_def)
          next
            case False
            then show ?thesis using S' m3 by (auto simp: eq rx_progress_def rx_size_def)
          qed
        qed
      qed
    qed
  qed
  then show "rx_progress ok rt w rt' w'" "rx_size rt' \<le> rx_size rt + 16384" "ok \<Longrightarrow> rx_size rt < rx_size rt'" by blast+
qed

lemma rx_fill_spec:
  "rx_fill n rt w = (Done (ok, rt'), w') \<Longrightarrow> rx_ok rt \<Longrightarrow> n \<le> 8388632 \<Longrightarrow>
   rx_progress ok rt w rt' w' \<and> rx_size rt' \<le> max (rx_size rt) (n + 16383) \<and> (ok \<longrightarrow> n \<le> rx_size rt')"
proof (induction n rt w rule: rx_fill.induct)
  case (1 n rt w)
  show ?case
  proof (cases "rx_size rt < n")
    case False
    then have "ok" "rt' = rt" "w' = w" using "1.prems"(1) by (subst (asm) rx_fill.simps, simp)+
    then show ?thesis using False "1.prems"(2) by (simp add: rx_progress_refl)
  next
    case True
    obtain r w1 where rd: "rx_read_some rt w = (r, w1)" by (metis surj_pair)
    obtain ok1 rt1 where r: "r = Done (ok1, rt1)"
      using "1.prems"(1) True rd by (cases r) (subst (asm) rx_fill.simps, auto)+
    note S = rx_read_some_spec [OF rd [unfolded r] "1.prems"(2)]
    have S': "rx_progress ok1 rt w rt1 w1" "rx_size rt1 \<le> rx_size rt + 16384" using S True "1.prems"(3) by simp_all
    show ?thesis
    proof (cases ok1)
      case False
      then have "ok = False" "rt' = rt1" "w' = w1" using "1.prems"(1) True rd r by (subst (asm) rx_fill.simps, simp)+
      then show ?thesis using S' False True by simp
    next
      case ok1: True
      have rec: "rx_fill n rt1 w1 = (Done (ok, rt'), w')" using "1.prems"(1) True rd r ok1 by (subst (asm) rx_fill.simps) simp
      have "rx_ok rt1" using S'(1) by (simp add: rx_progress_def)
      from "1.IH" [OF True rd [symmetric] r refl ok1 rec this "1.prems"(3)] show ?thesis
        using rx_progress_trans [OF _ conjunct1, of rt w rt1 w1 ok rt' w'] S' ok1 True by auto
    qed
  qed
qed

text \<open>A frame that is returned is the next one in the stream.\<close>

definition rx_limit :: nat where "rx_limit = 8388632 + 16383"

definition rx_next :: "frame \<Rightarrow> responder_runtime \<Rightarrow> 'a io_world_scheme \<Rightarrow> responder_runtime \<Rightarrow> 'a io_world_scheme \<Rightarrow> bool" where
  "rx_next fr rt w rt' w' \<longleftrightarrow> frame_wf fr \<and> unat (payload_len (header fr)) \<le> USB_RESPONDER_MAX_PAYLOAD \<and>
     (\<exists>con. rx_moves con (rx_block rt' - rx_block rt + (if payload fr = None then 0 else 1)) w w' \<and>
        rx_buf rt @ delivered con = frame_bytes fr @ rx_buf rt')"

lemma rx_take_frame_spec:
  assumes run: "rx_take_frame n rt w = ((r, rt'), w')" and n: "n \<le> rx_size rt" and rt: "rx_ok rt"
  shows "rx_same rt rt'" "rx_ok rt'" "rx_block rt' = rx_block rt" "rx_size rt' \<le> rx_size rt"
    "case r of Inl e \<Rightarrow> e \<noteq> OutOfBounds \<and> rx_moves [] 0 w w'
     | Inr fr \<Rightarrow> frame_wf fr \<and> frame_bytes fr = take n (rx_buf rt) \<and> rx_buf rt' = drop n (rx_buf rt) \<and>
         rx_moves [] (if payload fr = None then 0 else 1) w w'"
proof -
  have "rx_same rt rt' \<and> rx_ok rt' \<and> rx_block rt' = rx_block rt \<and> rx_size rt' \<le> rx_size rt \<and>
    (case r of Inl e \<Rightarrow> e \<noteq> OutOfBounds \<and> rx_moves [] 0 w w'
     | Inr fr \<Rightarrow> frame_wf fr \<and> frame_bytes fr = take n (rx_buf rt) \<and> rx_buf rt' = drop n (rx_buf rt) \<and>
         rx_moves [] (if payload fr = None then 0 else 1) w w')"
  proof (cases rule: c_malloc_cases [of w])
    case (fail w1)
    then have "r = Inl NoMem" "rt' = rt" "w' = usb_responder_set_last_error (Some ''frame buffer oom'') w1"
      using run by (simp_all add: rx_take_frame_def)
    then show ?thesis using rt rx_moves_then_error [OF mem_only_rx [OF fail(2)]] by simp
  next
    case (ok w1)
    let ?raw = "take n (rx_buf rt)" and ?rt1 = "rt\<lparr>rx_buf := drop n (rx_buf rt)\<rparr>"
    have ld: "load (rx_buf rt) 0 n = Inr ?raw" using n by (simp add: rx_size_def)
    have same: "rx_same rt ?rt1 \<and> rx_ok ?rt1 \<and> rx_block ?rt1 = rx_block rt \<and> rx_size ?rt1 \<le> rx_size rt"
      using rt by (auto simp: rx_ok_def rx_size_def rx_block_def)
    show ?thesis
    proof (cases rule: decode_frame_cases [of ?raw w1])
      case (reject e w2)
      then have "r = Inl e" "rt' = ?rt1" "w' = usb_responder_set_last_error (Some ''decode frame failed'') (c_free True w2)"
        using run ok(1) ld by (simp_all add: rx_take_frame_def)
      moreover have "rx_moves [] 0 w (c_free True w2)"
        using rx_moves_then_free [OF rx_moves_then_mem [OF mem_only_rx [OF ok(2)] reject(3)]] by simp
      ultimately show ?thesis using same reject(2) by (simp add: rx_moves_then_error)
    next
      case (accept fr w2)
      then have "r = Inr fr" "rt' = ?rt1" "w' = c_free True w2" using run ok(1) ld by (simp_all add: rx_take_frame_def)
      moreover have "rx_moves [] (if payload fr = None then 0 else 1) w (c_free True w2)"
        using rx_moves_then_free [OF rx_moves_then_mem [OF mem_only_rx [OF ok(2)] accept(4)]] by simp
      ultimately show ?thesis using same accept(2,3) by simp
    qed
  qed
  then show "rx_same rt rt'" "rx_ok rt'" "rx_block rt' = rx_block rt" "rx_size rt' \<le> rx_size rt"
    "case r of Inl e \<Rightarrow> e \<noteq> OutOfBounds \<and> rx_moves [] 0 w w'
     | Inr fr \<Rightarrow> frame_wf fr \<and> frame_bytes fr = take n (rx_buf rt) \<and> rx_buf rt' = drop n (rx_buf rt) \<and>
         rx_moves [] (if payload fr = None then 0 else 1) w w'" by blast+
qed

lemma rx_peek_in: "24 \<le> length buf \<Longrightarrow> \<exists>mg vs len. rx_peek buf = Inr (mg, vs, len)"
  using read_le32_in [of 0 buf] read_le16_in [of 4 buf] read_le32_in [of 16 buf] by (auto simp: rx_peek_def)

lemma read_frame_buffered_spec:
  assumes run: "read_frame_buffered rt w = (Done (r, rt'), w')" and rt: "rx_ok rt" "rx_size rt \<le> rx_limit"
  shows "rx_same rt rt' \<and> rx_ok rt' \<and> rx_size rt' \<le> rx_limit \<and>
    (case r of
       Inl e \<Rightarrow> e \<noteq> OutOfBounds \<and> (\<exists>con. rx_moves con (rx_block rt' - rx_block rt) w w')
     | Inr fr \<Rightarrow> rx_next fr rt w rt' w')"
proof -
  obtain r1 w1 where f1: "rx_fill 24 rt w = (r1, w1)" by (metis surj_pair)
  obtain ok1 rt1 where r1: "r1 = Done (ok1, rt1)" using run f1 by (cases r1) (auto simp: read_frame_buffered_def)
  note F1 = rx_fill_spec [OF f1 [unfolded r1] rt(1)]
  have F1': "rx_progress ok1 rt w rt1 w1" "rx_size rt1 \<le> rx_limit" "ok1 \<longrightarrow> 24 \<le> rx_size rt1"
    using F1 rt(2) by (auto simp: rx_limit_def max_def split: if_splits)
  have stop: ?thesis if "r = Inl e" "e \<noteq> OutOfBounds" "rx_progress False rt w rt' w'" "rx_size rt' \<le> rx_limit" for e
    using that by (auto simp: rx_progress_def)
  show ?thesis
  proof (cases ok1)
    case False
    then have "r = Inl Reject" "rt' = rt1" "w' = w1" using run f1 r1 by (simp_all add: read_frame_buffered_def)
    then show ?thesis using stop [of Reject] F1' False by simp
  next
    case ok1: True
    obtain mg vs len where pk: "rx_peek (rx_buf rt1) = Inr (mg, vs, len)"
      using rx_peek_in [of "rx_buf rt1"] F1'(3) ok1 by (auto simp: rx_size_def)
    have p1: "rx_progress False rt w rt1 (usb_responder_set_last_error m w1)" for m
      using rx_progress_error rx_progress_fail F1'(1) by blast
    consider "mg \<noteq> USB_RESPONDER_MAGIC \<or> vs \<noteq> USB_RESPONDER_VERSION"
      | "\<not> (mg \<noteq> USB_RESPONDER_MAGIC \<or> vs \<noteq> USB_RESPONDER_VERSION)" "8388608 < unat len"
      | "\<not> (mg \<noteq> USB_RESPONDER_MAGIC \<or> vs \<noteq> USB_RESPONDER_VERSION)" "unat len \<le> 8388608" by linarith
    then show ?thesis
    proof cases
      case 1
      then have "r = Inl Reject" "rt' = rt1" "\<exists>m. w' = usb_responder_set_last_error m w1"
        using run f1 r1 ok1 pk by (auto simp: read_frame_buffered_def)
      then show ?thesis using stop [of Reject] p1 F1'(2) by auto
    next
      case 2
      then have "r = Inl Reject" "rt' = rt1" "w' = usb_responder_set_last_error (Some ''payload too large'') w1"
        using run f1 r1 ok1 pk by (simp_all add: read_frame_buffered_def)
      then show ?thesis using stop [of Reject] p1 F1'(2) by simp
    next
      case 3
      let ?n = "24 + unat len"
      obtain r2 w2 where f2: "rx_fill ?n rt1 w1 = (r2, w2)" by (metis surj_pair)
      obtain ok2 rt2 where r2: "r2 = Done (ok2, rt2)"
        using run f1 r1 ok1 pk 3 f2 by (cases r2) (auto simp: read_frame_buffered_def)
      have rt1: "rx_ok rt1" using F1'(1) by (simp add: rx_progress_def)
      have F2: "rx_progress ok2 rt1 w1 rt2 w2" "rx_size rt2 \<le> rx_limit" "ok2 \<longrightarrow> ?n \<le> rx_size rt2"
        using rx_fill_spec [OF f2 [unfolded r2] rt1] 3(2) F1'(2) by (auto simp: rx_limit_def max_def split: if_splits)
      have p2: "rx_progress ok2 rt w rt2 w2" 
        using rx_progress_trans [OF _ F2(1), of rt w] F1'(1) ok1 by simp
      show ?thesis
      proof (cases ok2)
        case False
        then have "r = Inl Reject" "rt' = rt2" "w' = w2"
          using run f1 r1 ok1 pk 3 f2 r2 by (simp_all add: read_frame_buffered_def)
        then show ?thesis using stop [of Reject] p2 F2(2) False by simp
      next
        case ok2: True
        obtain r3 rt3 w3 where tk: "rx_take_frame ?n rt2 w2 = ((r3, rt3), w3)" by (metis surj_pair)
        have eq: "r = r3" "rt' = rt3" "w' = w3"
          using run f1 r1 ok1 pk 3 f2 r2 ok2 tk by (simp_all add: read_frame_buffered_def)
        have "rx_ok rt2" using p2 by (simp add: rx_progress_def)
        note T = rx_take_frame_spec [OF tk F2(3) [rule_format, OF ok2] this]
        have same: "rx_same rt rt'" "rx_ok rt'" "rx_size rt' \<le> rx_limit"

          using rx_same_trans [OF _ T(1), of rt] T(2,4) p2 F2(2) by (simp_all add: eq rx_progress_def)
        obtain con where con: "rx_moves con (rx_block rt2 - rx_block rt) w w2" "rx_buf rt2 = rx_buf rt @ delivered con"
          using p2 ok2 by (auto simp: rx_progress_def)
        show ?thesis
        proof (cases r3)
          case (Inl e)
          then have "e \<noteq> OutOfBounds" "rx_moves con (rx_block rt' - rx_block rt) w w'"
            using T(3,5) rx_moves_trans [OF con(1), of "[]" 0 w3] by (simp_all add: eq)
          then show ?thesis using same Inl by (auto simp: eq)
        next
          case (Inr fr)
          then have fr: "frame_wf fr" "frame_bytes fr = take ?n (rx_buf rt2)" "rx_buf rt3 = drop ?n (rx_buf rt2)"
              "rx_moves [] (if payload fr = None then 0 else 1) w2 w3" using T(5) by simp_all
          have "length (frame_bytes fr) = ?n" using F2(3) ok2 by (simp add: fr(2) rx_size_def)
          then have "unat (payload_len (header fr)) \<le> 8388608"
            using fr(1) 3(2) by (simp add: length_frame_bytes frame_wf_def frame_sized_def)
          moreover have "rx_buf rt @ delivered con = frame_bytes fr @ rx_buf rt'"
            by (simp add: eq fr con(2) [symmetric])
          moreover have "rx_moves con (rx_block rt' - rx_block rt + (if payload fr = None then 0 else 1)) w w'"
            using rx_moves_trans [OF con(1) fr(4)] T(3) by (simp add: eq)
          ultimately have "rx_next fr rt w rt' w'" using fr(1) by (auto simp: rx_next_def)
          then show ?thesis using same Inr by (simp add: eq)
        qed
      qed
    qed
  qed
qed

section \<open>A stream of frames\<close>

text \<open>Repeated reads, as the event loop makes them.\<close>

fun read_frames ::
  "nat \<Rightarrow> responder_runtime \<Rightarrow> 'a io_world_scheme \<Rightarrow> (frame list \<times> responder_runtime) option \<times> 'a io_world_scheme" where
  "read_frames 0 rt w = (Some ([], rt), w)"
| "read_frames (Suc n) rt w =
     (case read_frame_buffered rt w of
        (Done (Inr fr, rt1), w1) \<Rightarrow>
          (case read_frames n rt1 w1 of
             (Some (frs, rt2), w2) \<Rightarrow> (Some (fr # frs, rt2), w2)
           | (None, w2) \<Rightarrow> (None, w2))
      | (_, w1) \<Rightarrow> (None, w1))"

lemma read_frames_stream:
  "read_frames n rt w = (Some (frs, rt'), w') \<Longrightarrow> rx_ok rt \<Longrightarrow> rx_size rt \<le> rx_limit \<Longrightarrow>
   length frs = n \<and> list_all frame_wf frs \<and> rx_ok rt' \<and> rx_size rt' \<le> rx_limit \<and>
   (\<exists>con. rscript w = con @ rscript w' \<and> rx_buf rt @ delivered con = concat (map frame_bytes frs) @ rx_buf rt')"
proof (induction n arbitrary: rt w frs)
  case 0
  then show ?case by simp
next
  case (Suc n)
  obtain fr rt1 w1 frs' where step: "read_frame_buffered rt w = (Done (Inr fr, rt1), w1)"
      and rec: "read_frames n rt1 w1 = (Some (frs', rt'), w')" and frs: "frs = fr # frs'"
    using Suc.prems(1) by (auto split: prod.splits io.splits sum.splits option.splits)
  note S = read_frame_buffered_spec [OF step Suc.prems(2,3)]
  then obtain con where con: "rscript w = con @ rscript w1" "rx_buf rt @ delivered con = frame_bytes fr @ rx_buf rt1"
    by (auto simp: rx_next_def rx_moves_def)
  obtain con2 where con2: "rscript w1 = con2 @ rscript w'" "rx_buf rt1 @ delivered con2 = concat (map frame_bytes frs') @ rx_buf rt'"
      and rest: "length frs' = n" "list_all frame_wf frs'" "rx_ok rt'" "rx_size rt' \<le> rx_limit"
    using Suc.IH [OF rec] S by auto
  have "rx_buf rt @ delivered (con @ con2) = concat (map frame_bytes frs) @ rx_buf rt'"
    using con(2) con2(2) by (simp add: frs flip: append_assoc) simp
  then show ?case using S con(1) con2(1) rest by (intro conjI exI [of _ "con @ con2"]) (simp_all add: frs rx_next_def)
qed

section \<open>Progress\<close>

text \<open>
  A world in which the endpoint is alive: polls time out, are interrupted or report data, reads are
  interrupted or deliver data, and a read is never attempted more often than data is reported.
\<close>

definition poll_ready :: "pout \<Rightarrow> bool" where
  "poll_ready p \<longleftrightarrow> (case p of PollFail e \<Rightarrow> False | PollRevents rs \<Rightarrow> poll_count 1 rs \<noteq> 0)"

definition poll_soft :: "pout \<Rightarrow> bool" where
  "poll_soft p \<longleftrightarrow> (case p of PollFail e \<Rightarrow> e = EINTR
     | PollRevents rs \<Rightarrow> \<not> pollhup (revents_at rs 0) \<and> \<not> pollerr (revents_at rs 0) \<and> \<not> pollnval (revents_at rs 0))"

definition read_soft :: "rout \<Rightarrow> bool" where
  "read_soft r \<longleftrightarrow> (case r of RFail e \<Rightarrow> e = EINTR | RData d \<Rightarrow> d \<noteq> [])"

definition alive :: "'a io_world_scheme \<Rightarrow> bool" where
  "alive w \<longleftrightarrow> allocs w = [] \<and> list_all poll_soft (pscript w) \<and> list_all read_soft (rscript w) \<and>
     length (rscript w) \<le> length (filter poll_ready (pscript w))"

lemma alive_keeps:
  "alive w \<Longrightarrow> allocs w' = [] \<Longrightarrow> pscript w' = pscript w \<Longrightarrow> rscript w' = rscript w \<Longrightarrow> alive w'"
  by (simp add: alive_def)

lemma rx_wait_alive:
  "alive w \<Longrightarrow> delivered (rscript w) \<noteq> [] \<Longrightarrow>
   \<exists>d w'. rx_wait w = (Done (Received (Inr d)), w') \<and> d \<noteq> [] \<and> alive w'"
proof (induction w rule: rx_wait.induct)
  case (1 w)
  have ne: "rscript w \<noteq> []" using "1.prems"(2) by auto
  then obtain p ps where ps: "pscript w = p # ps" using "1.prems"(1) by (cases "pscript w") (auto simp: alive_def)
  obtain r rs where rs: "rscript w = r # rs" using ne by (cases "rscript w") auto
  have soft: "poll_soft p" "list_all poll_soft ps" "read_soft r" "list_all read_soft rs" "allocs w = []"
    using "1.prems"(1) by (simp_all add: alive_def ps rs)
  have count: "Suc (length rs) \<le> length (filter poll_ready (p # ps))" using "1.prems"(1) by (simp add: alive_def ps rs)
  show ?case
  proof (cases p)
    case (PollFail e)
    let ?w1 = "w\<lparr>pscript := ps, errno_val := e\<rparr>"
    have e: "e = EINTR" "\<not> poll_ready p" using soft(1) by (simp_all add: PollFail poll_soft_def poll_ready_def)
    have sp: "sys_poll w = (Done (Inl e), ?w1)" by (simp add: sys_poll_def ps PollFail)
    have "alive ?w1" using soft count e(2) rs by (simp add: alive_def)
    moreover have "delivered (rscript ?w1) \<noteq> []" using "1.prems"(2) by simp
    ultimately have "\<exists>d w'. rx_wait ?w1 = (Done (Received (Inr d)), w') \<and> d \<noteq> [] \<and> alive w'"
      by (rule "1.IH"(1) [OF sp [symmetric] refl refl e(1)])
    then show ?thesis using sp e(1) by (subst rx_wait.simps) simp
  next
    case (PollRevents evs)
    let ?w1 = "w\<lparr>pscript := ps\<rparr>"
    have sp: "sys_poll w = (Done (Inr evs), ?w1)" by (simp add: sys_poll_def ps PollRevents)
    note IH = "1.IH"(2,3) [OF sp [symmetric] refl refl refl]
    show ?thesis
    proof (cases "poll_count 1 evs = 0")
      case True
      then have "\<not> poll_ready p" by (simp add: PollRevents poll_ready_def)
      then have "alive ?w1" using soft count rs by (simp add: alive_def)
      moreover have "delivered (rscript ?w1) \<noteq> []" using "1.prems"(2) by simp
      ultimately have "\<exists>d w'. rx_wait ?w1 = (Done (Received (Inr d)), w') \<and> d \<noteq> [] \<and> alive w'"
        by (rule IH(1) [OF True])
      then show ?thesis using sp True by (subst rx_wait.simps) simp
    next
      case ready: False
      have ev: "\<not> (pollhup (revents_at evs 0) \<or> pollerr (revents_at evs 0) \<or> pollnval (revents_at evs 0))"
        using soft(1) by (simp add: PollRevents poll_soft_def)
      have few: "length rs \<le> length (filter poll_ready ps)" using count ready by (simp add: PollRevents poll_ready_def)
      show ?thesis
      proof (cases r)
        case (RFail e)
        let ?w2 = "?w1\<lparr>rscript := rs, errno_val := e\<rparr>"
        have e: "e = EINTR" using soft(3) by (simp add: RFail read_soft_def)
        have sr: "sys_read 16384 ?w1 = (Done (Inl e), ?w2)" by (simp add: sys_read_def rs RFail)
        have "alive ?w2" using soft few by (simp add: alive_def)
        moreover have "delivered (rscript ?w2) \<noteq> []" using "1.prems"(2) by (simp add: rs RFail)
        ultimately have "\<exists>d w'. rx_wait ?w2 = (Done (Received (Inr d)), w') \<and> d \<noteq> [] \<and> alive w'"
          using IH(2) [OF ready ev sr [symmetric] refl] e by blast
        then show ?thesis using sp sr ready ev e by (subst rx_wait.simps) simp
      next
        case (RData d)
        then have d: "d \<noteq> []" using soft(3) by (simp add: read_soft_def)
        let ?w2 = "?w1\<lparr>rscript := rs\<rparr>"
        have sr: "sys_read 16384 ?w1 = (Done (Inr (take 16384 d)), ?w2)" by (simp add: sys_read_def rs RData)
        have "alive ?w2" using soft few by (simp add: alive_def)
        then show ?thesis using sp sr ready ev d by (subst rx_wait.simps) simp
      qed
    qed
  qed
qed

lemma rx_read_some_alive:
  assumes al: "alive w" and data: "delivered (rscript w) \<noteq> []"
  shows "\<exists>rt' w'. rx_read_some rt w = (Done (True, rt'), w') \<and> alive w'"
proof -
  let ?w1 = "w\<lparr>live := live w + 1\<rparr>"
  have m: "c_malloc w = (True, ?w1)" using al by (simp add: alive_def c_malloc_succeeds)
  have "alive ?w1" "delivered (rscript ?w1) \<noteq> []" using al data by (simp_all add: alive_def)
  then obtain d w2 where wt: "rx_wait ?w1 = (Done (Received (Inr d)), w2)" "d \<noteq> []" "alive w2"
    using rx_wait_alive by blast
  have "\<exists>rt1 w3. rx_reserve rt (rx_size rt + length d) w2 = (True, rt1, w3) \<and> alive w3"
  proof (cases "rx_size rt + length d \<le> rx_cap rt")
    case True
    then show ?thesis using wt(3) by (simp add: rx_reserve_def)
  next
    case False
    show ?thesis
    proof (cases rule: c_realloc_cases [of "rx_cap rt \<noteq> 0" w2])
      case (ok w3)
      then have "alive w3"
        using wt(3) by (intro alive_keeps [OF wt(3)]) (simp_all add: mem_only_keeps mem_only_calm alive_def)
      then show ?thesis using False ok(1) by (simp add: rx_reserve_def Let_def)
    next
      case (fail w3)
      then show ?thesis using wt(3) by (simp add: alive_def)
    qed
  qed
  then obtain rt1 w3 where rs: "rx_reserve rt (rx_size rt + length d) w2 = (True, rt1, w3)" "alive w3" by blast
  have "alive (c_free True w3)" using rs(2) by (simp add: alive_def c_free_def)
  then show ?thesis using m wt(1,2) rs(1) by (simp add: rx_read_some_def)
qed

lemma rx_fill_alive:
  "alive w \<Longrightarrow> rx_ok rt \<Longrightarrow> n \<le> 8388632 \<Longrightarrow> n \<le> rx_size rt + length (delivered (rscript w)) \<Longrightarrow>
   \<exists>rt' w'. rx_fill n rt w = (Done (True, rt'), w') \<and> alive w'"
proof (induction n rt w rule: rx_fill.induct)
  case (1 n rt w)
  show ?case
  proof (cases "rx_size rt < n")
    case False
    then show ?thesis using "1.prems"(1) by (subst rx_fill.simps) simp
  next
    case True
    then have "delivered (rscript w) \<noteq> []" using "1.prems"(4) by auto
    then obtain rt1 w1 where rd: "rx_read_some rt w = (Done (True, rt1), w1)" "alive w1"
      using rx_read_some_alive [OF "1.prems"(1)] by blast
    note S = rx_read_some_spec [OF rd(1) "1.prems"(2)]
    have "rx_progress True rt w rt1 w1" using S(1) True "1.prems"(3) by simp
    then obtain con where con: "rscript w = con @ rscript w1" "rx_buf rt1 = rx_buf rt @ delivered con" and ok: "rx_ok rt1"
      by (auto simp: rx_progress_def rx_moves_def)
    have "n \<le> rx_size rt1 + length (delivered (rscript w1))" using "1.prems"(4) by (simp add: con rx_size_def)
    then have "\<exists>rt' w'. rx_fill n rt1 w1 = (Done (True, rt'), w') \<and> alive w'"
      using "1.IH" [OF True rd(1) [symmetric] refl refl TrueI rd(2) ok "1.prems"(3)] by blast
    then show ?thesis using True rd(1) by (subst rx_fill.simps) simp
  qed
qed

lemma read_le_prefix:
  "off + 2 \<le> length b \<Longrightarrow> read_le16 (b @ x) off = read_le16 b off"
  "off + 4 \<le> length b \<Longrightarrow> read_le32 (b @ x) off = read_le32 b off"
  by (simp_all add: read_le16_def read_le32_def nth_append)

lemma rx_peek_prefix: "24 \<le> length b \<Longrightarrow> rx_peek (b @ x) = rx_peek b"
  by (simp add: rx_peek_def read_le_prefix)

lemma rx_peek_frame: "rx_peek (frame_bytes fr) = Inr (USB_RESPONDER_MAGIC, USB_RESPONDER_VERSION, payload_len (header fr))"
  by (simp add: rx_peek_def frame_bytes_def codec_simps)

lemma read_frame_buffered_alive:
  assumes al: "alive w" and rt: "rx_ok rt" "rx_size rt \<le> rx_limit"
    and fr: "frame_wf fr" "unat (payload_len (header fr)) \<le> 8388608"
    and data: "rx_buf rt @ delivered (rscript w) = frame_bytes fr @ more_data"
  shows "\<exists>rt' w'. read_frame_buffered rt w = (Done (Inr fr, rt'), w') \<and> alive w'"
proof -
  let ?n = "24 + unat (payload_len (header fr))"
  have len: "length (frame_bytes fr) = ?n" using fr(1) by (simp add: length_frame_bytes frame_wf_def frame_sized_def)
  have total: "rx_size rt + length (delivered (rscript w)) = ?n + length more_data"
    using arg_cong [OF data, of length] by (simp add: rx_size_def len)
  obtain rt1 w1 where f1: "rx_fill 24 rt w = (Done (True, rt1), w1)" "alive w1"
    using rx_fill_alive [OF al rt(1), of 24] total by auto
  have F1: "rx_progress True rt w rt1 w1" "24 \<le> rx_size rt1" using rx_fill_spec [OF f1(1) rt(1)] by simp_all
  have stream1: "rx_buf rt1 @ delivered (rscript w1) = frame_bytes fr @ more_data" and ok1: "rx_ok rt1"
    using F1(1) data by (auto simp: rx_progress_def rx_moves_def)
  have "rx_peek (rx_buf rt1) = rx_peek (frame_bytes fr @ more_data)"
    using rx_peek_prefix [of "rx_buf rt1" "delivered (rscript w1)"] F1(2) by (simp add: stream1 rx_size_def)
  then have pk: "rx_peek (rx_buf rt1) = Inr (USB_RESPONDER_MAGIC, USB_RESPONDER_VERSION, payload_len (header fr))"
    using rx_peek_prefix [of "frame_bytes fr" more_data] len by (simp add: rx_peek_frame)
  have "?n \<le> rx_size rt1 + length (delivered (rscript w1))"
    using arg_cong [OF stream1, of length] by (simp add: rx_size_def len)
  then obtain rt2 w2 where f2: "rx_fill ?n rt1 w1 = (Done (True, rt2), w2)" "alive w2"
    using rx_fill_alive [OF f1(2) ok1, of ?n] fr(2) by auto
  have F2: "rx_progress True rt1 w1 rt2 w2" "?n \<le> rx_size rt2" using rx_fill_spec [OF f2(1) ok1] fr(2) by simp_all
  have stream2: "rx_buf rt2 @ delivered (rscript w2) = frame_bytes fr @ more_data"
    using F2(1) stream1 by (auto simp: rx_progress_def rx_moves_def)
  have raw: "take ?n (rx_buf rt2) = frame_bytes fr"
    using arg_cong [OF stream2, of "take ?n"] F2(2) by (simp add: rx_size_def len)
  let ?w3 = "w2\<lparr>live := live w2 + 1\<rparr>"
  have m: "c_malloc w2 = (True, ?w3)" using f2(2) by (simp add: alive_def c_malloc_succeeds)
  have "usb_responder_protocol_decode_frame (frame_bytes fr) ?w3 =
      (Inr (sealed fr), ?w3\<lparr>live := live ?w3 + (if payload fr = None then 0 else 1)\<rparr>)"
    using fr(1) f2(2) by (intro decode_frame_bytes) (simp_all add: frame_wf_def alive_def)
  then have dec: "usb_responder_protocol_decode_frame (frame_bytes fr) ?w3 =
      (Inr fr, ?w3\<lparr>live := live ?w3 + (if payload fr = None then 0 else 1)\<rparr>)" (is "_ = (_, ?w4)")
    using fr(1) by (simp add: frame_wf_def)
  have "rx_take_frame ?n rt2 w2 = ((Inr fr, rt2\<lparr>rx_buf := drop ?n (rx_buf rt2)\<rparr>), c_free True ?w4)"
    using F2(2) m dec raw by (simp add: rx_take_frame_def rx_size_def)
  moreover have "alive (c_free True ?w4)" using f2(2) by (simp add: alive_def c_free_def)
  ultimately show ?thesis using f1(1) pk fr(2) f2(1) by (simp add: read_frame_buffered_def)
qed

section \<open>Properties\<close>

definition start_runtime :: responder_runtime where
  "start_runtime = \<lparr>cfg = \<lparr>ffs_mount = Some ''/dev/ffs'', default_timeout_ms = 8000, cfg_max_stdout = 65536,
     cfg_max_stderr = 65536, verbose = False\<rparr>, files = usb_responder_file_ops_init,
     ep0_fd = 3, ep_in_fd = 4, ep_out_fd = 5, rx_buf = [], rx_cap = 0, ep_shutdown = False\<rparr>"

lemma start_runtime_ok [simp]: "rx_ok start_runtime" "rx_size start_runtime \<le> rx_limit"
  by (simp_all add: rx_ok_def rx_size_def rx_capacities_def start_runtime_def)

definition pollin_only :: pout where
  "pollin_only = PollRevents [\<lparr>pollin = True, pollhup = False, pollerr = False, pollnval = False\<rparr>]"

definition two_frames_world :: io_world where
  "two_frames_world = calm_world\<lparr>
     rscript := [RData (take 10 (frame_bytes sample_frame)), RFail EINTR,
       RData (drop 10 (frame_bytes sample_frame) @ frame_bytes sample_frame)],
     pscript := [pollin_only, PollRevents [], pollin_only, PollFail EINTR, pollin_only]\<rparr>"

lemma two_frames_alive: "alive two_frames_world"
  by (simp add: alive_def two_frames_world_def pollin_only_def poll_soft_def poll_ready_def read_soft_def
      revents_at_def poll_count_def no_revents_def length_frame_bytes flip: length_greater_0_conv)

lemma two_frames_data: "delivered (rscript two_frames_world) = frame_bytes sample_frame @ frame_bytes sample_frame"
  by (simp add: two_frames_world_def length_frame_bytes sample_frame_def frame_body_def)

lemma sealed_sample: "frame_wf (sealed sample_frame)" "unat (payload_len (header sample_frame)) = 3"
  by (simp_all add: frame_wf_def sample_frame_def frame_sized_def frame_body_def sealed_def)

text \<open>
  C35. The stream of frames. However the endpoint cuts the stream into transfers, the frames that \<open>n\<close> successful
  reads return are, in order, exactly the ones whose bytes came first: what was buffered and what
  was read is the encoding of the returned frames followed by what stays buffered. No byte is lost, repeated
  or reordered, across frame boundaries too.
\<close>

theorem rx_stream_exact:
  assumes "read_frames n rt w = (Some (frs, rt'), w')" and "rx_ok rt" and "rx_size rt \<le> rx_limit"
  shows "length frs = n \<and> list_all frame_wf frs \<and>
    (\<exists>con. rscript w = con @ rscript w' \<and> rx_buf rt @ delivered con = concat (map frame_bytes frs) @ rx_buf rt')"
  using read_frames_stream [OF assms] by blast

text \<open>
  C36. The receive buffer is bounded. Whatever arrives and whatever fails, a read of a frame never leaves the
  buffer, keeps it at no more than 8 MiB, a header and one transfer in a block of at most 16 MiB, returns only
  well-formed frames with payloads of at most 8 MiB, and leaves only that payload and the buffer allocated.
\<close>

theorem rx_bounded:
  assumes "read_frame_buffered rt w = (Done (r, rt'), w')" and "rx_ok rt" and "rx_size rt \<le> rx_limit"
  shows "rx_ok rt' \<and> rx_size rt' \<le> rx_limit \<and> rx_cap rt' \<le> 16777216 \<and>
    (case r of
       Inl e \<Rightarrow> e \<noteq> OutOfBounds \<and> live w' - rx_block rt' = live w - rx_block rt
     | Inr fr \<Rightarrow> frame_wf fr \<and> unat (payload_len (header fr)) \<le> USB_RESPONDER_MAX_PAYLOAD \<and>
         live w' - rx_block rt' = live w - rx_block rt + (if payload fr = None then 0 else 1))"
proof -
  note S = read_frame_buffered_spec [OF assms]
  have "2 ^ k \<le> (2 :: nat) ^ 12" if "k \<le> 12" for k :: nat using that by (intro power_increasing) simp_all
  then have "c \<le> 16777216" if "c \<in> rx_capacities" for c using that by (auto simp: rx_capacities_def)
  then have "rx_cap rt' \<le> 16777216" using S by (simp add: rx_ok_def)
  with S show ?thesis by (auto simp: rx_next_def rx_moves_def split: sum.splits)
qed

text \<open>
  Frames are delivered. While the endpoint is alive (calls are at most interrupted or time out, data is
  reported before it is read) and memory does not run out, a well-formed frame of at most 8 MiB at the front of the
  buffered and the arriving data is returned, after however many timeouts and however small transfers.
\<close>

theorem rx_delivers:
  assumes "alive w" and "rx_ok rt" "rx_size rt \<le> rx_limit" and "frame_wf fr"
    and "unat (payload_len (header fr)) \<le> USB_RESPONDER_MAX_PAYLOAD"
    and "rx_buf rt @ delivered (rscript w) = frame_bytes fr @ more_data"
  shows "\<exists>rt' w'. read_frame_buffered rt w = (Done (Inr fr, rt'), w')"
  using read_frame_buffered_alive [OF assms] by blast

theorem rx_delivers_witness:
  "\<exists>rt' w'. read_frame_buffered start_runtime two_frames_world = (Done (Inr (sealed sample_frame), rt'), w')"
proof (rule rx_delivers [OF two_frames_alive _ _ sealed_sample(1)])
  show "rx_buf start_runtime @ delivered (rscript two_frames_world) = frame_bytes (sealed sample_frame) @ frame_bytes sample_frame"
    by (simp add: two_frames_data start_runtime_def)
qed (simp_all add: sealed_sample(2))

lemma two_frames_read:
  "\<exists>rt' w'. read_frames 2 start_runtime two_frames_world = (Some ([sealed sample_frame, sealed sample_frame], rt'), w')"
proof -
  let ?fr = "sealed sample_frame"
  have b: "frame_wf ?fr" "unat (payload_len (header ?fr)) \<le> 8388608" by (simp_all add: sealed_sample)
  have d: "rx_buf start_runtime @ delivered (rscript two_frames_world) = frame_bytes ?fr @ frame_bytes ?fr"
    by (simp add: two_frames_data start_runtime_def)
  obtain rt1 w1 where r1: "read_frame_buffered start_runtime two_frames_world = (Done (Inr ?fr, rt1), w1)" "alive w1"
    using read_frame_buffered_alive [OF two_frames_alive start_runtime_ok b d] by blast
  note S = read_frame_buffered_spec [OF r1(1) start_runtime_ok]
  then obtain con where "rscript two_frames_world = con @ rscript w1"
      "rx_buf start_runtime @ delivered con = frame_bytes ?fr @ rx_buf rt1"
    by (auto simp: rx_next_def rx_moves_def)
  then have d1: "rx_buf rt1 @ delivered (rscript w1) = frame_bytes ?fr @ []"
    using d by (simp flip: append_assoc) simp
  obtain rt2 w2 where r2: "read_frame_buffered rt1 w1 = (Done (Inr ?fr, rt2), w2)"
    using read_frame_buffered_alive [OF r1(2) _ _ b d1] S by blast
  show ?thesis using r1(1) r2 by (simp add: numeral_2_eq_2)
qed

theorem rx_stream_exact_witness:
  "\<exists>frs rt' w'. read_frames 2 start_runtime two_frames_world = (Some (frs, rt'), w') \<and> length frs = 2"
  using two_frames_read rx_stream_exact [of 2 start_runtime two_frames_world] start_runtime_ok by blast

theorem rx_bounded_witness:
  "\<exists>rt' w'. read_frame_buffered start_runtime two_frames_world = (Done (Inr (sealed sample_frame), rt'), w') \<and>
     rx_cap rt' \<le> 16777216"
proof -
  obtain rt' w' where "read_frame_buffered start_runtime two_frames_world = (Done (Inr (sealed sample_frame), rt'), w')"
    using two_frames_read by (auto simp: numeral_2_eq_2 split: prod.splits io.splits sum.splits option.splits)
  with rx_bounded [OF this start_runtime_ok] show ?thesis by blast
qed

end
