(* ===== verification/Kv.thy ===== *)
theory Kv
  imports Protocol Codec
begin

text \<open>
  Key-value payloads (\<open>src/protocol.c\<close>): the encoder with its growing buffer and its
  16-bit length fields, and the decoder that runs on bytes from the host. The lemmas show
  what an encoding decodes to (texts of up to 65535 characters unchanged, longer ones cut
  to their length modulo 65536), that the decoder stays inside its input on every byte
  sequence, and how many heap blocks each outcome leaves behind.
\<close>

section \<open>Key-value payloads\<close>

text \<open>
  A growing buffer is its content and its capacity; capacity zero is the null pointer.
\<close>

type_synonym growbuf = "byte list \<times> nat"

definition append_bytes ::
  "growbuf \<Rightarrow> byte list \<Rightarrow> 'a io_world_scheme \<Rightarrow> growbuf option \<times> 'a io_world_scheme" where
  "append_bytes gb src w =
     (let (buf, cap) = gb;
          need = length buf + length src
      in if cap < need then
           let new_cap = grow_cap (if cap = 0 then 64 else cap) need
           in case c_realloc (cap \<noteq> 0) w of
                (False, w1) \<Rightarrow> (None, w1)
              | (True, w1) \<Rightarrow> (Some (buf @ src, new_cap), w1)
         else (Some (buf @ src, cap), w))"

definition kv_text :: "string option \<Rightarrow> string" where
  "kv_text s = (case s of None \<Rightarrow> [] | Some t \<Rightarrow> c_str t)"

definition kv_len :: "string option \<Rightarrow> u16" where
  "kv_len s = of_nat (length (kv_text s))"

definition append_counted ::
  "growbuf \<Rightarrow> string option \<Rightarrow> 'a io_world_scheme \<Rightarrow> growbuf option \<times> 'a io_world_scheme" where
  "append_counted gb s w =
     (if 0 < kv_len s then append_bytes gb (take (unat (kv_len s)) (bytes_of (kv_text s))) w
      else (Some gb, w))"

fun encode_kv_items ::
  "kv list \<Rightarrow> growbuf \<Rightarrow> 'a io_world_scheme \<Rightarrow> byte list cres \<times> 'a io_world_scheme" where
  "encode_kv_items [] gb w = (Inr (fst gb), w)"
| "encode_kv_items (it # its) gb w =
     (case append_bytes gb (write_le16 (kv_len (kv_key it)) @ write_le16 (kv_len (kv_value it))) w of
        (None, w1) \<Rightarrow> (Inl NoMem, c_free True w1)
      | (Some gb1, w1) \<Rightarrow>
          (case append_counted gb1 (kv_key it) w1 of
             (None, w2) \<Rightarrow> (Inl NoMem, c_free True w2)
           | (Some gb2, w2) \<Rightarrow>
               (case append_counted gb2 (kv_value it) w2 of
                  (None, w3) \<Rightarrow> (Inl NoMem, c_free True w3)
                | (Some gb3, w3) \<Rightarrow> encode_kv_items its gb3 w3)))"

definition usb_responder_protocol_encode_kv ::
  "kv list \<Rightarrow> 'a io_world_scheme \<Rightarrow> byte list cres \<times> 'a io_world_scheme" where
  "usb_responder_protocol_encode_kv items w =
     (if USB_RESPONDER_MAX_KV < length items then (Inl Reject, w)
      else case append_bytes ([], 0) (write_le16 (of_nat (length items))) w of
        (None, w1) \<Rightarrow> (Inl NoMem, w1)
      | (Some gb, w1) \<Rightarrow> encode_kv_items items gb w1)"

fun usb_responder_protocol_kv_free :: "kv list \<Rightarrow> 'a io_world_scheme \<Rightarrow> 'a io_world_scheme" where
  "usb_responder_protocol_kv_free [] w = w"
| "usb_responder_protocol_kv_free (it # its) w =
     usb_responder_protocol_kv_free its
       (c_free (kv_value it \<noteq> None) (c_free (kv_key it \<noteq> None) w))"

text \<open>
  One pass of the loop per item: \<open>acc\<close> holds the items decoded so far. The last line of
  the routine rejects trailing bytes and does not release the items.
\<close>

fun decode_kv_items ::
  "nat \<Rightarrow> byte list \<Rightarrow> nat \<Rightarrow> nat \<Rightarrow> kv list \<Rightarrow> 'a io_world_scheme \<Rightarrow> kv list cres \<times> 'a io_world_scheme"
where
  "decode_kv_items 0 data sz off acc w = (if off = sz then Inr acc else Inl Reject, w)"
| "decode_kv_items (Suc n) data sz off acc w =
     (if sz < off + 4 then (Inl Reject, usb_responder_protocol_kv_free acc w)
      else case bind_sum (read_le16 data off) (\<lambda>k. bind_sum (read_le16 data (off + 2)) (\<lambda>v. Inr (k, v))) of
        Inl e \<Rightarrow> (Inl e, w)
      | Inr (klen, vlen) \<Rightarrow>
          let o1 = off + 4; kn = unat klen; vn = unat vlen
          in if sz < o1 + kn + vn then (Inl Reject, usb_responder_protocol_kv_free acc w)
             else
               let (kok, w1) = c_malloc w; (vok, w2) = c_malloc w1
               in if \<not> kok \<or> \<not> vok then
                    (Inl NoMem, usb_responder_protocol_kv_free
                       (acc @ [\<lparr>kv_key = (if kok then Some [] else None),
                                kv_value = (if vok then Some [] else None)\<rparr>]) w2)
                  else case bind_sum (load data o1 kn) (\<lambda>k. bind_sum (load data (o1 + kn) vn) (\<lambda>v. Inr (k, v))) of
                    Inl e \<Rightarrow> (Inl e, w2)
                  | Inr (k, v) \<Rightarrow>
                      decode_kv_items n data sz (o1 + kn + vn)
                        (acc @ [\<lparr>kv_key = Some (chars_of k), kv_value = Some (chars_of v)\<rparr>]) w2)"

definition usb_responder_protocol_decode_kv ::
  "byte list option \<Rightarrow> nat \<Rightarrow> nat \<Rightarrow> 'a io_world_scheme \<Rightarrow> kv list cres \<times> 'a io_world_scheme" where
  "usb_responder_protocol_decode_kv data sz max_items w =
     (case data of
        None \<Rightarrow> (Inl Reject, w)
      | Some d \<Rightarrow>
          if sz < 2 then (Inl Reject, w)
          else case read_le16 d 0 of
            Inl e \<Rightarrow> (Inl e, w)
          | Inr count \<Rightarrow>
              if max_items < unat count \<or> USB_RESPONDER_MAX_KV < unat count then (Inl Reject, w)
              else decode_kv_items (unat count) d sz 2 [] w)"

section \<open>Encoding\<close>

definition kv_item_bytes :: "kv \<Rightarrow> byte list" where
  "kv_item_bytes it =
     write_le16 (kv_len (kv_key it)) @ write_le16 (kv_len (kv_value it)) @
     take (unat (kv_len (kv_key it))) (bytes_of (kv_text (kv_key it))) @
     take (unat (kv_len (kv_value it))) (bytes_of (kv_text (kv_value it)))"

definition kv_bytes :: "kv list \<Rightarrow> byte list" where
  "kv_bytes its = write_le16 (of_nat (length its)) @ concat (map kv_item_bytes its)"

lemma append_bytes_cases:
  obtains (ok) cap' w' where "append_bytes (buf, cap) src w = (Some (buf @ src, cap'), w')"
      "buf @ src \<noteq> [] \<longrightarrow> 0 < cap'" "0 < cap \<longrightarrow> 0 < cap'"
      "mem_only w w' (if cap = 0 \<and> buf @ src \<noteq> [] then 1 else 0)"
  | (fail) w' where "append_bytes (buf, cap) src w = (None, w')" "mem_only w w' 0" "allocs w \<noteq> []"
proof (cases "cap < length buf + length src")
  case True
  let ?cap = "grow_cap (if cap = 0 then 64 else cap) (length buf + length src)"
  have pos: "0 < ?cap" by (simp add: grow_cap_pos)
  have ne: "buf @ src \<noteq> []" using True by auto
  show ?thesis
  proof (cases rule: c_realloc_cases [of "cap \<noteq> 0" w])
    case (ok w1)
    then show ?thesis using True pos ne
      by (intro that(1) [of ?cap w1]) (auto simp: append_bytes_def Let_def)
  next
    case (fail w1)
    then show ?thesis using True by (intro that(2) [of w1]) (auto simp: append_bytes_def Let_def)
  qed
next
  case False
  then have "buf @ src \<noteq> [] \<Longrightarrow> 0 < cap" by (cases buf; cases src) auto
  with False show ?thesis by (intro ok [of cap w]) (auto simp: append_bytes_def Let_def)
qed

lemma append_counted_cases:
  assumes "0 < cap"
  obtains (ok) cap' w' where
      "append_counted (buf, cap) t w =
        (Some (buf @ take (unat (kv_len t)) (bytes_of (kv_text t)), cap'), w')"
      "0 < cap'" "mem_only w w' 0"
  | (fail) w' where "append_counted (buf, cap) t w = (None, w')" "mem_only w w' 0" "allocs w \<noteq> []"
proof (cases "0 < kv_len t")
  case True
  show ?thesis
    by (rule append_bytes_cases [of buf cap "take (unat (kv_len t)) (bytes_of (kv_text t))" w])
      (use True assms in \<open>auto simp: append_counted_def intro: ok fail\<close>)
next
  case False
  then have "unat (kv_len t) = 0" by (simp add: word_gt_0)
  with False assms show ?thesis
    by (intro ok [of cap w]) (auto simp: append_counted_def)
qed

lemma mem_only_then_free: "mem_only w w' 0 \<Longrightarrow> mem_only w (c_free True w') (- 1)"
  using mem_only_trans [OF _ c_free_mem [of w' True], of w 0] by simp

lemma encode_kv_items_spec:
  "0 < cap \<Longrightarrow> encode_kv_items its (buf, cap) w = (r, w') \<Longrightarrow>
   (r = Inr (buf @ concat (map kv_item_bytes its)) \<and> mem_only w w' 0)
   \<or> (r = Inl NoMem \<and> mem_only w w' (- 1) \<and> allocs w \<noteq> [])"
proof (induction its arbitrary: buf cap w)
  case Nil
  then show ?case by auto
next
  case (Cons it its)
  let ?lens = "write_le16 (kv_len (kv_key it)) @ write_le16 (kv_len (kv_value it))"
  show ?case
  proof (cases rule: append_bytes_cases [of buf cap ?lens w])
    case (fail w1)
    with Cons.prems(2) mem_only_then_free show ?thesis by auto
  next
    case (ok c1 w1)
    then have c1: "0 < c1" and m1: "mem_only w w1 0" using Cons.prems(1) by auto
    from c1 show ?thesis
    proof (cases rule: append_counted_cases [of c1 "buf @ ?lens" "kv_key it" w1])
      case (fail w2)
      have "mem_only w w2 0" "allocs w \<noteq> []"
        using mem_only_trans [OF m1 fail(2)] mem_only_calm [OF m1] fail(3) by auto
      then show ?thesis using Cons.prems(2) ok(1) fail(1) mem_only_then_free by auto
    next
      case ok2: (ok c2 w2)
      have m2: "mem_only w w2 0" using mem_only_trans [OF m1 ok2(3)] by simp
      let ?b2 = "(buf @ ?lens) @ take (unat (kv_len (kv_key it))) (bytes_of (kv_text (kv_key it)))"
      from ok2(2) show ?thesis
      proof (cases rule: append_counted_cases [of c2 ?b2 "kv_value it" w2])
        case (fail w3)
        have "mem_only w w3 0" "allocs w \<noteq> []"
          using mem_only_trans [OF m2 fail(2)] mem_only_calm [OF m2] fail(3) by auto
        then show ?thesis using Cons.prems(2) ok(1) ok2(1) fail(1) mem_only_then_free by auto
      next
        case ok3: (ok c3 w3)
        have m3: "mem_only w w3 0" using mem_only_trans [OF m2 ok3(3)] by simp
        let ?b3 = "?b2 @ take (unat (kv_len (kv_value it))) (bytes_of (kv_text (kv_value it)))"
        have "encode_kv_items its (?b3, c3) w3 = (r, w')"
          using Cons.prems(2) ok(1) ok2(1) ok3(1) by simp
        from Cons.IH [OF ok3(2) this] show ?thesis
          using mem_only_trans [OF m3, of w' 0] mem_only_trans [OF m3, of w' "- 1"] mem_only_calm [OF m3]
          by (auto simp: kv_item_bytes_def)
      qed
    qed
  qed
qed

lemma encode_kv_cases:
  assumes "length its \<le> 32"
  obtains (ok) w' where "usb_responder_protocol_encode_kv its w = (Inr (kv_bytes its), w')" "mem_only w w' 1"
  | (fail) w' where "usb_responder_protocol_encode_kv its w = (Inl NoMem, w')" "mem_only w w' 0" "allocs w \<noteq> []"
proof (cases rule: append_bytes_cases [of "[]" 0 "write_le16 (of_nat (length its))" w])
  case (fail w1)
  with assms that(2) show ?thesis by (auto simp: usb_responder_protocol_encode_kv_def)
next
  case (ok c w1)
  have ne: "write_le16 (of_nat (length its)) \<noteq> []" by (simp add: write_le16_def)
  with ok have c: "0 < c" and m1: "mem_only w w1 1" by auto
  obtain r w' where r: "encode_kv_items its (write_le16 (of_nat (length its)), c) w1 = (r, w')"
    by (metis surj_pair)
  with assms ok(1) have top: "usb_responder_protocol_encode_kv its w = (r, w')"
    by (simp add: usb_responder_protocol_encode_kv_def)
  from encode_kv_items_spec [OF c r] show ?thesis
    using top that mem_only_trans [OF m1, of w' 0] mem_only_trans [OF m1, of w' "- 1"] mem_only_calm [OF m1]
    by (auto simp: kv_bytes_def)
qed

section \<open>Decoding\<close>

definition kv_full :: "kv \<Rightarrow> bool" where
  "kv_full it \<longleftrightarrow> kv_key it \<noteq> None \<and> kv_value it \<noteq> None"

lemma kv_free_app:
  "usb_responder_protocol_kv_free (its @ js) w =
   usb_responder_protocol_kv_free js (usb_responder_protocol_kv_free its w)"
  by (induction its arbitrary: w) simp_all

lemma kv_free_mem:
  "list_all kv_full its \<Longrightarrow> mem_only w (usb_responder_protocol_kv_free its w) (- 2 * int (length its))"
proof (induction its arbitrary: w)
  case Nil
  then show ?case by simp
next
  case (Cons it its)
  let ?w = "c_free (kv_value it \<noteq> None) (c_free (kv_key it \<noteq> None) w)"
  have "mem_only w ?w (- 2)"
    using Cons.prems mem_only_trans [OF c_free_mem [of w True] c_free_mem [of _ True]]
    by (simp add: kv_full_def)
  moreover have "mem_only ?w (usb_responder_protocol_kv_free its ?w) (- 2 * int (length its))"
    using Cons by simp
  ultimately show ?case
    using mem_only_trans [of w ?w "- 2" _ "- 2 * int (length its)"] by (simp add: algebra_simps)
qed

text \<open>
  The decoder on any bytes: it never leaves the buffer; it returns complete items, or it
  has released what it had, except when it only stumbles over trailing bytes at the end.
\<close>

definition kv_outcome ::
  "nat \<Rightarrow> kv list \<Rightarrow> 'a io_world_scheme \<Rightarrow> kv list cres \<Rightarrow> 'a io_world_scheme \<Rightarrow> bool" where
  "kv_outcome n acc w r w' \<longleftrightarrow>
     (case r of
        Inr items \<Rightarrow> (\<exists>new. items = acc @ new \<and> length new = n \<and> list_all kv_full new) \<and>
          mem_only w w' (2 * int n)
      | Inl NoMem \<Rightarrow> mem_only w w' (- 2 * int (length acc)) \<and> allocs w \<noteq> []
      | Inl Reject \<Rightarrow> mem_only w w' (- 2 * int (length acc)) \<or> mem_only w w' (2 * int n)
      | Inl OutOfBounds \<Rightarrow> False)"

lemma kv_partial_free_mem:
  assumes "list_all kv_full acc"
  shows "mem_only w (usb_responder_protocol_kv_free
      (acc @ [\<lparr>kv_key = (if a then Some [] else None), kv_value = (if b then Some [] else None)\<rparr>]) w)
      (- 2 * int (length acc) + (- of_bool a - of_bool b))"
proof -
  let ?w = "usb_responder_protocol_kv_free acc w"
  have "mem_only ?w (c_free b (c_free a ?w)) (- of_bool a - of_bool b)"
    using mem_only_trans [OF c_free_mem [of ?w a] c_free_mem [of "c_free a ?w" b]]
    by (cases a; cases b) simp_all
  from mem_only_trans [OF kv_free_mem [OF assms] this] show ?thesis
    by (cases a; cases b) (simp_all add: kv_free_app)
qed

lemma decode_kv_items_outcome:
  "decode_kv_items n data sz off acc w = (r, w') \<Longrightarrow> sz \<le> length data \<Longrightarrow> list_all kv_full acc \<Longrightarrow>
   kv_outcome n acc w r w'"
proof (induction n arbitrary: off acc w)
  case 0
  then show ?case by (auto simp: kv_outcome_def)
next
  case (Suc n)
  show ?case
  proof (cases "sz < off + 4")
    case True
    with Suc.prems kv_free_mem [of acc w] show ?thesis by (auto simp: kv_outcome_def)
  next
    case False
    then have "off + 2 \<le> length data" "off + 2 + 2 \<le> length data" using Suc.prems(2) by simp_all
    then obtain k v where kv: "read_le16 data off = Inr k" "read_le16 data (off + 2) = Inr v"
      using read_le16_in [of off data] read_le16_in [of "off + 2" data] by auto
    define next_off where "next_off = off + 4 + unat k + unat v"
    show ?thesis
    proof (cases "sz < next_off")
      case True
      with False kv Suc.prems kv_free_mem [of acc w] show ?thesis
        by (auto simp: kv_outcome_def next_off_def Let_def)
    next
      case in_range: False
      obtain kok w1 vok w2 where m: "c_malloc w = (kok, w1)" "c_malloc w1 = (vok, w2)" by (metis surj_pair)
      have m1: "mem_only w w1 (of_bool kok)" "\<not> kok \<Longrightarrow> allocs w \<noteq> []"
        using m(1) by (cases rule: c_malloc_cases [of w], auto)+
      have m2: "mem_only w1 w2 (of_bool vok)" "\<not> vok \<Longrightarrow> allocs w1 \<noteq> []"
        using m(2) by (cases rule: c_malloc_cases [of w1], auto)+
      have m12: "mem_only w w2 (of_bool kok + of_bool vok)" using mem_only_trans [OF m1(1) m2(1)] .
      show ?thesis
      proof (cases "kok \<and> vok")
        case False
        let ?part = "[\<lparr>kv_key = (if kok then Some [] else None), kv_value = (if vok then Some [] else None)\<rparr>]"
        have "r = Inl NoMem" "w' = usb_responder_protocol_kv_free (acc @ ?part) w2"
          using Suc.prems(1) \<open>\<not> sz < off + 4\<close> in_range kv m False
          by (auto simp: next_off_def Let_def)
        moreover have "mem_only w (usb_responder_protocol_kv_free (acc @ ?part) w2) (- 2 * int (length acc))"
          using mem_only_trans [OF m12 kv_partial_free_mem [OF Suc.prems(3), of w2 kok vok]] by simp
        moreover have "allocs w \<noteq> []"
          using False m1 m2(2) mem_only_calm [OF m1(1)] by auto
        ultimately show ?thesis by (simp add: kv_outcome_def)
      next
        case True
        let ?it = "\<lparr>kv_key = Some (chars_of (take (unat k) (drop (off + 4) data))),
                     kv_value = Some (chars_of (take (unat v) (drop (off + 4 + unat k) data)))\<rparr>"
        have "decode_kv_items n data sz next_off (acc @ [?it]) w2 = (r, w')"
          using Suc.prems(1,2) \<open>\<not> sz < off + 4\<close> in_range kv m True
          by (auto simp: next_off_def Let_def)
        moreover have "list_all kv_full (acc @ [?it])" using Suc.prems(3) by simp (simp add: kv_full_def)
        ultimately have o: "kv_outcome n (acc @ [?it]) w2 r w'" using Suc.IH Suc.prems(2) by blast
        have m2': "mem_only w w2 2" using m12 True by simp
        show ?thesis
        proof (cases r)
          case (Inl e)
          then show ?thesis using o mem_only_trans [OF m2'] mem_only_calm [OF m2']
            by (cases e) (auto simp: kv_outcome_def algebra_simps dest!: mem_only_trans [OF m2'])
        next
          case (Inr items)
          with o obtain new where "items = acc @ (?it # new)" "length new = n" "list_all kv_full new"
            "mem_only w2 w' (2 * int n)" by (auto simp: kv_outcome_def)
          with Inr mem_only_trans [OF m2'] show ?thesis
            by (auto simp: kv_outcome_def kv_full_def algebra_simps dest!: mem_only_trans [OF m2'])
        qed
      qed
    qed
  qed
qed

lemma decode_kv_outcome:
  assumes "sz \<le> length d" and "usb_responder_protocol_decode_kv (Some d) sz mx w = (r, w')"
  shows "(case r of
      Inr items \<Rightarrow> list_all kv_full items \<and> length items \<le> 32 \<and> mem_only w w' (2 * int (length items))
    | Inl e \<Rightarrow> e \<noteq> OutOfBounds \<and> (\<exists>n\<le>32. mem_only w w' (2 * int n)))"
proof (cases "sz < 2")
  case True
  with assms(2) show ?thesis
    by (auto simp: usb_responder_protocol_decode_kv_def intro!: exI [of _ "0 :: nat"])
next
  case False
  then obtain c where c: "read_le16 d 0 = Inr c" using read_le16_in [of 0 d] assms(1) by auto
  show ?thesis
  proof (cases "mx < unat c \<or> 32 < unat c")
    case True
    with False c assms(2) show ?thesis
      by (auto simp: usb_responder_protocol_decode_kv_def intro!: exI [of _ "0 :: nat"])
  next
    case ok: False
    with False c assms(2) have "decode_kv_items (unat c) d sz 2 [] w = (r, w')"
      by (auto simp: usb_responder_protocol_decode_kv_def)
    then have o: "kv_outcome (unat c) [] w r w'"
      using assms(1) by (rule decode_kv_items_outcome) simp
    show ?thesis
    proof (cases r)
      case (Inl e)
      with o ok show ?thesis
        by (cases e) (auto simp: kv_outcome_def intro: exI [of _ "0 :: nat"] exI [of _ "unat c"])
    next
      case (Inr items)
      with o ok show ?thesis by (auto simp: kv_outcome_def)
    qed
  qed
qed

section \<open>Decoding an encoding\<close>

definition kv_trunc :: "kv \<Rightarrow> kv" where
  "kv_trunc it = \<lparr>kv_key = Some (take (length (kv_text (kv_key it)) mod 65536) (kv_text (kv_key it))),
     kv_value = Some (take (length (kv_text (kv_value it)) mod 65536) (kv_text (kv_value it)))\<rparr>"

lemma unat_kv_len: "unat (kv_len s) = length (kv_text s) mod 65536"
  by (simp add: kv_len_def unat_of_nat take_bit_eq_mod)

lemma kv_len_le [simp]: "length (kv_text s) mod 65536 \<le> length (kv_text s)"
  by simp

lemma length_kv_item_bytes:
  "length (kv_item_bytes it) = 4 + unat (kv_len (kv_key it)) + unat (kv_len (kv_value it))"
  by (simp add: kv_item_bytes_def unat_kv_len min_absorb2)

lemma decode_kv_items_bytes:
  "allocs w = [] \<Longrightarrow>
   decode_kv_items (length its) (pre @ concat (map kv_item_bytes its) @ extra)
     (length pre + length (concat (map kv_item_bytes its)) + length extra) (length pre) acc w
   = (if extra = [] then Inr (acc @ map kv_trunc its) else Inl Reject,
      w\<lparr>live := live w + 2 * int (length its)\<rparr>)"
proof (induction its arbitrary: pre acc w)
  case Nil
  then show ?case by simp
next
  case (Cons it its)
  let ?k = "kv_len (kv_key it)" and ?v = "kv_len (kv_value it)"
  let ?kb = "take (unat ?k) (bytes_of (kv_text (kv_key it)))"
  let ?vb = "take (unat ?v) (bytes_of (kv_text (kv_value it)))"
  let ?rest = "concat (map kv_item_bytes its) @ extra"
  let ?data = "pre @ write_le16 ?k @ write_le16 ?v @ ?kb @ ?vb @ ?rest"
  let ?sz = "length pre + length (concat (map kv_item_bytes (it # its))) + length extra"
  have data: "pre @ concat (map kv_item_bytes (it # its)) @ extra = ?data"
    by (simp add: kv_item_bytes_def)
  have kb: "length ?kb = unat ?k" and vb: "length ?vb = unat ?v"
    by (simp_all add: unat_kv_len min_absorb2)
  have sz: "?sz = length pre + 4 + unat ?k + unat ?v + length ?rest"
    by (simp add: length_kv_item_bytes)
  have rd: "read_le16 ?data (length pre) = Inr ?k" "read_le16 ?data (length pre + 2) = Inr ?v"
    by (simp_all add: codec_simps)
  have ld: "load ?data (length pre + 4) (unat ?k) = Inr ?kb"
    "load ?data (length pre + 4 + unat ?k) (unat ?v) = Inr ?vb"
    using kb vb by (simp_all add: load_def)
  have it: "\<lparr>kv_key = Some (chars_of ?kb), kv_value = Some (chars_of ?vb)\<rparr> = kv_trunc it"
    by (simp add: kv_trunc_def unat_kv_len take_map [symmetric])
  let ?pre = "pre @ kv_item_bytes it" and ?w = "w\<lparr>live := live w + 2\<rparr>"
  have mal: "c_malloc w = (True, w\<lparr>live := live w + 1\<rparr>)"
    "c_malloc (w\<lparr>live := live w + 1\<rparr>) = (True, ?w)"
    using Cons.prems by (simp_all add: c_malloc_succeeds)
  have "decode_kv_items (length (it # its)) ?data ?sz (length pre) acc w
      = decode_kv_items (length its) ?data ?sz (length pre + 4 + unat ?k + unat ?v) (acc @ [kv_trunc it]) ?w"
    using it by (simp only: length_Cons decode_kv_items.simps rd ld mal bind_sum_simps sum.case prod.case Let_def)
      (simp add: length_kv_item_bytes del: length_concat)
  also have "\<dots> = decode_kv_items (length its) (?pre @ ?rest)
      (length ?pre + length (concat (map kv_item_bytes its)) + length extra) (length ?pre) (acc @ [kv_trunc it]) ?w"
    by (simp add: length_kv_item_bytes add.assoc) (simp add: kv_item_bytes_def)
  also have "\<dots> = (if extra = [] then Inr ((acc @ [kv_trunc it]) @ map kv_trunc its) else Inl Reject,
      ?w\<lparr>live := live ?w + 2 * int (length its)\<rparr>)"
    using Cons.IH [of ?w ?pre "acc @ [kv_trunc it]"] Cons.prems by simp
  finally show ?case unfolding data by simp
qed

lemma decode_kv_bytes:
  assumes "length its \<le> 32" and "length its \<le> mx" and "allocs w = []"
  shows "usb_responder_protocol_decode_kv (Some (kv_bytes its @ extra)) (length (kv_bytes its @ extra)) mx w
    = (if extra = [] then Inr (map kv_trunc its) else Inl Reject, w\<lparr>live := live w + 2 * int (length its)\<rparr>)"
proof -
  have c: "unat (of_nat (length its) :: u16) = length its"
    using assms(1) by (simp add: unat_of_nat take_bit_eq_mod)
  show ?thesis
    using decode_kv_items_bytes [OF assms(3), of its "write_le16 (of_nat (length its))" extra "[]"] assms(1,2)
    by (simp add: usb_responder_protocol_decode_kv_def kv_bytes_def codec_simps c)
qed

definition kv_item_wf :: "kv \<Rightarrow> bool" where
  "kv_item_wf it =
     (case (kv_key it, kv_value it) of
        (Some k, Some v) \<Rightarrow> nul_free k \<and> nul_free v \<and> length k < 65536 \<and> length v < 65536
      | _ \<Rightarrow> False)"

definition kv_wf :: "kv list \<Rightarrow> bool" where
  "kv_wf its \<longleftrightarrow> length its \<le> 32 \<and> list_all kv_item_wf its"

lemma kv_trunc_id: "kv_item_wf it \<Longrightarrow> kv_trunc it = it"
  by (cases it) (auto simp: kv_item_wf_def kv_trunc_def kv_text_def split: option.splits)

lemma map_kv_trunc_id: "list_all kv_item_wf its \<Longrightarrow> map kv_trunc its = its"
  by (induction its) (simp_all add: kv_trunc_id)

definition kv_enc :: "kv list \<Rightarrow> byte list" where
  "kv_enc its = (case fst (usb_responder_protocol_encode_kv its calm_world) of Inl _ \<Rightarrow> [] | Inr b \<Rightarrow> b)"

definition kv_dec :: "byte list \<Rightarrow> kv list option" where
  "kv_dec d = to_option (fst (usb_responder_protocol_decode_kv (Some d) (length d) USB_RESPONDER_MAX_KV calm_world))"

interpretation kv_codec: encoding kv_enc kv_dec kv_wf
proof unfold_locales
  fix its assume "kv_wf its"
  then have wf: "length its \<le> 32" "map kv_trunc its = its"
    by (auto simp: kv_wf_def map_kv_trunc_id)
  have "kv_enc its = kv_bytes its"
    by (cases rule: encode_kv_cases [OF wf(1), of calm_world]) (auto simp: kv_enc_def)
  then show "kv_dec (kv_enc its) = Some its"
    using decode_kv_bytes [of its 32 calm_world "[]"] wf by (simp add: kv_dec_def)
qed

section \<open>Properties\<close>

text \<open>
  C26. Key-value round trip. A list of at most 32 items whose texts are free of NUL and shorter
  than 65536 characters is decoded back from its encoding, and two different such lists never
  have the same encoding.
\<close>

theorem kv_roundtrip:
  assumes "kv_wf its" and "kv_wf its'"
  shows "kv_dec (kv_enc its) = Some its \<and> (kv_enc its = kv_enc its' \<longleftrightarrow> its = its')"
  using assms by (simp add: kv_codec.dec_enc kv_codec.enc_eq_iff)

definition sample_kv :: "kv list" where
  "sample_kv = [\<lparr>kv_key = Some ''path'', kv_value = Some ''/sd/x''\<rparr>]"

lemma sample_kv_wf: "kv_wf sample_kv"
  by (simp add: sample_kv_def kv_wf_def kv_item_wf_def)

theorem kv_roundtrip_witness:
  "kv_dec (kv_enc sample_kv) = Some sample_kv \<and> kv_enc sample_kv \<noteq> kv_enc []"
proof -
  have "kv_wf []" by (simp add: kv_wf_def)
  from kv_roundtrip [OF sample_kv_wf this] show ?thesis by (simp add: sample_kv_def)
qed

text \<open>
  C27. Long texts. Lengths travel in 16 bits: whatever the items, the peer receives each text cut
  to its length modulo 65536, with no error on either side.
\<close>

theorem kv_texts_cut:
  assumes "length its \<le> 32" and "allocs w = []" and "allocs w2 = []"
  shows "\<exists>b. fst (usb_responder_protocol_encode_kv its w) = Inr b \<and>
    fst (usb_responder_protocol_decode_kv (Some b) (length b) 32 w2) = Inr (map kv_trunc its)"
proof -
  from assms(1) have "fst (usb_responder_protocol_encode_kv its w) = Inr (kv_bytes its)"
    by (rule encode_kv_cases [of its w]) (auto simp: assms(2))
  then show ?thesis using decode_kv_bytes [of its 32 w2 "[]"] assms by simp
qed

theorem kv_texts_cut_witness:
  "\<exists>b. fst (usb_responder_protocol_encode_kv [\<lparr>kv_key = Some ''entries'', kv_value = Some (replicate 65536 (CHR ''x''))\<rparr>] calm_world) = Inr b \<and>
    fst (usb_responder_protocol_decode_kv (Some b) (length b) 32 calm_world)
      = Inr [\<lparr>kv_key = Some ''entries'', kv_value = Some []\<rparr>]"
proof -
  have "c_str (replicate 65536 (CHR ''x'')) = replicate 65536 (CHR ''x'')"
    by (simp add: nul_free_def)
  then have "kv_trunc \<lparr>kv_key = Some ''entries'', kv_value = Some (replicate 65536 (CHR ''x''))\<rparr>
      = \<lparr>kv_key = Some ''entries'', kv_value = Some []\<rparr>"
    by (simp add: kv_trunc_def kv_text_def)
  with kv_texts_cut [of "[\<lparr>kv_key = Some ''entries'', kv_value = Some (replicate 65536 (CHR ''x''))\<rparr>]" calm_world calm_world]
  show ?thesis by simp
qed

text \<open>
  C25. Safety of the key-value decoder. On every byte sequence, every item limit and every
  outcome of the allocator, the decoder stays inside the payload; what it returns are complete
  items, at most 32, with exactly their two blocks each allocated.
\<close>

theorem decode_kv_safe:
  "case usb_responder_protocol_decode_kv (Some d) (length d) mx w of
     (Inl e, w') \<Rightarrow> e \<noteq> OutOfBounds \<and> live w \<le> live w'
   | (Inr items, w') \<Rightarrow> list_all kv_full items \<and> length items \<le> 32 \<and>
       live w' = live w + 2 * int (length items)"
proof -
  obtain r w' where dec: "usb_responder_protocol_decode_kv (Some d) (length d) mx w = (r, w')" by (metis surj_pair)
  from decode_kv_outcome [OF order_refl dec] show ?thesis
    by (cases r) (auto simp: dec dest: mem_only_live)
qed

text \<open>
  C28. A leak. When bytes follow the last item, the decoder reports failure after all items were
  decoded, and their two blocks each stay allocated: its callers do not release them.
\<close>

theorem decode_kv_leaks:
  assumes "length its \<le> 32" and "allocs w = []" and "extra \<noteq> []"
  shows "\<exists>b. fst (usb_responder_protocol_encode_kv its calm_world) = Inr b \<and>
    usb_responder_protocol_decode_kv (Some (b @ extra)) (length (b @ extra)) 32 w
      = (Inl Reject, w\<lparr>live := live w + 2 * int (length its)\<rparr>)"
proof -
  from assms(1) have "fst (usb_responder_protocol_encode_kv its calm_world) = Inr (kv_bytes its)"
    by (rule encode_kv_cases [of its calm_world]) auto
  then show ?thesis using decode_kv_bytes [of its 32 w extra] assms by simp
qed

theorem decode_kv_leaks_witness:
  "\<exists>b. fst (usb_responder_protocol_encode_kv sample_kv calm_world) = Inr b \<and>
    usb_responder_protocol_decode_kv (Some (b @ [0])) (length (b @ [0])) 32 calm_world
      = (Inl Reject, calm_world\<lparr>live := live calm_world + 2 * int (length sample_kv)\<rparr>)"
  by (rule decode_kv_leaks) (simp_all add: sample_kv_def)

end
