(* ===== verification/Commands.thy ===== *)
theory Commands
  imports Protocol Codec
begin

text \<open>
  The payloads of \<open>COMMAND_EXEC\<close> and \<open>COMMAND_RESULT\<close> (\<open>src/protocol.c\<close>). The request
  decoder runs on bytes from the host; its 32-bit size test is exact because the sum it
  compares cannot wrap to a size that was already found to be at least 16. The result
  decoder adds two 32-bit lengths at the width of \<open>size_t\<close>, which is safe from 34 bits up
  and not at 32.
\<close>

section \<open>Requests\<close>

definition usb_responder_protocol_encode_command_request ::
  "command_request \<Rightarrow> 'a io_world_scheme \<Rightarrow> byte list cres \<times> 'a io_world_scheme" where
  "usb_responder_protocol_encode_command_request req w =
     (case req_command req of
        None \<Rightarrow> (Inl Reject, w)
      | Some c \<Rightarrow>
          (case c_malloc w of
             (False, w1) \<Rightarrow> (Inl NoMem, w1)
           | (True, w1) \<Rightarrow>
               (Inr (write_le32 (req_timeout_ms req) @ write_le32 (req_max_stdout req) @
                     write_le32 (req_max_stderr req) @ write_le32 (of_nat (length (c_str c))) @
                     bytes_of (c_str c)), w1)))"

definition usb_responder_protocol_decode_command_request ::
  "byte list option \<Rightarrow> nat \<Rightarrow> 'a io_world_scheme \<Rightarrow> command_request cres \<times> 'a io_world_scheme" where
  "usb_responder_protocol_decode_command_request pl sz w =
     (case pl of
        None \<Rightarrow> (Inl Reject, w)
      | Some p \<Rightarrow>
          if sz < 16 then (Inl Reject, w)
          else case
            bind_sum (read_le32 p 0) (\<lambda>t. bind_sum (read_le32 p 4) (\<lambda>mo.
            bind_sum (read_le32 p 8) (\<lambda>me. bind_sum (read_le32 p 12) (\<lambda>len. Inr (t, mo, me, len))))) of
            Inl e \<Rightarrow> (Inl e, w)
          | Inr (t, mo, me, cmd_len) \<Rightarrow>
              if unat (16 + cmd_len) \<noteq> sz then (Inl Reject, w)
              else case c_malloc w of
                (False, w1) \<Rightarrow> (Inl NoMem, w1)
              | (True, w1) \<Rightarrow>
                  (bind_sum (load p 16 (unat cmd_len)) (\<lambda>d.
                     Inr \<lparr>req_timeout_ms = t, req_max_stdout = mo, req_max_stderr = me,
                          req_command = Some (chars_of d)\<rparr>), w1))"

definition usb_responder_protocol_command_request_free ::
  "command_request \<Rightarrow> 'a io_world_scheme \<Rightarrow> 'a io_world_scheme" where
  "usb_responder_protocol_command_request_free req w = c_free (req_command req \<noteq> None) w"

section \<open>Results\<close>

definition usb_responder_protocol_encode_command_result ::
  "command_result \<Rightarrow> 'a io_world_scheme \<Rightarrow> byte list cres \<times> 'a io_world_scheme" where
  "usb_responder_protocol_encode_command_result res w =
     (case c_malloc w of
        (False, w1) \<Rightarrow> (Inl NoMem, w1)
      | (True, w1) \<Rightarrow>
          (Inr (write_le32 (res_exit_code res) @
                [if res_timed_out res then 1 else 0, 0, 0, 0] @
                write_le32 (res_duration_ms res) @
                write_le32 (of_nat (length (res_stdout res))) @
                write_le32 (of_nat (length (res_stderr res))) @
                res_stdout res @ res_stderr res), w1))"

definition usb_responder_protocol_command_result_free ::
  "command_result \<Rightarrow> 'a io_world_scheme \<Rightarrow> 'a io_world_scheme" where
  "usb_responder_protocol_command_result_free res w =
     c_free (res_stderr res \<noteq> []) (c_free (res_stdout res \<noteq> []) w)"

text \<open>\<open>total\<close> is a \<open>size_t\<close>, of \<open>long_bits\<close> bits.\<close>

definition result_total :: "nat \<Rightarrow> u32 \<Rightarrow> u32 \<Rightarrow> nat" where
  "result_total bits out_len err_len = (20 + unat out_len + unat err_len) mod 2 ^ bits"

definition copy_part ::
  "byte list \<Rightarrow> nat \<Rightarrow> nat \<Rightarrow> 'a io_world_scheme \<Rightarrow> byte list cres \<times> 'a io_world_scheme" where
  "copy_part p off n w =
     (if 0 < n then
        case c_malloc w of
          (False, w1) \<Rightarrow> (Inl NoMem, w1)
        | (True, w1) \<Rightarrow> (load p off n, w1)
      else (Inr [], w))"

definition usb_responder_protocol_decode_command_result ::
  "byte list option \<Rightarrow> nat \<Rightarrow> 'a io_world_scheme \<Rightarrow> command_result cres \<times> 'a io_world_scheme" where
  "usb_responder_protocol_decode_command_result pl sz w =
     (case pl of
        None \<Rightarrow> (Inl Reject, w)
      | Some p \<Rightarrow>
          if sz < 20 then (Inl Reject, w)
          else case
            bind_sum (read_le32 p 0) (\<lambda>code. bind_sum (load p 4 1) (\<lambda>timed.
            bind_sum (read_le32 p 8) (\<lambda>dur. bind_sum (read_le32 p 12) (\<lambda>ol.
            bind_sum (read_le32 p 16) (\<lambda>el. Inr (code, timed, dur, ol, el)))))) of
            Inl e \<Rightarrow> (Inl e, w)
          | Inr (code, timed, dur, out_len, err_len) \<Rightarrow>
              if result_total (long_bits w) out_len err_len \<noteq> sz then (Inl Reject, w)
              else case copy_part p 20 (unat out_len) w of
                (Inl e, w1) \<Rightarrow> (Inl e, w1)
              | (Inr so, w1) \<Rightarrow>
                  let res = \<lparr>res_exit_code = code, res_timed_out = (timed \<noteq> [0]),
                    res_duration_ms = dur, res_stdout = so, res_stderr = []\<rparr>
                  in case copy_part p (20 + unat out_len) (unat err_len) w1 of
                       (Inl e, w2) \<Rightarrow> (Inl e, usb_responder_protocol_command_result_free res w2)
                     | (Inr se, w2) \<Rightarrow> (Inr (res\<lparr>res_stderr := se\<rparr>), w2))"

section \<open>Request lemmas\<close>

lemma decode_request_cases:
  assumes "\<And>p. pl = Some p \<Longrightarrow> sz \<le> length p"
  obtains (reject) e w' where "usb_responder_protocol_decode_command_request pl sz w = (Inl e, w')"
      "e \<noteq> OutOfBounds" "mem_only w w' 0"
  | (accept) req c w' where "usb_responder_protocol_decode_command_request pl sz w = (Inr req, w')"
      "req_command req = Some c" "sz = 16 + length c" "mem_only w w' 1"
proof (cases pl)
  case None
  then show ?thesis
    by (intro reject [of Reject w]) (simp_all add: usb_responder_protocol_decode_command_request_def)
next
  case (Some p)
  show ?thesis
  proof (cases "sz < 16")
    case True
    with Some show ?thesis
      by (intro reject [of Reject w]) (simp_all add: usb_responder_protocol_decode_command_request_def)
  next
    case False
    with assms Some have "16 \<le> length p" by force
    then obtain t mo me len where rd: "read_le32 p 0 = Inr t" "read_le32 p 4 = Inr mo"
        "read_le32 p 8 = Inr me" "read_le32 p 12 = Inr len"
      using read_le32_in [of 0 p] read_le32_in [of 4 p] read_le32_in [of 8 p] read_le32_in [of 12 p] by auto
    show ?thesis
    proof (cases "unat (16 + len) = sz")
      case False
      with \<open>\<not> sz < 16\<close> rd Some show ?thesis
        by (intro reject [of Reject w]) (simp_all add: usb_responder_protocol_decode_command_request_def)
    next
      case True
      then have sz: "sz = 16 + unat len" using u32_add_exact(1) [of 16 len sz] False by simp
      with assms Some have "16 + unat len \<le> length p" by force
      note eval = \<open>\<not> sz < 16\<close> rd Some True
      let ?c = "chars_of (take (unat len) (drop 16 p))"
      show ?thesis
      proof (cases rule: c_malloc_cases [of w])
        case (ok w1)
        then show ?thesis using eval \<open>16 + unat len \<le> length p\<close> sz
          by (intro accept [of "\<lparr>req_timeout_ms = t, req_max_stdout = mo, req_max_stderr = me,
              req_command = Some ?c\<rparr>" w1 ?c]) (simp_all add: min_absorb2 usb_responder_protocol_decode_command_request_def)
      next
        case (fail w1)
        then show ?thesis using eval 
          by (intro reject [of NoMem w1]) (simp_all add: usb_responder_protocol_decode_command_request_def)
      qed
    qed
  qed
qed

definition request_wf :: "command_request \<Rightarrow> bool" where
  "request_wf req \<longleftrightarrow>
     (case req_command req of None \<Rightarrow> False | Some c \<Rightarrow> nul_free c \<and> 16 + length c < 2 ^ 32)"

definition request_enc :: "command_request \<Rightarrow> byte list" where
  "request_enc req =
     (case fst (usb_responder_protocol_encode_command_request req calm_world) of Inl _ \<Rightarrow> [] | Inr b \<Rightarrow> b)"

definition request_dec :: "byte list \<Rightarrow> command_request option" where
  "request_dec d = to_option (fst (usb_responder_protocol_decode_command_request (Some d) (length d) calm_world))"

interpretation request_codec: encoding request_enc request_dec request_wf
proof unfold_locales
  fix req assume "request_wf req"
  then obtain c where c: "req_command req = Some c" "nul_free c" "16 + length c < 2 ^ 32"
    by (auto simp: request_wf_def split: option.splits)
  have "unat (16 + of_nat (length c) :: u32) = 16 + length c"
    using c(3) by (simp add: unat_word_ariths unat_of_nat take_bit_eq_mod)
  moreover have "unat (of_nat (length c) :: u32) = length c"
    using c(3) by (simp add: unat_of_nat take_bit_eq_mod)
  ultimately show "request_dec (request_enc req) = Some req"
    using c by (cases req) (simp add: request_dec_def request_enc_def c_malloc_succeeds codec_simps
        usb_responder_protocol_encode_command_request_def usb_responder_protocol_decode_command_request_def)
qed

section \<open>Result lemmas\<close>

definition result_wf :: "command_result \<Rightarrow> bool" where
  "result_wf res \<longleftrightarrow> length (res_stdout res) < 2 ^ 32 \<and> length (res_stderr res) < 2 ^ 32"

definition result_enc :: "command_result \<Rightarrow> byte list" where
  "result_enc res =
     (case fst (usb_responder_protocol_encode_command_result res calm_world) of Inl _ \<Rightarrow> [] | Inr b \<Rightarrow> b)"

definition result_dec :: "byte list \<Rightarrow> command_result option" where
  "result_dec d = to_option (fst (usb_responder_protocol_decode_command_result (Some d) (length d) calm_world))"

lemma result_total_wide:
  assumes "34 \<le> bits" shows "result_total bits a b = 20 + unat a + unat b"
proof -
  have "unat a < 2 ^ 32" "unat b < 2 ^ 32" using unsigned_less [of a] unsigned_less [of b] by simp_all
  then have "20 + unat a + unat b < 2 ^ 34" by simp
  also have "(2 :: nat) ^ 34 \<le> 2 ^ bits" using assms by (rule power_increasing) simp
  finally show ?thesis by (simp add: result_total_def)
qed

interpretation result_codec: encoding result_enc result_dec result_wf
proof unfold_locales
  fix res assume wf: "result_wf res"
  have lb: "long_bits calm_world = 64" by (simp add: calm_world_def)
  show "result_dec (result_enc res) = Some res"
  proof (cases res)
    case (fields code timed dur so se)
    have lens: "unat (of_nat (length so) :: u32) = length so" "unat (of_nat (length se) :: u32) = length se"
      using wf by (simp_all add: result_wf_def fields unat_of_nat take_bit_eq_mod)
    show ?thesis
      by (simp add: fields result_dec_def result_enc_def c_malloc_succeeds codec_simps copy_part_def
          usb_responder_protocol_encode_command_result_def usb_responder_protocol_decode_command_result_def
          result_total_wide lens lb Let_def drop_Cons')
  qed
qed

section \<open>Decoding results\<close>

lemma copy_part_cases:
  assumes "off + n \<le> length p"
  obtains (ok) w' where "copy_part p off n w = (Inr (take n (drop off p)), w')"
      "mem_only w w' (of_bool (0 < n))"
  | (fail) w' where "copy_part p off n w = (Inl NoMem, w')" "mem_only w w' 0"
proof (cases "0 < n")
  case True
  then show ?thesis using assms that
    by (cases rule: c_malloc_cases [of w]) (simp_all add: copy_part_def)
next
  case False
  then show ?thesis by (intro ok [of w]) (simp_all add: copy_part_def)
qed

lemma command_result_free_mem:
  "mem_only w (usb_responder_protocol_command_result_free res w)
     (- of_bool (res_stdout res \<noteq> []) - of_bool (res_stderr res \<noteq> []))"
proof -
  have eq: "of_bool b = (if b then 1 else 0 :: int)" for b by simp
  show ?thesis
    unfolding usb_responder_protocol_command_result_free_def eq
    using mem_only_trans [OF c_free_mem [of w "res_stdout res \<noteq> []"]
        c_free_mem [of "c_free (res_stdout res \<noteq> []) w" "res_stderr res \<noteq> []"]]
    by (cases "res_stdout res = []"; cases "res_stderr res = []") simp_all
qed

lemma decode_result_cases:
  assumes "34 \<le> long_bits w"
  obtains (reject) e w' where "usb_responder_protocol_decode_command_result (Some p) (length p) w = (Inl e, w')"
      "e \<noteq> OutOfBounds" "live w' = live w"
  | (accept) res w' where "usb_responder_protocol_decode_command_result (Some p) (length p) w = (Inr res, w')"
      "length p = 20 + length (res_stdout res) + length (res_stderr res)"
      "live w' = live w + of_bool (res_stdout res \<noteq> []) + of_bool (res_stderr res \<noteq> [])"
proof (cases "length p < 20")
  case True
  then show ?thesis
    by (intro reject [of Reject w]) (simp_all add: usb_responder_protocol_decode_command_result_def)
next
  case False
  then obtain code dur ol el where rd: "read_le32 p 0 = Inr code" "load p 4 1 = Inr (take 1 (drop 4 p))"
      "read_le32 p 8 = Inr dur" "read_le32 p 12 = Inr ol" "read_le32 p 16 = Inr el"
    using read_le32_in [of 0 p] read_le32_in [of 8 p] read_le32_in [of 12 p] read_le32_in [of 16 p] by auto
  note unf = usb_responder_protocol_decode_command_result_def
  show ?thesis
  proof (cases "20 + unat ol + unat el = length p")
    case bad: False
    then show ?thesis using False rd assms
      by (intro reject [of Reject w]) (simp_all add: unf result_total_wide)
  next
    case len: True
    define so where "so = take (unat ol) (drop 20 p)"
    define se where "se = take (unat el) (drop (20 + unat ol) p)"
    have ls: "length so = unat ol" "length se = unat el" using len by (simp_all add: so_def se_def)
    have "20 + unat ol \<le> length p" using len by simp
    then show ?thesis
    proof (cases rule: copy_part_cases [of 20 "unat ol" p w])
      case (fail w1)
      then show ?thesis using False rd assms len
        by (intro reject [of NoMem w1]) (simp_all add: unf result_total_wide mem_only_live)
    next
      case o: (ok w1)
      have "20 + unat ol + unat el \<le> length p" using len by simp
      then show ?thesis
      proof (cases rule: copy_part_cases [of "20 + unat ol" "unat el" p w1])
        case (fail w2)
        let ?res = "\<lparr>res_exit_code = code, res_timed_out = (take 1 (drop 4 p) \<noteq> [0]), res_duration_ms = dur,
          res_stdout = so, res_stderr = []\<rparr>"
        have "live (usb_responder_protocol_command_result_free ?res w2) = live w"
          using mem_only_live [OF command_result_free_mem [of w2 ?res]] mem_only_live [OF fail(2)]
            mem_only_live [OF o(2)] ls by (simp flip: length_0_conv)
        then show ?thesis using False rd assms len o(1) fail(1)
          by (intro reject [of NoMem "usb_responder_protocol_command_result_free ?res w2"])
            (simp_all add: unf result_total_wide so_def Let_def)
      next
        case (ok w2)
        have ne: "so \<noteq> [] \<longleftrightarrow> 0 < unat ol" "se \<noteq> [] \<longleftrightarrow> 0 < unat el" using ls by (auto simp flip: length_0_conv)
        let ?res = "\<lparr>res_exit_code = code, res_timed_out = (take 1 (drop 4 p) \<noteq> [0]), res_duration_ms = dur,
          res_stdout = so, res_stderr = se\<rparr>"
        show ?thesis
        proof (rule accept [of ?res w2])
          show "usb_responder_protocol_decode_command_result (Some p) (length p) w = (Inr ?res, w2)"
            using False rd assms len o(1) ok(1) by (simp add: unf result_total_wide so_def se_def Let_def)
          show "length p = 20 + length (res_stdout ?res) + length (res_stderr ?res)" using ls len by simp
          show "live w2 = live w + of_bool (res_stdout ?res \<noteq> []) + of_bool (res_stderr ?res \<noteq> [])"
            using mem_only_live [OF o(2)] mem_only_live [OF ok(2)] ne by simp
        qed
      qed
    qed
  qed
qed

section \<open>Properties\<close>

text \<open>
  C29. Command round trip. A request with a command free of NUL whose total size fits 32 bits,
  and a result whose outputs are shorter than \<open>2 ^ 32\<close> bytes, are decoded back from their
  encodings.
\<close>

theorem command_roundtrip:
  assumes "request_wf req" and "result_wf res"
  shows "request_dec (request_enc req) = Some req \<and> result_dec (result_enc res) = Some res"
  using assms by (simp add: request_codec.dec_enc result_codec.dec_enc)

theorem command_roundtrip_witness:
  "let req = \<lparr>req_timeout_ms = 1000, req_max_stdout = 4096, req_max_stderr = 0, req_command = Some ''ls''\<rparr>;
       res = \<lparr>res_exit_code = 1, res_timed_out = False, res_duration_ms = 5, res_stdout = [65], res_stderr = []\<rparr>
   in request_dec (request_enc req) = Some req \<and> result_dec (result_enc res) = Some res"
  unfolding Let_def by (rule command_roundtrip) (simp_all add: request_wf_def result_wf_def)

text \<open>
  Safety of the command decoders. On every payload and every outcome of the allocator the
  request decoder, and on a 64-bit target the result decoder, stays inside the payload, accepts
  only payloads whose length fields account for every byte, and leaves exactly the blocks of
  an accepted value allocated.
\<close>

theorem decode_command_safe:
  assumes "34 \<le> long_bits w"
  shows "(case usb_responder_protocol_decode_command_request (Some p) (length p) w of
       (Inl e, w') \<Rightarrow> e \<noteq> OutOfBounds \<and> live w' = live w
     | (Inr req, w') \<Rightarrow> (\<exists>c. req_command req = Some c \<and> length p = 16 + length c) \<and> live w' = live w + 1) \<and>
    (case usb_responder_protocol_decode_command_result (Some p) (length p) w of
       (Inl e, w') \<Rightarrow> e \<noteq> OutOfBounds \<and> live w' = live w
     | (Inr res, w') \<Rightarrow> length p = 20 + length (res_stdout res) + length (res_stderr res) \<and>
         live w' = live w + of_bool (res_stdout res \<noteq> []) + of_bool (res_stderr res \<noteq> []))"
proof (intro conjI)
  show "case usb_responder_protocol_decode_command_request (Some p) (length p) w of
       (Inl e, w') \<Rightarrow> e \<noteq> OutOfBounds \<and> live w' = live w
     | (Inr req, w') \<Rightarrow> (\<exists>c. req_command req = Some c \<and> length p = 16 + length c) \<and> live w' = live w + 1"
    by (rule decode_request_cases [of "Some p" "length p" w]) (auto dest: mem_only_live)
  show "case usb_responder_protocol_decode_command_result (Some p) (length p) w of
       (Inl e, w') \<Rightarrow> e \<noteq> OutOfBounds \<and> live w' = live w
     | (Inr res, w') \<Rightarrow> length p = 20 + length (res_stdout res) + length (res_stderr res) \<and>
         live w' = live w + of_bool (res_stdout res \<noteq> []) + of_bool (res_stderr res \<noteq> [])"
    by (rule decode_result_cases [OF assms, of p]) auto
qed

theorem decode_command_safe_witness:
  "case usb_responder_protocol_decode_command_result (Some [1]) (length [1 :: byte]) calm_world of
       (Inl e, w') \<Rightarrow> e \<noteq> OutOfBounds \<and> live w' = live calm_world
     | (Inr res, w') \<Rightarrow> length [1 :: byte] = 20 + length (res_stdout res) + length (res_stderr res) \<and>
         live w' = live calm_world + of_bool (res_stdout res \<noteq> []) + of_bool (res_stderr res \<noteq> [])"
proof -
  have "34 \<le> long_bits calm_world" by (simp add: calm_world_def)
  from decode_command_safe [OF this, of "[1]"] show ?thesis by (rule conjunct2)
qed

text \<open>
  The result decoder on a 32-bit target. The sum of the two lengths wraps: a payload of 20
  bytes that announces twice \<open>2 ^ 31\<close> bytes of output passes the size test, and the copy
  reads outside it.
\<close>

theorem decode_command_result_wraps:
  assumes "long_bits w = 32" and "allocs w = []"
  shows "fst (usb_responder_protocol_decode_command_result
    (Some (write_le32 0 @ [0, 0, 0, 0] @ write_le32 0 @ write_le32 0x80000000 @ write_le32 0x80000000)) 20 w)
    = Inl OutOfBounds"
  using assms
  by (simp add: usb_responder_protocol_decode_command_result_def codec_simps result_total_def copy_part_def
      c_malloc_succeeds load_def)

theorem decode_command_result_wraps_witness:
  "fst (usb_responder_protocol_decode_command_result
    (Some (write_le32 0 @ [0, 0, 0, 0] @ write_le32 0 @ write_le32 0x80000000 @ write_le32 0x80000000)) 20
    (calm_world\<lparr>long_bits := 32\<rparr>)) = Inl OutOfBounds"
  by (rule decode_command_result_wraps) simp_all

end
