(* ===== verification/Vfs_Facts.thy ===== *)
theory Vfs_Facts
  imports Posix
begin

text \<open>
  Facts about the trees of \<open>Posix\<close>: well-formedness, what creating, renaming, removing and
  writing a file does to every path.
\<close>

section \<open>Trees\<close>

definition fs_wf :: "vfs \<Rightarrow> bool" where
  "fs_wf v \<longleftrightarrow>
     distinct (map snd (dents v)) \<and>
     (\<forall>(p, i)\<in>set (dents v). i < next_ino v \<and> (p \<noteq> [] \<longrightarrow> is_dir v (butlast p)))"

lemma walk_err_None: "walk_err v p = None \<longleftrightarrow> (\<forall>k<length p. is_dir v (take k p))"
proof -
  have "walk_err v p = None \<longleftrightarrow> List.find (\<lambda>q. \<not> is_dir v q) (map (\<lambda>k. take k p) [0..<length p]) = None"
    by (simp add: walk_err_def split: option.split)
  also have "\<dots> \<longleftrightarrow> (\<forall>k<length p. is_dir v (take k p))" by (auto simp: find_None_iff)
  finally show ?thesis .
qed

lemma walk_err_snoc: "walk_err v (q @ [c]) = None \<longleftrightarrow> (\<forall>k\<le>length q. is_dir v (take k q))"
  by (auto simp: walk_err_None less_Suc_eq_le)

lemma fs_ino_mem: "fs_ino v p = Some i \<Longrightarrow> (p, i) \<in> set (dents v)"
  by (simp add: fs_ino_def map_of_SomeD)

lemma is_dir_get: "is_dir v p \<longleftrightarrow> (\<exists>i. fs_get v p = Some i \<and> i_kind i = Dir)"
  by (auto simp: is_dir_def split: option.splits)

lemma fs_wf_inj:
  assumes "fs_wf v" and "fs_ino v p = Some i" and "fs_ino v q = Some i"
  shows "p = q"
proof -
  have "inj_on snd (set (dents v))" using assms(1) by (simp add: fs_wf_def distinct_map)
  from inj_onD [OF this _ fs_ino_mem [OF assms(2)] fs_ino_mem [OF assms(3)]] show ?thesis by simp
qed

lemma fs_wf_fresh: "fs_wf v \<Longrightarrow> fs_ino v p \<noteq> Some (next_ino v)"
  using fs_ino_mem [of v p "next_ino v"] by (auto simp: fs_wf_def)

text \<open>Nothing lies under a path that is not a directory.\<close>

lemma fs_wf_prefix_dir:
  "fs_wf v \<Longrightarrow> is_dir v q \<Longrightarrow> k \<le> length q \<Longrightarrow> is_dir v (take k q)"
proof (induction q rule: rev_induct)
  case Nil
  then show ?case by simp
next
  case (snoc c q)
  show ?case
  proof (cases "k = length (q @ [c])")
    case True
    with snoc.prems(2) show ?thesis by simp
  next
    case False
    obtain i where "fs_ino v (q @ [c]) = Some i"
      using snoc.prems(2) by (auto simp: is_dir_get fs_get_def)
    from fs_ino_mem [OF this] have "is_dir v q"
      using snoc.prems(1) by (force simp: fs_wf_def)
    with snoc.IH snoc.prems(1,3) False show ?thesis by simp
  qed
qed

lemma fs_wf_leaf:
  assumes wf: "fs_wf v" and mem: "(q, j) \<in> set (dents v)" and u: "under a q" and nd: "\<not> is_dir v a"
  shows "q = a"
proof (rule ccontr)
  assume ne: "q \<noteq> a"
  have "length a < length q"
  proof (rule ccontr)
    assume "\<not> length a < length q"
    with u have "q = a" by (simp add: under_def)
    with ne show False by simp
  qed
  then have q: "q \<noteq> []" "length a \<le> length (butlast q)" by auto
  with wf mem have "is_dir v (butlast q)" by (auto simp: fs_wf_def)
  from fs_wf_prefix_dir [OF wf this q(2)] have "is_dir v (take (length a) (butlast q))" .
  moreover have "take (length a) (butlast q) = take (length a) q"
    using q by (simp add: butlast_conv_take)
  ultimately show False using u nd by (simp add: under_def)
qed

section \<open>Creating\<close>

lemma fs_ino_new: "fs_ino v p = None \<Longrightarrow> fs_ino (fs_new p k m v) q = (if q = p then Some (next_ino v) else fs_ino v q)"
  by (auto simp: fs_ino_def fs_new_def map_add_def split: option.split)

lemma fs_get_new:
  assumes "fs_wf v" and "fs_ino v p = None"
  shows "fs_get (fs_new p k m v) q =
    (if q = p then Some \<lparr>i_kind = k, i_data = [], i_mode = m, i_uid = self_uid v, i_gid = self_gid v\<rparr> else fs_get v q)"
proof (cases "q = p")
  case True
  then show ?thesis using assms(2) by (simp add: fs_get_def fs_ino_new) (simp add: fs_new_def)
next
  case False
  have "inodes (fs_new p k m v) i = inodes v i" if "fs_ino v q = Some i" for i
    using fs_wf_fresh [OF assms(1), of q] that by (auto simp: fs_new_def)
  then show ?thesis using False assms(2) by (cases "fs_ino v q") (simp_all add: fs_get_def fs_ino_new)
qed

text \<open>
  Creating or truncating a regular file: afterwards the path holds an empty file, all other
  paths hold what they held.
\<close>

definition created :: "fpath \<Rightarrow> nat \<Rightarrow> u32 \<Rightarrow> vfs \<Rightarrow> vfs \<Rightarrow> bool" where
  "created p i m v v' \<longleftrightarrow>
     fs_wf v' \<and> fs_ino v' p = Some i \<and> i_kind (inodes v' i) = Reg \<and> i_data (inodes v' i) = [] \<and>
     i_mode (inodes v' i) = (case fs_get v p of None \<Rightarrow> m | Some old \<Rightarrow> i_mode old) \<and>
     (\<forall>q. q \<noteq> p \<longrightarrow> fs_get v' q = fs_get v q)"

lemma is_dir_cong: "fs_get v' q = fs_get v q \<Longrightarrow> is_dir v' q = is_dir v q"
  by (simp add: is_dir_def)

lemma fs_wf_new_file:
  assumes wf: "fs_wf v" and p: "p \<noteq> []" "is_dir v (butlast p)" "fs_ino v p = None"
  shows "fs_wf (fs_new p k m v)"
proof -
  let ?v = "fs_new p k m v"
  have nd: "\<not> is_dir v p" using p(3) by (simp add: is_dir_def fs_get_def)
  have dir: "is_dir ?v q" if d: "is_dir v q" for q
  proof -
    have "q \<noteq> p" using nd d by blast
    then have "fs_get ?v q = fs_get v q" by (simp add: fs_get_new [OF wf p(3)])
    from is_dir_cong [OF this] d show ?thesis by blast
  qed
  have old: "(q, i) \<in> set (dents v) \<Longrightarrow> i < next_ino v \<and> (q \<noteq> [] \<longrightarrow> is_dir v (butlast q))" for q i
    using wf by (auto simp: fs_wf_def)
  have ds: "dents ?v = dents v @ [(p, next_ino v)]" "next_ino ?v = next_ino v + 1" by (simp_all add: fs_new_def)
  have "next_ino v \<notin> set (map snd (dents v))" using old by fastforce
  then have "distinct (map snd (dents ?v))" using wf by (simp add: ds fs_wf_def)
  moreover have "i < next_ino ?v \<and> (q \<noteq> [] \<longrightarrow> is_dir ?v (butlast q))" if mem: "(q, i) \<in> set (dents ?v)" for q i
  proof (cases "(q, i) \<in> set (dents v)")
    case True
    then show ?thesis using old [OF True] dir by (simp add: ds)
  next
    case False
    then have "q = p" "i = next_ino v" using mem by (simp_all add: ds)
    then show ?thesis using dir p(2) by (simp add: ds)
  qed
  ultimately show ?thesis unfolding fs_wf_def by blast
qed

lemma fs_wf_same_dirs:
  assumes "fs_wf v" and "dents v' = dents v" "next_ino v' = next_ino v" and "\<And>q. is_dir v q \<Longrightarrow> is_dir v' q"
  shows "fs_wf v'"
  using assms unfolding fs_wf_def by fastforce

lemma fs_creat_created:
  assumes wf: "fs_wf v" and walk: "walk_err v p = None" and p: "p \<noteq> []"
    and reg: "\<And>old. fs_get v p = Some old \<Longrightarrow> i_kind old = Reg"
  shows "\<exists>i v'. fs_creat p m v = Inr (i, v') \<and> created p i m v v'"
proof (cases "fs_ino v p")
  case None
  let ?v = "fs_new p Reg m v"
  have "is_dir v (butlast p)" using walk p by (simp add: walk_err_None butlast_conv_take)
  then have "fs_wf ?v" using fs_wf_new_file [OF wf p] None by simp
  moreover have "fs_ino ?v p = Some (next_ino v)" using None by (simp add: fs_ino_new)
  moreover have "fs_get v p = None" using None by (simp add: fs_get_def)
  moreover have "fs_get ?v q = fs_get v q" if "q \<noteq> p" for q using that by (simp add: fs_get_new [OF wf None])
  ultimately have "created p (next_ino v) m v ?v" by (simp add: created_def) (simp add: fs_new_def)
  then show ?thesis using None walk by (simp add: fs_creat_def)
next
  case (Some i)
  let ?v = "v\<lparr>inodes := (inodes v)(i := (inodes v i)\<lparr>i_data := []\<rparr>)\<rparr>"
  have kind: "i_kind (inodes v i) = Reg" using reg Some by (simp add: fs_get_def)
  have ino: "fs_ino ?v q = fs_ino v q" for q by (simp add: fs_ino_def)
  have get: "fs_get ?v q = (if q = p then Some ((inodes v i)\<lparr>i_data := []\<rparr>) else fs_get v q)" for q
  proof (cases "q = p")
    case True
    then show ?thesis using Some by (simp add: fs_get_def ino)
  next
    case False
    then have "fs_ino v q \<noteq> Some i" using fs_wf_inj [OF wf Some, of q] by blast
    with False show ?thesis by (cases "fs_ino v q") (auto simp: fs_get_def ino)
  qed
  have nd: "\<not> is_dir v p" using Some kind by (simp add: is_dir_def fs_get_def)
  have "is_dir ?v q" if d: "is_dir v q" for q
  proof -
    have "q \<noteq> p" using nd d by blast
    then have "fs_get ?v q = fs_get v q" by (simp add: get)
    from is_dir_cong [OF this] d show ?thesis by blast
  qed
  then have "fs_wf ?v" by (intro fs_wf_same_dirs [OF wf]) simp_all
  moreover have "fs_get v p = Some (inodes v i)" using Some by (simp add: fs_get_def)
  ultimately have "created p i m v ?v"
    using Some kind get by (simp add: created_def ino)
  then show ?thesis using Some walk kind by (auto simp: fs_creat_def)
qed

section \<open>Renaming a file\<close>

lemma map_of_move:
  assumes "\<And>x j. (x, j) \<in> set ds \<Longrightarrow> under a x \<Longrightarrow> x = a" and "a \<noteq> b"
  shows "map_of (map (\<lambda>(q, i). if under a q then (b @ drop (length a) q, i) else (q, i)) (filter (\<lambda>d. fst d \<noteq> b) ds)) q
    = (if q = b then map_of ds a else if q = a then None else map_of ds q)"
  using assms(1)
proof (induction ds)
  case Nil
  then show ?case by simp
next
  case (Cons d ds)
  obtain x j where d: "d = (x, j)" by (cases d)
  have x: "under a x \<longleftrightarrow> x = a" using Cons.prems [of x j] by (auto simp: d under_def)
  have IH: "map_of (map (\<lambda>(q, i). if under a q then (b @ drop (length a) q, i) else (q, i)) (filter (\<lambda>d. fst d \<noteq> b) ds)) q
      = (if q = b then map_of ds a else if q = a then None else map_of ds q)"
    by (rule Cons.IH) (use Cons.prems in auto)
  consider "x = a" | "x = b" | "x \<noteq> a" "x \<noteq> b" by blast
  then show ?case
    using IH x assms(2) by cases (auto simp: d split: if_splits)
qed

lemma fs_ino_move:
  assumes "\<And>q j. (q, j) \<in> set (dents v) \<Longrightarrow> under a q \<Longrightarrow> q = a" and "a \<noteq> b" and "fs_ino v a = Some i"
  shows "fs_ino (fs_move a b v) q = (if q = b then Some i else if q = a then None else fs_ino v q)"
  using map_of_move [of "dents v" a b q] assms by (simp add: fs_ino_def fs_move_def)

lemma fs_rename_file:
  assumes wf: "fs_wf v" and a: "fs_ino v a = Some i" "i_kind (inodes v i) \<noteq> Dir"
    and walk: "walk_err v a = None" "walk_err v b = None"
    and b: "a \<noteq> []" "b \<noteq> []" "a \<noteq> b" "\<not> under a b" "\<not> is_dir v b"
  shows "fs_rename a b v = Inr (fs_move a b v)"
    and "fs_get (fs_move a b v) q = (if q = b then Some (inodes v i) else if q = a then None else fs_get v q)"
proof -
  have nd: "\<not> is_dir v a" using a by (simp add: is_dir_get fs_get_def)
  have ino: "fs_ino (fs_move a b v) q = (if q = b then Some i else if q = a then None else fs_ino v q)" for q
    using fs_ino_move [of v a b i q] fs_wf_leaf [OF wf _ _ nd] b(3) a(1) by blast
  then show "fs_get (fs_move a b v) q = (if q = b then Some (inodes v i) else if q = a then None else fs_get v q)"
    by (simp add: fs_get_def) (simp add: fs_move_def)
  have "fs_lookup v a = Inr i" using walk(1) a(1) by (simp add: fs_lookup_def)
  then show "fs_rename a b v = Inr (fs_move a b v)"
    using walk(2) a b by (auto simp: fs_rename_def is_dir_get fs_get_def split: option.split)
qed

section \<open>Writing through a stream\<close>

definition vfs_data :: "vfs \<Rightarrow> nat \<Rightarrow> byte list \<Rightarrow> vfs" where
  "vfs_data v i d = v\<lparr>inodes := (inodes v)(i := (inodes v i)\<lparr>i_data := d\<rparr>)\<rparr>"

lemma vfs_data_simps [simp]:
  "dents (vfs_data v i d) = dents v" "next_ino (vfs_data v i d) = next_ino v"
  "inodes (vfs_data v i d) i = (inodes v i)\<lparr>i_data := d\<rparr>" "vfs_data (vfs_data v i d) i d' = vfs_data v i d'"
  by (simp_all add: vfs_data_def)

lemma vfs_data_ino [simp]: "fs_ino (vfs_data v i d) = fs_ino v"
  by (simp add: fs_ino_def fun_eq_iff)

lemma vfs_data_get: "fs_wf v \<Longrightarrow> fs_ino v p = Some i \<Longrightarrow>
  fs_get (vfs_data v i d) q = (if q = p then Some ((inodes v i)\<lparr>i_data := d\<rparr>) else fs_get v q)"
proof (cases "q = p")
  case True
  assume "fs_wf v" "fs_ino v p = Some i"
  with True show ?thesis by (simp add: fs_get_def)
next
  case False
  assume wf: "fs_wf v" and i: "fs_ino v p = Some i"
  then have "fs_ino v q \<noteq> Some i" using fs_wf_inj [OF wf i, of q] False by blast
  with False show ?thesis by (cases "fs_ino v q") (auto simp: fs_get_def vfs_data_def fs_ino_def)
qed

lemma vfs_data_dir [simp]: "is_dir (vfs_data v i d) q = is_dir v q"
  by (cases "fs_ino v q") (auto simp: is_dir_def fs_get_def vfs_data_def fs_ino_def)

lemma vfs_data_walk: "walk_err (vfs_data v i d) p = None \<longleftrightarrow> walk_err v p = None"
  by (simp add: walk_err_None)

lemma vfs_data_wf: "fs_wf v \<Longrightarrow> fs_wf (vfs_data v i d)"
  by (rule fs_wf_same_dirs) simp_all

lemma write_at_end: "write_at d (length d) bs = d @ bs"
  by (simp add: write_at_def)

section \<open>Lookups in well-formed trees\<close>

text \<open>The node a path leads to.\<close>

definition node_at :: "vfs \<Rightarrow> fpath \<Rightarrow> inode option" where
  "node_at v p = (case fs_lookup v p of Inl _ \<Rightarrow> None | Inr i \<Rightarrow> Some (inodes v i))"

lemma fs_wf_walk: "fs_wf v \<Longrightarrow> fs_ino v p = Some i \<Longrightarrow> walk_err v p = None"
proof (cases p rule: rev_cases)
  case Nil
  then show ?thesis by (simp add: walk_err_def)
next
  case (snoc q c)
  assume wf: "fs_wf v" and i: "fs_ino v p = Some i"
  from fs_ino_mem [OF i] wf snoc have "is_dir v q" by (force simp: fs_wf_def)
  from fs_wf_prefix_dir [OF wf this] show ?thesis by (simp add: snoc walk_err_snoc)
qed

lemma node_at_get: "fs_wf v \<Longrightarrow> node_at v p = fs_get v p"
  using fs_wf_walk [of v p]
  by (cases "fs_ino v p") (auto simp: node_at_def fs_lookup_def fs_get_def split: option.split)

text \<open>
  A tree as the kernel keeps it: well-formed, with a root, no path twice, and names without slashes and other
  than \<open>.\<close> and \<open>..\<close>.
\<close>

definition tree_ok :: "vfs \<Rightarrow> bool" where
  "tree_ok v \<longleftrightarrow> fs_wf v \<and> is_dir v [] \<and> distinct (map fst (dents v)) \<and>
     (\<forall>d\<in>set (dents v). list_all plain_name (fst d))"

lemma tree_okD: "tree_ok v \<Longrightarrow> fs_wf v" "tree_ok v \<Longrightarrow> distinct (map fst (dents v))"
  "tree_ok v \<Longrightarrow> (p, i) \<in> set (dents v) \<Longrightarrow> list_all plain_name p" "tree_ok v \<Longrightarrow> is_dir v []"
  by (auto simp: tree_ok_def)

lemma fs_children_mem: "n \<in> set (fs_children v p) \<longleftrightarrow> (\<exists>i. (p @ [n], i) \<in> set (dents v))"
proof
  assume "n \<in> set (fs_children v p)"
  then obtain q i where "(q, i) \<in> set (dents v)" "q \<noteq> []" "butlast q = p" "n = last q"
    by (auto simp: fs_children_def)
  then show "\<exists>i. (p @ [n], i) \<in> set (dents v)" by (auto simp: append_butlast_last_id)
next
  assume "\<exists>i. (p @ [n], i) \<in> set (dents v)"
  then show "n \<in> set (fs_children v p)" by (force simp: fs_children_def)
qed

lemma fs_children_plain: "tree_ok v \<Longrightarrow> n \<in> set (fs_children v p) \<Longrightarrow> plain_name n"
  using tree_okD(3) [of v "p @ [n]"] by (auto simp: fs_children_mem)

lemma fs_children_get: "tree_ok v \<Longrightarrow> n \<in> set (fs_children v p) \<longleftrightarrow> fs_get v (p @ [n]) \<noteq> None"
proof -
  have "fs_get v (p @ [n]) \<noteq> None \<longleftrightarrow> p @ [n] \<in> fst ` set (dents v)"
    by (simp add: fs_get_def fs_ino_def map_of_eq_None_iff)
  also have "\<dots> \<longleftrightarrow> n \<in> set (fs_children v p)" by (force simp: fs_children_mem)
  finally show ?thesis by simp
qed

lemma comps_child: "plain_name n \<Longrightarrow> comps (dp @ ''/'' @ n) = comps dp @ [n]"
  by (simp add: comps_append_slash comps_plain)

section \<open>Removing\<close>

lemma fs_ino_drop: "fs_ino (fs_drop p v) q = (if q = p then None else fs_ino v q)"
proof -
  have "map_of (filter (\<lambda>d. fst d \<noteq> p) ds) q = (if q = p then None else map_of ds q)" for ds :: "(fpath \<times> nat) list"
    by (induction ds) auto
  then show ?thesis by (simp add: fs_ino_def fs_drop_def)
qed

lemma fs_get_drop: "fs_get (fs_drop p v) q = (if q = p then None else fs_get v q)"
  by (simp add: fs_get_def fs_ino_drop) (simp add: fs_drop_def)

lemma no_child_entry: "fs_children v p = [] \<Longrightarrow> (q, i) \<in> set (dents v) \<Longrightarrow> q \<noteq> [] \<Longrightarrow> butlast q \<noteq> p"
  by (auto simp: fs_children_def filter_empty_conv)

lemma fs_wf_drop:
  assumes wf: "fs_wf v" and none: "fs_children v p = []"
  shows "fs_wf (fs_drop p v)"
proof -
  have dir: "is_dir (fs_drop p v) q" if "is_dir v q" "q \<noteq> p" for q
    using that by (simp add: is_dir_get fs_get_drop)
  have ds: "dents (fs_drop p v) = filter (\<lambda>d. fst d \<noteq> p) (dents v)" "next_ino (fs_drop p v) = next_ino v"
    by (simp_all add: fs_drop_def)
  have "distinct (map snd (dents (fs_drop p v)))"
    using wf by (simp add: ds fs_wf_def distinct_map_filter)
  moreover have "i < next_ino v \<and> (q \<noteq> [] \<longrightarrow> is_dir (fs_drop p v) (butlast q))" if "(q, i) \<in> set (dents v)" for q i
  proof -
    have "i < next_ino v" "q \<noteq> [] \<Longrightarrow> is_dir v (butlast q)" using wf that by (auto simp: fs_wf_def)
    with dir no_child_entry [OF none that] show ?thesis by blast
  qed
  ultimately show ?thesis unfolding fs_wf_def ds by auto
qed

lemma fs_wf_leaf_children: "fs_wf v \<Longrightarrow> \<not> is_dir v p \<Longrightarrow> fs_children v p = []"
  by (fastforce simp: fs_wf_def fs_children_def filter_empty_conv)

text \<open>
  \<open>pruned p v v'\<close>: \<open>v'\<close> is \<open>v\<close> without some of the entries at or under \<open>p\<close>.
\<close>

definition pruned :: "fpath \<Rightarrow> vfs \<Rightarrow> vfs \<Rightarrow> bool" where
  "pruned p v v' \<longleftrightarrow>
     (\<exists>Q. v' = v\<lparr>dents := filter Q (dents v)\<rparr> \<and> (\<forall>d\<in>set (dents v). \<not> under p (fst d) \<longrightarrow> Q d))"

lemma under_refl [simp]: "under p p"
  by (simp add: under_def)

lemma under_iff: "under p q \<longleftrightarrow> (\<exists>r. q = p @ r)"
  by (auto simp: under_def) (metis append_take_drop_id)

lemma under_trans: "under p q \<Longrightarrow> under q r \<Longrightarrow> under p r"
  by (auto simp: under_iff)

lemma pruned_refl [simp, intro]: "pruned p v v"
  by (auto simp: pruned_def intro: exI [of _ "\<lambda>_. True"])

lemma pruned_trans:
  assumes "pruned p u v" and "pruned p v w"
  shows "pruned p u w"
proof -
  obtain Q R where "v = u\<lparr>dents := filter Q (dents u)\<rparr>" "\<forall>d\<in>set (dents u). \<not> under p (fst d) \<longrightarrow> Q d"
    "w = v\<lparr>dents := filter R (dents v)\<rparr>" "\<forall>d\<in>set (dents v). \<not> under p (fst d) \<longrightarrow> R d"
    using assms by (auto simp: pruned_def)
  then have "w = u\<lparr>dents := filter (\<lambda>d. R d \<and> Q d) (dents u)\<rparr>"
    "\<forall>d\<in>set (dents u). \<not> under p (fst d) \<longrightarrow> R d \<and> Q d" by (auto simp: conj_commute)
  then show ?thesis unfolding pruned_def by (intro exI [of _ "\<lambda>d. R d \<and> Q d"]) blast
qed

lemma pruned_mono:
  assumes "pruned q u v" and "under p q"
  shows "pruned p u v"
proof -
  obtain Q where "v = u\<lparr>dents := filter Q (dents u)\<rparr>" "\<forall>d\<in>set (dents u). \<not> under q (fst d) \<longrightarrow> Q d"
    using assms(1) by (auto simp: pruned_def)
  then show ?thesis unfolding pruned_def using assms(2) by (intro exI [of _ Q]) (blast dest: under_trans)
qed

lemma pruned_drop: "pruned p v (fs_drop p v)"
  unfolding pruned_def fs_drop_def by (rule exI [of _ "\<lambda>d. fst d \<noteq> p"]) auto

lemma pruned_mem: "pruned p v v' \<Longrightarrow> d \<in> set (dents v') \<Longrightarrow> d \<in> set (dents v)"
  by (auto simp: pruned_def)

lemma pruned_get:
  assumes "pruned p v v'" and "distinct (map fst (dents v))"
  shows "fs_get v' q \<in> {None, fs_get v q}" and "\<not> under p q \<Longrightarrow> fs_get v' q = fs_get v q"
proof -
  obtain Q where v': "v' = v\<lparr>dents := filter Q (dents v)\<rparr>" and Q: "\<forall>d\<in>set (dents v). \<not> under p (fst d) \<longrightarrow> Q d"
    using assms(1) by (auto simp: pruned_def)
  have mo: "map_of (filter Q ds) q \<in> {None, map_of ds q} \<and>
      ((\<forall>d\<in>set ds. fst d = q \<longrightarrow> Q d) \<longrightarrow> map_of (filter Q ds) q = map_of ds q)"
    if "distinct (map fst ds)" for ds
    using that
  proof (induction ds)
    case Nil
    then show ?case by simp
  next
    case (Cons d ds)
    have "map_of (filter Q ds) (fst d) = None"
      using Cons.prems by (auto simp: map_of_eq_None_iff)
    with Cons show ?case by (cases d) auto
  qed
  have "fs_ino v' q \<in> {None, fs_ino v q}" using mo [OF assms(2)] by (simp add: v' fs_ino_def)
  then show "fs_get v' q \<in> {None, fs_get v q}" by (auto simp: fs_get_def v')
  assume "\<not> under p q"
  then have "\<forall>d\<in>set (dents v). fst d = q \<longrightarrow> Q d" using Q by auto
  then have "fs_ino v' q = fs_ino v q" using mo [OF assms(2)] by (simp add: v' fs_ino_def)
  then show "fs_get v' q = fs_get v q" by (simp add: fs_get_def v')
qed

lemma pruned_tree_ok:
  assumes ok: "tree_ok v" and pr: "pruned p v v'" and p: "p \<noteq> []" and wf: "fs_wf v'"
  shows "tree_ok v'"
proof -
  have "fs_get v' [] = fs_get v []"
    by (rule pruned_get(2) [OF pr tree_okD(2) [OF ok]]) (use p in \<open>simp add: under_def\<close>)
  then have "is_dir v' []" using tree_okD(4) [OF ok] by (simp add: is_dir_get)
  then show ?thesis using ok pr wf by (auto simp: tree_ok_def pruned_def distinct_map_filter)
qed

text \<open>In a well-formed tree nothing lies under a path that is not there.\<close>

lemma fs_wf_gone: "fs_wf v \<Longrightarrow> fs_get v p = None \<Longrightarrow> under p q \<Longrightarrow> fs_get v q = None"
proof (rule ccontr)
  assume wf: "fs_wf v" and none: "fs_get v p = None" and u: "under p q" and "fs_get v q \<noteq> None"
  then obtain j where j: "(q, j) \<in> set (dents v)" using fs_ino_mem by (auto simp: fs_get_def)
  have "\<not> is_dir v p" using none by (simp add: is_dir_get)
  from fs_wf_leaf [OF wf j u this] \<open>fs_get v q \<noteq> None\<close> none show False by simp
qed

lemma tree_ok_new:
  assumes ok: "tree_ok v" and p: "p \<noteq> []" "is_dir v (butlast p)" "fs_ino v p = None" "list_all plain_name p"
  shows "tree_ok (fs_new p k m v)"
proof -
  have "p \<notin> fst ` set (dents v)" using p(3) by (simp add: fs_ino_def map_of_eq_None_iff)
  moreover have "is_dir (fs_new p k m v) []"
    using tree_okD(4) [OF ok] p(1) by (simp add: is_dir_get fs_get_new [OF tree_okD(1) [OF ok] p(3)])
  ultimately show ?thesis
    using ok p(4) fs_wf_new_file [OF tree_okD(1) [OF ok] p(1,2,3)] by (auto simp: tree_ok_def fs_new_def)
qed

lemma fs_mkdir_Inr:
  assumes "fs_mkdir p m v = Inr v'"
  shows "v' = fs_new p Dir m v" and "fs_ino v p = None" and "walk_err v p = None"
  using assms by (simp_all add: fs_mkdir_def split: option.splits if_splits)

lemma walk_parent: "walk_err v p = None \<Longrightarrow> p \<noteq> [] \<Longrightarrow> is_dir v (butlast p)"
  by (simp add: walk_err_None butlast_conv_take)

lemma walk_root: "fs_wf v \<Longrightarrow> is_dir v q \<Longrightarrow> walk_err v (q @ [c]) = None"
  using fs_wf_prefix_dir [of v q] by (simp add: walk_err_snoc)

section \<open>Renaming a subtree\<close>

text \<open>Where an entry goes when \<open>a\<close> is moved to \<open>b\<close>.\<close>

definition moved :: "fpath \<Rightarrow> fpath \<Rightarrow> fpath \<Rightarrow> fpath" where
  "moved a b q = (if under a q then b @ drop (length a) q else q)"

lemma under_butlast: "q \<noteq> [] \<Longrightarrow> under a (butlast q) \<Longrightarrow> under a q"
  by (metis under_iff append_butlast_last_id append.assoc)

lemma not_under_butlast: "q \<noteq> [] \<Longrightarrow> \<not> under q (butlast q)"
  by (cases q rule: rev_cases) (simp_all add: under_def)

lemma fs_move_dents: "dents (fs_move a b v) = map (\<lambda>d. (moved a b (fst d), snd d)) (filter (\<lambda>d. fst d \<noteq> b) (dents v))"
  by (auto simp: fs_move_def moved_def)

lemma moved_under: "moved a b (a @ r) = b @ r"
  by (simp add: moved_def under_iff)

lemma fs_rename_Inr:
  assumes ren: "fs_rename a b v = Inr v'" and ne: "a \<noteq> b" and wf: "fs_wf v"
  shows "v' = fs_move a b v" "fs_ino v a \<noteq> None" "\<not> under a b" "a \<noteq> []" "b \<noteq> []" "walk_err v b = None"
    and "(q, i) \<in> set (dents v) \<Longrightarrow> under b q \<Longrightarrow> q = b"
proof -
  obtain j where look: "fs_lookup v a = Inr j" using ren by (cases "fs_lookup v a") (simp_all add: fs_rename_def)
  then have there: "fs_ino v a = Some j" by (simp add: fs_lookup_def split: option.splits)
  have walk: "walk_err v b = None" using ren look by (cases "walk_err v b") (simp_all add: fs_rename_def)
  have conds: "a \<noteq> []" "b \<noteq> []" "\<not> under a b"
    using ren look walk ne by (simp_all add: fs_rename_def split: if_splits)
  have body: "(case fs_ino v b of
      None \<Rightarrow> Inr (fs_move a b v)
    | Some k \<Rightarrow>
        if i_kind (inodes v j) = Dir \<and> i_kind (inodes v k) \<noteq> Dir then Inl ENOTDIR
        else if i_kind (inodes v j) \<noteq> Dir \<and> i_kind (inodes v k) = Dir then Inl EISDIR
        else if i_kind (inodes v k) = Dir \<and> fs_children v b \<noteq> [] then Inl ENOTEMPTY
        else Inr (fs_move a b v)) = Inr v'"
    using ren look walk ne conds by (simp add: fs_rename_def)
  then have "v' = fs_move a b v" by (cases "fs_ino v b") (simp_all split: if_splits)
  then show basic: "v' = fs_move a b v" "fs_ino v a \<noteq> None" "\<not> under a b" "a \<noteq> []" "b \<noteq> []" "walk_err v b = None"
    using there conds walk by simp_all
  assume mem: "(q, i) \<in> set (dents v)" and u: "under b q"
  show "q = b"
  proof (cases "is_dir v b")
    case False
    then show ?thesis by (rule fs_wf_leaf [OF wf mem u])
  next
    case True
    then have none: "fs_children v b = []"
      using body by (cases "fs_ino v b") (simp_all add: is_dir_get fs_get_def split: if_splits)
    show ?thesis
    proof (rule ccontr)
      assume "q \<noteq> b"
      then obtain c r where q: "q = b @ c # r" using u by (cases "drop (length b) q") (auto simp: under_iff)
      have "is_dir v (b @ [c]) \<or> q = b @ [c]"
      proof (cases r rule: rev_cases)
        case (snoc r' x)
        then have "is_dir v (b @ c # r')" using wf mem q by (force simp: fs_wf_def butlast_append)
        from fs_wf_prefix_dir [OF wf this, of "Suc (length b)"] show ?thesis by simp
      qed (simp add: q)
      then have "\<exists>j. (b @ [c], j) \<in> set (dents v)"
        using mem fs_ino_mem [of v "b @ [c]"] by (auto simp: is_dir_get fs_get_def)
      then show False using none fs_children_mem [of c v b] by simp
    qed
  qed
qed

lemma moved_inj:
  assumes "\<And>z. z \<in> A \<Longrightarrow> \<not> under b z"
  shows "inj_on (moved a b) A"
proof (rule inj_onI)
  fix x y assume xy: "x \<in> A" "y \<in> A" and eq: "moved a b x = moved a b y"
  have ub: "under a z \<Longrightarrow> under b (moved a b z)" for z by (auto simp: moved_def under_iff)
  have uy: "\<not> under a z \<Longrightarrow> moved a b z = z" for z by (simp add: moved_def)
  show "x = y"
  proof (cases "under a x"; cases "under a y")
    assume "under a x" "under a y"
    then show ?thesis using eq by (auto simp: moved_def under_iff)
  qed (use eq assms [OF xy(1)] assms [OF xy(2)] ub uy in metis)+
qed

text \<open>The entries after a rename: what was at the target is gone, what was below the source is below the target.\<close>

lemma fs_move_entry: "(q, i) \<in> set (dents (fs_move a b v)) \<longleftrightarrow> (\<exists>x. (x, i) \<in> set (dents v) \<and> x \<noteq> b \<and> q = moved a b x)"
  by (force simp: fs_move_dents)

lemma fs_move_distinct:
  assumes "distinct (map fst (dents v))" and "\<And>x i. (x, i) \<in> set (dents v) \<Longrightarrow> x \<noteq> b \<Longrightarrow> \<not> under b x"
  shows "distinct (map fst (dents (fs_move a b v)))"
proof -
  let ?ds = "filter (\<lambda>d. fst d \<noteq> b) (dents v)"
  have "distinct (map fst ?ds)" using assms(1) by (simp add: distinct_map_filter)
  moreover have "inj_on (moved a b) (set (map fst ?ds))" by (rule moved_inj) (use assms(2) in auto)
  moreover have "map fst (dents (fs_move a b v)) = map (moved a b) (map fst ?ds)" by (simp add: fs_move_dents)
  ultimately show ?thesis by (simp only: distinct_map list.set_map simp_thms)
qed

lemma fs_move_mem:
  assumes "\<not> under a b" and free: "\<And>x i. (x, i) \<in> set (dents v) \<Longrightarrow> x \<noteq> b \<Longrightarrow> \<not> under b x"
  shows "(q, i) \<in> set (dents (fs_move a b v)) \<longleftrightarrow>
    (if under b q then (a @ drop (length b) q, i) \<in> set (dents v) else \<not> under a q \<and> (q, i) \<in> set (dents v))"
proof (cases "under b q")
  case True
  then obtain r where q: "q = b @ r" by (auto simp: under_iff)
  have from_a: "x = a @ r" if "(x, i) \<in> set (dents v)" "x \<noteq> b" "q = moved a b x" for x
    using that q True free [of x i] by (cases "under a x") (auto simp: moved_def under_iff)
  have "a @ r \<noteq> b" "q = moved a b (a @ r)" using assms(1) q by (auto simp: under_iff moved_under)
  then have "(q, i) \<in> set (dents (fs_move a b v)) \<longleftrightarrow> (a @ r, i) \<in> set (dents v)" using from_a unfolding fs_move_entry by blast
  then show ?thesis using True q by simp
next
  case False
  have mv: "q = moved a b x \<longleftrightarrow> \<not> under a q \<and> x = q" for x
  proof (cases "under a x")
    case True
    then have "under b (moved a b x)" by (simp add: moved_def under_iff)
    with False True show ?thesis by blast
  next
    case na: False
    then have m: "moved a b x = x" by (simp add: moved_def)
    show ?thesis unfolding m using na by blast
  qed
  have "q \<noteq> b" using False by auto
  then have "(q, i) \<in> set (dents (fs_move a b v)) \<longleftrightarrow> \<not> under a q \<and> (q, i) \<in> set (dents v)" unfolding fs_move_entry mv by blast
  then show ?thesis using False by simp
qed

text \<open>The lookup after a rename.\<close>

definition moved_get :: "fpath \<Rightarrow> fpath \<Rightarrow> vfs \<Rightarrow> fpath \<Rightarrow> inode option" where
  "moved_get a b v q = (if under b q then fs_get v (a @ drop (length b) q) else if under a q then None else fs_get v q)"

lemma fs_move_lookup:
  assumes dist: "distinct (map fst (dents v))" and na: "\<not> under a b"
    and free: "\<And>x i. (x, i) \<in> set (dents v) \<Longrightarrow> x \<noteq> b \<Longrightarrow> \<not> under b x"
  shows "fs_get (fs_move a b v) q = moved_get a b v q"
proof -
  have mem: "fs_ino u p = Some i \<longleftrightarrow> (p, i) \<in> set (dents u)" if "distinct (map fst (dents u))" for u p i
    using that by (simp add: fs_ino_def map_of_eq_Some_iff)
  have "fs_ino (fs_move a b v) q = Some i \<longleftrightarrow>
      (if under b q then fs_ino v (a @ drop (length b) q) else if under a q then None else fs_ino v q) = Some i" for i
    using fs_move_mem [OF na free] by (simp add: mem [OF fs_move_distinct [OF dist free]] mem [OF dist])
  then have "fs_ino (fs_move a b v) q = (if under b q then fs_ino v (a @ drop (length b) q) else if under a q then None else fs_ino v q)"
    by (metis not_None_eq)
  then show ?thesis by (simp add: fs_get_def moved_get_def) (simp add: fs_move_def)
qed

text \<open>The parent of a moved entry is a directory again.\<close>

lemma fs_move_parent:
  assumes get: "\<And>q. fs_get v' q = moved_get a b v q" and na: "\<not> under a b" and nb: "b \<noteq> []" and walk: "walk_err v b = None"
    and x: "x \<noteq> [] \<Longrightarrow> is_dir v (butlast x)" "x \<noteq> b" "\<not> under b x" and q: "q = moved a b x" "q \<noteq> []"
  shows "is_dir v' (butlast q)"
proof (cases "under a x")
  case True
  then obtain r where r: "x = a @ r" by (auto simp: under_iff)
  have q': "q = b @ r" using q(1) unfolding r by (simp only: moved_under)
  show ?thesis
  proof (cases "r = []")
    case True
    have "\<not> under a (butlast b)" "\<not> under b (butlast b)"
      using na nb under_butlast [of b a] not_under_butlast [of b] by blast+
    then show ?thesis using walk_parent [OF walk nb] True q' by (simp add: is_dir_get get moved_get_def)
  next
    case False
    then have "is_dir v (a @ butlast r)" using x(1) r by (simp add: butlast_append)
    then show ?thesis using False q' by (simp add: butlast_append is_dir_get get moved_get_def under_iff)
  qed
next
  case False
  then have e: "q = x" using q(1) by (simp add: moved_def)
  have "\<not> under a (butlast x)" using False q(2) e under_butlast [of x a] by blast
  moreover have "\<not> under b (butlast x)" using x(3) q(2) e under_butlast [of x b] by blast
  ultimately show ?thesis using x(1) q(2) e by (simp add: is_dir_get get moved_get_def)
qed

lemma fs_move_get:
  assumes ok: "tree_ok v" and ren: "fs_rename a b v = Inr v'" and ne: "a \<noteq> b" and pb: "list_all plain_name b"
  shows "fs_get v' q = (if under b q then fs_get v (a @ drop (length b) q) else if under a q then None else fs_get v q)"
    and "tree_ok v'"
proof -
  have wf: "fs_wf v" and dist: "distinct (map fst (dents v))" using tree_okD [OF ok] by blast+
  note R = fs_rename_Inr [OF ren ne wf]
  have free: "\<not> under b x" if "(x, i) \<in> set (dents v)" "x \<noteq> b" for x i using R(7) [of x i] that by auto
  have get: "fs_get v' q = moved_get a b v q" for q unfolding R(1) by (rule fs_move_lookup [OF dist R(3) free])
  then show "fs_get v' q = (if under b q then fs_get v (a @ drop (length b) q) else if under a q then None else fs_get v q)"
    by (simp add: moved_get_def)
  have nx: "next_ino v' = next_ino v" by (simp add: R(1) fs_move_def)
  have "i < next_ino v \<and> (q \<noteq> [] \<longrightarrow> is_dir v' (butlast q))" if qm: "(q, i) \<in> set (dents v')" for q i
  proof -
    obtain x where x: "(x, i) \<in> set (dents v)" "x \<noteq> b" "q = moved a b x" using qm unfolding R(1) fs_move_entry by blast
    have "i < next_ino v" "x \<noteq> [] \<Longrightarrow> is_dir v (butlast x)" using wf x(1) by (auto simp: fs_wf_def)
    then show ?thesis using fs_move_parent [OF get R(3,5,6) _ x(2) free [OF x(1,2)] x(3)] by blast
  qed
  moreover have "distinct (map snd (dents v'))" using wf by (simp add: R(1) fs_move_dents comp_def fs_wf_def distinct_map_filter)
  ultimately have "fs_wf v'" unfolding fs_wf_def nx by blast
  moreover have "list_all plain_name p" if pm: "(p, i) \<in> set (dents v')" for p i
  proof -
    obtain x where x: "(x, i) \<in> set (dents v)" "p = moved a b x" using pm unfolding R(1) fs_move_entry by blast
    then have pl: "list_all plain_name x" using tree_okD(3) [OF ok] by blast
    then have "list_all plain_name (drop (length a) x)" by (metis append_take_drop_id list_all_append)
    then show ?thesis unfolding x(2) moved_def using pb pl by simp
  qed
  moreover have "is_dir v' []" using tree_okD(4) [OF ok] R(4,5) by (simp add: is_dir_get get moved_get_def under_def)
  ultimately show "tree_ok v'" using fs_move_distinct [where a = a, OF dist free] by (auto simp: tree_ok_def R(1))
qed

end
