(* ===== verification/File_Read.thy ===== *)
theory File_Read
  imports Storage Vfs_Facts
begin

text \<open>
  The reading file operations (\<open>src/file_ops.c\<close>, \<open>usb_responder_read_file_all\<close> of
  \<open>src/io_utils.c\<close>): the content of a file, the listing of a directory with its two growing
  text buffers, and the attributes of a path. The lemmas show what each returns in every
  world, that none of them changes the tree, and how many heap blocks each outcome leaves.
\<close>

section \<open>The code\<close>

text \<open>
  A block that was read is its bytes and whether its pointer is not null (\<open>malloc(0)\<close> may return
  either).
\<close>

definition usb_responder_read_file_all ::
  "string \<Rightarrow> 'a fs_world_scheme \<Rightarrow> (byte list \<times> bool) option \<times> 'a fs_world_scheme" where
  "usb_responder_read_file_all path w =
     (case c_fopen_rb path w of
        (None, w1) \<Rightarrow> (None, set_errno_error ''fopen'' w1)
      | (Some f, w1) \<Rightarrow>
          (case plain_call w1 of
             (False, w2) \<Rightarrow> (None, set_errno_error ''fseek'' w2)
           | (True, w2) \<Rightarrow>
               (case plain_call w2 of
                  (False, w3) \<Rightarrow> (None, set_errno_error ''ftell'' w3)
                | (True, w3) \<Rightarrow>
                    (case plain_call w3 of
                       (False, w4) \<Rightarrow> (None, set_errno_error ''fseek'' w4)
                     | (True, w4) \<Rightarrow>
                         let n = file_end f w4;
                             (ok, w5) = c_malloc w4
                         in if 0 < n \<and> \<not> ok then (None, usb_responder_set_last_error (Some ''oom'') w5)
                            else if n = 0 then (Some ([], ok), w5)
                            else
                              (case c_fread_all f n w5 of
                                 (data, w6) \<Rightarrow>
                                   if length data \<noteq> n then (None, c_free True (set_errno_error ''fread'' w6))
                                   else (Some (data, True), w6))))))"

definition usb_responder_file_read ::
  "string option \<Rightarrow> 'a fs_world_scheme \<Rightarrow> (byte list \<times> bool) option \<times> 'a fs_world_scheme" where
  "usb_responder_file_read relative w =
     (case relative of
        None \<Rightarrow> (None, w)
      | Some rel \<Rightarrow>
          (case build_path (Some rel) USB_RESPONDER_PATH_MAX_LEN w of
             (Inl _, w1) \<Rightarrow> (None, w1)
           | (Inr (path, _), w1) \<Rightarrow> usb_responder_read_file_all path w1))"

text \<open>A growing text is its characters and the capacity of its block; capacity zero is the null pointer.\<close>

type_synonym growtext = "string \<times> nat"

definition list_append_line ::
  "growtext \<Rightarrow> string \<Rightarrow> 'a io_world_scheme \<Rightarrow> growtext cres \<times> 'a io_world_scheme" where
  "list_append_line gt name w =
     (let (text, cap) = gt;
          n = length (c_str name) + 1;
          need = length text + n + 1;
          line = c_str name @ [CHR 0x0A]
      in if cap < need then
           let new_cap = grow_cap (if cap = 0 then 256 else cap) need
           in case c_realloc (cap \<noteq> 0) w of
                (False, w1) \<Rightarrow> (Inl NoMem, w1)
              | (True, w1) \<Rightarrow>
                  (if length text + n \<le> new_cap then Inr (text @ line, new_cap) else Inl OutOfBounds, w1)
         else (if length text + n \<le> cap then Inr (text @ line, cap) else Inl OutOfBounds, w))"

definition list_finalize :: "growtext \<Rightarrow> 'a io_world_scheme \<Rightarrow> string cres \<times> 'a io_world_scheme" where
  "list_finalize gt w =
     (let (text, cap) = gt
      in if cap = 0 then (case c_malloc w of (ok, w1) \<Rightarrow> (if ok then Inr [] else Inl NoMem, w1))
         else (if length text < cap then Inr text else Inl OutOfBounds, w))"

abbreviation free_text :: "growtext \<Rightarrow> 'a io_world_scheme \<Rightarrow> 'a io_world_scheme" where
  "free_text gt \<equiv> c_free (snd gt \<noteq> 0)"

text \<open>The \<open>readdir\<close> loop of \<open>file_list\<close>.\<close>

fun list_entries ::
  "string \<Rightarrow> string list \<Rightarrow> growtext \<Rightarrow> growtext \<Rightarrow> 'a fs_world_scheme \<Rightarrow>
   (growtext \<times> growtext) cres \<times> 'a fs_world_scheme" where
  "list_entries dirpath [] files dirs w = (Inr (files, dirs), snd (plain_call w))"
| "list_entries dirpath (name # names) files dirs w =
     (case plain_call w of
        (False, w1) \<Rightarrow> (Inr (files, dirs), w1)
      | (True, w1) \<Rightarrow>
          if name = ''.'' \<or> name = ''..'' then list_entries dirpath names files dirs w1
          else
            let full = dirpath @ ''/'' @ name;
                child = snprintf_buf 4096 full
            in if USB_RESPONDER_PATH_MAX_LEN \<le> length full then
                 (Inl Reject,
                  usb_responder_set_last_error (Some ''path too long'') (free_text dirs (free_text files w1)))
               else
                 (case c_lstat child w1 of
                    (None, w2) \<Rightarrow>
                      (Inl Reject, free_text dirs (free_text files (set_file_error ''lstat'' child w2)))
                  | (Some st, w2) \<Rightarrow>
                      if i_kind st = Dir then
                        (case list_append_line dirs name w2 of
                           (Inl e, w3) \<Rightarrow>
                             (Inl e, usb_responder_set_last_error (Some ''oom'') (free_text dirs (free_text files w3)))
                         | (Inr dirs1, w3) \<Rightarrow> list_entries dirpath names files dirs1 w3)
                      else
                        (case list_append_line files name w2 of
                           (Inl e, w3) \<Rightarrow>
                             (Inl e, usb_responder_set_last_error (Some ''oom'') (free_text dirs (free_text files w3)))
                         | (Inr files1, w3) \<Rightarrow> list_entries dirpath names files1 dirs w3)))"

text \<open>The end of \<open>file_list\<close>: both texts are handed out, or neither.\<close>

definition list_finish ::
  "growtext \<Rightarrow> growtext \<Rightarrow> 'a io_world_scheme \<Rightarrow> (string \<times> string) cres \<times> 'a io_world_scheme" where
  "list_finish files dirs w =
     (case list_finalize files w of
        (f, w1) \<Rightarrow>
          (case list_finalize dirs w1 of
             (d, w2) \<Rightarrow>
               (case (f, d) of
                  (Inr ft, Inr dt) \<Rightarrow> (Inr (ft, dt), w2)
                | (Inl e, Inr _) \<Rightarrow> (Inl e, usb_responder_set_last_error (Some ''oom'') (c_free True w2))
                | (Inr _, Inl e) \<Rightarrow> (Inl e, usb_responder_set_last_error (Some ''oom'') (c_free True w2))
                | (Inl e, Inl _) \<Rightarrow> (Inl e, usb_responder_set_last_error (Some ''oom'') w2))))"

definition usb_responder_file_list ::
  "string option \<Rightarrow> 'a fs_world_scheme \<Rightarrow> (string \<times> string) cres \<times> 'a fs_world_scheme" where
  "usb_responder_file_list relative w =
     (case relative of
        None \<Rightarrow> (Inl Reject, w)
      | Some rel \<Rightarrow>
          (case build_path (Some rel) USB_RESPONDER_PATH_MAX_LEN w of
             (Inl _, w1) \<Rightarrow> (Inl Reject, w1)
           | (Inr (dirpath, _), w1) \<Rightarrow>
               (case c_opendir dirpath w1 of
                  (None, w2) \<Rightarrow> (Inl Reject, w2)
                | (Some names, w2) \<Rightarrow>
                    (case list_entries dirpath names ([], 0) ([], 0) w2 of
                       (Inl e, w3) \<Rightarrow> (Inl e, w3)
                     | (Inr (files, dirs), w3) \<Rightarrow>
                         list_finish files dirs w3))))"

record stat_info =
  si_owner :: string
  si_perm :: string
  si_size :: string
  si_type :: string

text \<open>
  A user or group id as its name, or in decimal when the name service fails or has no entry. The size
  of a directory is up to the file system.
\<close>

definition id_text :: "(u32 \<Rightarrow> string option) \<Rightarrow> u32 \<Rightarrow> 'a fs_world_scheme \<Rightarrow> string \<times> 'a fs_world_scheme" where
  "id_text names i w =
     (case plain_call w of
        (False, w1) \<Rightarrow> (snprintf_buf 128 (show_dec (unat i)), w1)
      | (True, w1) \<Rightarrow>
          (case names i of
             None \<Rightarrow> (snprintf_buf 128 (show_dec (unat i)), w1)
           | Some n \<Rightarrow> (snprintf_buf 128 (c_str n), w1)))"

definition usb_responder_file_stat ::
  "string option \<Rightarrow> 'a fs_world_scheme \<Rightarrow> stat_info option \<times> 'a fs_world_scheme" where
  "usb_responder_file_stat relative w =
     (case relative of
        None \<Rightarrow> (None, w)
      | Some rel \<Rightarrow>
          (case build_path (Some rel) USB_RESPONDER_PATH_MAX_LEN w of
             (Inl _, w1) \<Rightarrow> (None, w1)
           | (Inr (path, _), w1) \<Rightarrow>
               (case c_lstat path w1 of
                  (None, w2) \<Rightarrow> (None, set_file_error ''lstat'' path w2)
                | (Some st, w2) \<Rightarrow>
                    (case id_text (pw_name w2) (i_uid st) w2 of
                       (userbuf, w3) \<Rightarrow>
                         (case id_text (gr_name w3) (i_gid st) w3 of
                            (groupbuf, w4) \<Rightarrow>
                              (Some
                                 \<lparr>si_owner = snprintf_buf 256 (userbuf @ '':'' @ groupbuf),
                                  si_perm = snprintf_buf 16 (show_oct4 (unat (i_mode st AND 0xFFF))),
                                  si_size = snprintf_buf 32 (show_dec (file_end st w4)),
                                  si_type = (case i_kind st of Reg \<Rightarrow> ''file'' | Dir \<Rightarrow> ''dir'' | Link \<Rightarrow> ''link''
                                     | Other \<Rightarrow> ''other'')\<rparr>,
                               w4))))))"

section \<open>What reading changes\<close>

text \<open>
  \<open>reads_only w w' d\<close>: from \<open>w\<close> to \<open>w'\<close> only the error texts, the fault script and the heap moved,
  the heap by \<open>d\<close> live blocks.
\<close>

definition reads_only :: "'a fs_world_scheme \<Rightarrow> 'a fs_world_scheme \<Rightarrow> int \<Rightarrow> bool" where
  "reads_only w w' d \<longleftrightarrow>
     vfs w' = vfs w \<and> streams w' = streams w \<and> next_stream w' = next_stream w \<and> umask w' = umask w \<and>
     dir_end w' = dir_end w \<and> mountinfo w' = mountinfo w \<and> statvfs_of w' = statvfs_of w \<and>
     pw_name w' = pw_name w \<and> gr_name w' = gr_name w \<and> fs_world.more w' = fs_world.more w \<and>
     long_bits w' = long_bits w \<and> strerr w' = strerr w \<and> wscript w' = wscript w \<and> sent w' = sent w \<and>
     rscript w' = rscript w \<and> pscript w' = pscript w \<and> live w' = live w + d \<and>
     (allocs w = [] \<longrightarrow> allocs w' = []) \<and> (faults w = [] \<longrightarrow> faults w' = [])"

lemma reads_only_refl [simp, intro]: "reads_only w w 0"
  by (simp add: reads_only_def)

lemma reads_only_trans: "reads_only u v d \<Longrightarrow> reads_only v w e \<Longrightarrow> reads_only u w (d + e)"
  by (simp add: reads_only_def)

lemma reads_only_keeps:
  assumes "reads_only w w' d"
  shows "vfs w' = vfs w" "live w' = live w + d" "allocs w = [] \<Longrightarrow> allocs w' = []"
    "faults w = [] \<Longrightarrow> faults w' = []" "dir_end w' = dir_end w" "streams w' = streams w"
    "pw_name w' = pw_name w" "gr_name w' = gr_name w"
  using assms by (simp_all add: reads_only_def)

lemma quiet_reads: "quiet w w' \<Longrightarrow> reads_only w w' 0"
  by (simp add: quiet_def tree_only_def reads_only_def)

lemma mem_only_reads:
  fixes w w' :: "'a fs_world_scheme"
  assumes "mem_only w w' d"
  shows "reads_only w w' d"
proof -
  obtain as where "w' = w\<lparr>allocs := as, live := live w + d\<rparr>" "allocs w = [] \<longrightarrow> as = []"
    using assms by (auto simp: mem_only_def)
  then show ?thesis by (simp add: reads_only_def)
qed

lemma reads_then_quiet: "reads_only u v d \<Longrightarrow> quiet v w \<Longrightarrow> reads_only u w d"
  using reads_only_trans [OF _ quiet_reads, of u v d w] by simp

lemma reads_then_free:
  "reads_only u v d \<Longrightarrow> reads_only u (c_free nonnull v) (d - (if nonnull then 1 else 0))"
  using reads_only_trans [OF _ mem_only_reads [OF c_free_mem], of u v d nonnull] by (cases nonnull) simp_all

lemma reads_then_err:
  "reads_only u v d \<Longrightarrow> reads_only u (usb_responder_set_last_error m v) d"
  "reads_only u v d \<Longrightarrow> reads_only u (set_file_error p q v) d"
  "reads_only u v d \<Longrightarrow> reads_only u (set_errno_error p v) d"
  by (rule reads_then_quiet, assumption, simp add: set_errno_error_def)+

lemma set_errno_quiet [simp]: "quiet w (set_errno_error p w)"
  by (simp add: set_errno_error_def)

lemma lstat_spec:
  assumes "c_lstat p w = (r, w')"
  shows "quiet w w'" and "r = Some st \<Longrightarrow> node_at (vfs w) (comps p) = Some st"
    and "faults w = [] \<Longrightarrow> r = node_at (vfs w) (comps p)"
proof -
  obtain flt w1 where nf: "next_fault w = (flt, w1)" by (metis surj_pair)
  note q = next_fault_quiet [OF nf]
  have v: "vfs w1 = vfs w" using q by (simp add: quiet_def)
  have "quiet w w' \<and> (r = Some st \<longrightarrow> node_at (vfs w) (comps p) = Some st) \<and>
    (faults w = [] \<longrightarrow> r = node_at (vfs w) (comps p))"
  proof (cases flt)
    case None
    show ?thesis
      using assms q quiet_trans [OF conjunct1 [OF q] quiet_errno]
      by (cases "fs_lookup (vfs w) (comps p)") (auto simp: c_lstat_def nf None v node_at_def)
  next
    case (Some e)
    then show ?thesis
      using assms q quiet_trans [OF conjunct1 [OF q] quiet_errno] by (cases e) (auto simp: c_lstat_def nf)
  qed
  then show "quiet w w'" "r = Some st \<Longrightarrow> node_at (vfs w) (comps p) = Some st"
    "faults w = [] \<Longrightarrow> r = node_at (vfs w) (comps p)" by blast+
qed

lemma stat_spec:
  assumes "c_stat p w = (r, w')"
  shows "quiet w w'" and "r = Some st \<Longrightarrow> node_at (vfs w) (comps p) = Some st \<and> i_kind st \<noteq> Link"
    and "faults w = [] \<Longrightarrow> node_at (vfs w) (comps p) = Some st \<Longrightarrow> i_kind st \<noteq> Link \<Longrightarrow> r = Some st"
proof -
  obtain s w1 where l: "c_lstat p w = (s, w1)" by (metis surj_pair)
  have run: "(r, w') = (case s of None \<Rightarrow> (None, w1)
      | Some i \<Rightarrow> if i_kind i = Link then (None, w1\<lparr>errno_val := ENOENT\<rparr>) else (Some i, w1))"
    using assms by (simp add: c_stat_def l)
  note q = lstat_spec(1) [OF l]
  show "quiet w w'"
    using run q quiet_trans [OF q quiet_errno, of ENOENT] by (cases s) (auto split: if_splits)
  show "node_at (vfs w) (comps p) = Some st \<and> i_kind st \<noteq> Link" if "r = Some st"
    using run that lstat_spec(2) [OF l, of st] by (cases s) (simp_all split: if_splits)
  show "r = Some st" if "faults w = []" "node_at (vfs w) (comps p) = Some st" "i_kind st \<noteq> Link"
    using run lstat_spec(3) [OF l that(1)] that(2,3) by (cases s) simp_all
qed

lemma opendir_spec:
  assumes "c_opendir p w = (r, w')"
  shows "quiet w w'"
    and "r = Some ns \<Longrightarrow> ns = ''.'' # ''..'' # fs_children (vfs w) (comps p) \<and>
      (\<exists>st. node_at (vfs w) (comps p) = Some st \<and> i_kind st = Dir)"
    and "faults w = [] \<Longrightarrow> node_at (vfs w) (comps p) = Some st \<Longrightarrow> i_kind st = Dir \<Longrightarrow> r \<noteq> None"
proof -
  obtain flt w1 where nf: "next_fault w = (flt, w1)" by (metis surj_pair)
  note q = next_fault_quiet [OF nf]
  have v: "vfs w1 = vfs w" using q by (simp add: quiet_def)
  have "quiet w w' \<and> (r = Some ns \<longrightarrow> ns = ''.'' # ''..'' # fs_children (vfs w) (comps p) \<and>
      (\<exists>st. node_at (vfs w) (comps p) = Some st \<and> i_kind st = Dir)) \<and>
    (faults w = [] \<longrightarrow> node_at (vfs w) (comps p) = Some st \<longrightarrow> i_kind st = Dir \<longrightarrow> r \<noteq> None)"
  proof (cases flt)
    case None
    show ?thesis
      using assms q quiet_trans [OF conjunct1 [OF q] quiet_errno]
      by (cases "fs_lookup (vfs w) (comps p)") (auto simp: c_opendir_def nf None v node_at_def split: if_splits)
  next
    case (Some e)
    then show ?thesis
      using assms q quiet_trans [OF conjunct1 [OF q] quiet_errno] by (cases e) (auto simp: c_opendir_def nf)
  qed
  then show "quiet w w'" "r = Some ns \<Longrightarrow> ns = ''.'' # ''..'' # fs_children (vfs w) (comps p) \<and>
      (\<exists>st. node_at (vfs w) (comps p) = Some st \<and> i_kind st = Dir)"
    "faults w = [] \<Longrightarrow> node_at (vfs w) (comps p) = Some st \<Longrightarrow> i_kind st = Dir \<Longrightarrow> r \<noteq> None" by blast+
qed

section \<open>Reading a file\<close>

lemma fread_spec:
  assumes "c_fread_all f n w = (data, w')"
  shows "quiet w w'" and "length data = n \<Longrightarrow> 0 < n \<Longrightarrow> i_kind f \<noteq> Dir \<and> data = take n (i_data f)"
    and "faults w = [] \<Longrightarrow> i_kind f \<noteq> Dir \<Longrightarrow> data = take n (i_data f)"
proof -
  obtain flt w1 where nf: "next_fault w = (flt, w1)" by (metis surj_pair)
  note q = next_fault_quiet [OF nf]
  have "quiet w w' \<and> (length data = n \<longrightarrow> 0 < n \<longrightarrow> i_kind f \<noteq> Dir \<and> data = take n (i_data f)) \<and>
    (faults w = [] \<longrightarrow> i_kind f \<noteq> Dir \<longrightarrow> data = take n (i_data f))"
  proof (cases flt)
    case None
    then show ?thesis
      using assms q quiet_trans [OF conjunct1 [OF q] quiet_errno] by (auto simp: c_fread_all_def nf split: if_splits)
  next
    case (Some e)
    obtain er k where e: "e = (er, k)" by (cases e)
    have "quiet w w'" "faults w \<noteq> []"
      using assms q quiet_trans [OF conjunct1 [OF q] quiet_errno] by (auto simp: c_fread_all_def nf Some e Let_def)
    moreover have "i_kind f \<noteq> Dir \<and> data = take n (i_data f)" if n: "length data = n" "0 < n"
    proof -
      have d: "data = take k (if i_kind f = Dir then [] else take n (i_data f))"
        using assms by (simp add: c_fread_all_def nf Some e)
      with n have "i_kind f \<noteq> Dir" by (cases "i_kind f = Dir") simp_all
      with d n show ?thesis by (simp add: min_def split: if_splits)
    qed
    ultimately show ?thesis by blast
  qed
  then show "quiet w w'" "length data = n \<Longrightarrow> 0 < n \<Longrightarrow> i_kind f \<noteq> Dir \<and> data = take n (i_data f)"
    "faults w = [] \<Longrightarrow> i_kind f \<noteq> Dir \<Longrightarrow> data = take n (i_data f)" by blast+
qed

lemma file_end_file: "i_kind f \<noteq> Dir \<Longrightarrow> file_end f w = length (i_data f)"
  by (simp add: file_end_def)

text \<open>
  What a read leaves: either a failure and no block, or the whole content of a file in one block (or
  the empty content of a directory whose end position is zero).
\<close>

definition read_result :: "'a fs_world_scheme \<Rightarrow> fpath \<Rightarrow> (byte list \<times> bool) option \<Rightarrow> 'a fs_world_scheme \<Rightarrow> bool" where
  "read_result w p r w' \<longleftrightarrow>
     (case r of
        None \<Rightarrow> reads_only w w' 0
      | Some (data, nonnull) \<Rightarrow>
          reads_only w w' (if nonnull then 1 else 0) \<and> (data \<noteq> [] \<longrightarrow> nonnull) \<and>
          (\<exists>st. node_at (vfs w) p = Some st \<and> i_kind st \<noteq> Link \<and>
             (if i_kind st = Dir then data = [] \<and> dir_end w = 0 else data = i_data st)))"

lemma read_file_all_spec:
  assumes run: "usb_responder_read_file_all path w = (r, w')"
  shows "read_result w (comps path) r w'"
    and "faults w = [] \<Longrightarrow> allocs w = [] \<Longrightarrow> node_at (vfs w) (comps path) = Some st \<Longrightarrow> i_kind st \<in> {Reg, Other} \<Longrightarrow>
      \<exists>nonnull. r = Some (i_data st, nonnull)"
proof -
  obtain f w1 where op: "c_fopen_rb path w = (f, w1)" by (metis surj_pair)
  note O = stat_spec [OF op [unfolded c_fopen_rb_def]]
  obtain b2 w2 where p2: "plain_call w1 = (b2, w2)" by (metis surj_pair)
  obtain b3 w3 where p3: "plain_call w2 = (b3, w3)" by (metis surj_pair)
  obtain b4 w4 where p4: "plain_call w3 = (b4, w4)" by (metis surj_pair)
  obtain ok w5 where m: "c_malloc w4 = (ok, w5)" by (metis surj_pair)
  note P = plain_call_quiet [OF p2] plain_call_quiet [OF p3] plain_call_quiet [OF p4]
  have q: "quiet w w1" "quiet w w2" "quiet w w3" "quiet w w4"
    using O(1) P quiet_trans by blast+
  have mem: "reads_only w w5 (if ok then 1 else 0)"
    using reads_only_trans [OF quiet_reads [OF q(4)] mem_only_reads, of w5] m
    by (cases rule: c_malloc_cases [of w4]) auto
  have calm: "faults w = [] \<Longrightarrow> b2 \<and> b3 \<and> b4"
    using P quiet_keeps(14) [OF q(1)] quiet_keeps(14) [OF q(2)] quiet_keeps(14) [OF q(3)] by blast
  have mok: "allocs w = [] \<Longrightarrow> ok"
    using m c_malloc_succeeds [of w4] quiet_keeps(6) [OF q(4)] by simp
  have de: "dir_end w4 = dir_end w" using quiet_keeps(10) [OF q(4)] .
  have "read_result w (comps path) r w' \<and>
    (faults w = [] \<longrightarrow> allocs w = [] \<longrightarrow> node_at (vfs w) (comps path) = Some st \<longrightarrow> i_kind st \<in> {Reg, Other} \<longrightarrow>
      (\<exists>nonnull. r = Some (i_data st, nonnull)))"
  proof (cases "f \<noteq> None \<and> b2 \<and> b3 \<and> b4")
    case False
    then have "r = None" "reads_only w w' 0"
      using run op p2 p3 p4 q
      by (auto simp: usb_responder_read_file_all_def intro!: reads_then_err intro: quiet_reads
          split: option.splits bool.splits)
    moreover have "faults w = [] \<Longrightarrow> node_at (vfs w) (comps path) = Some st \<Longrightarrow> i_kind st = Link"
      using False calm O(3) by blast
    ultimately show ?thesis by (auto simp: read_result_def)
  next
    case True
    then obtain s where f: "f = Some s" by blast
    note S = O(2) [OF f]
    let ?n = "file_end s w4"
    consider "0 < ?n" "\<not> ok" | "?n = 0" | "0 < ?n" "ok" by blast
    then show ?thesis
    proof cases
      case 1
      then have "r = None" "w' = usb_responder_set_last_error (Some ''oom'') w5"
        using run op p2 p3 p4 m True f by (simp_all add: usb_responder_read_file_all_def)
      then show ?thesis using 1 mem mok by (auto simp: read_result_def intro: reads_then_err)
    next
      case 2
      then have "r = Some ([], ok)" "w' = w5"
        using run op p2 p3 p4 m True f by (simp_all add: usb_responder_read_file_all_def)
      then show ?thesis using 2 mem S de by (auto simp: read_result_def file_end_def)
    next
      case 3
      obtain data w6 where rd: "c_fread_all s ?n w5 = (data, w6)" by (metis surj_pair)
      note R = fread_spec [OF rd]
      have m6: "reads_only w w6 1" using reads_then_quiet [OF mem R(1)] 3 by simp
      have res: "(r, w') = (if length data \<noteq> ?n then (None, c_free True (set_errno_error ''fread'' w6)) else (Some (data, True), w6))"
        using run op p2 p3 p4 m True f 3 rd by (simp add: usb_responder_read_file_all_def)
      show ?thesis
      proof (cases "length data = ?n")
        case True
        then have d: "i_kind s \<noteq> Dir" "data = i_data s" using R(2) 3(1) by (simp_all add: file_end_file)
        with True res m6 S show ?thesis by (auto simp: read_result_def)
      next
        case False
        have "reads_only w (c_free True (set_errno_error ''fread'' w6)) 0"
          using reads_then_free [OF reads_then_err(3) [OF m6], of True] by simp
        moreover have "faults w = [] \<Longrightarrow> i_kind s \<noteq> Dir \<Longrightarrow> False"
          using False R(3) reads_only_keeps(4) [OF mem] by (simp add: file_end_file)
        ultimately show ?thesis using False res S by (auto simp: read_result_def)
      qed
    qed
  qed
  then show "read_result w (comps path) r w'"
    "faults w = [] \<Longrightarrow> allocs w = [] \<Longrightarrow> node_at (vfs w) (comps path) = Some st \<Longrightarrow> i_kind st \<in> {Reg, Other} \<Longrightarrow>
      \<exists>nonnull. r = Some (i_data st, nonnull)" by blast+
qed

section \<open>Listing a directory\<close>

definition text_ok :: "growtext \<Rightarrow> bool" where
  "text_ok gt \<longleftrightarrow> gt = ([], 0) \<or> length (fst gt) < snd gt"

definition blocks :: "growtext \<Rightarrow> int" where
  "blocks gt = (if snd gt = 0 then 0 else 1)"

definition text_lines :: "string list \<Rightarrow> string" where
  "text_lines ns = concat (map (\<lambda>n. c_str n @ [CHR 0x0A]) ns)"

lemma text_lines_simps [simp]:
  "text_lines [] = []" "text_lines (n # ns) = c_str n @ CHR 0x0A # text_lines ns"
  by (simp_all add: text_lines_def)

lemma empty_text [simp]: "blocks ([], 0) = 0" "text_ok ([], 0)"
  by (simp_all add: blocks_def text_ok_def)

lemma append_line_spec:
  assumes ok: "text_ok gt" and run: "list_append_line gt name w = (r, w')"
  shows "case r of Inl e \<Rightarrow> e = NoMem \<and> mem_only w w' 0 \<and> allocs w \<noteq> []
    | Inr gt' \<Rightarrow> text_ok gt' \<and> fst gt' = fst gt @ c_str name @ [CHR 0x0A] \<and> mem_only w w' (blocks gt' - blocks gt)"
proof -
  obtain tx cap where gt: "gt = (tx, cap)" by (cases gt)
  let ?need = "length tx + (length (c_str name) + 1) + 1"
  let ?new = "grow_cap (if cap = 0 then 256 else cap) ?need"
  have new: "?need \<le> ?new" by (rule grow_cap_ge) simp
  then have pos: "0 < ?new" by linarith
  show ?thesis
  proof (cases "cap < ?need")
    case True
    show ?thesis
    proof (cases rule: c_realloc_cases [of "cap \<noteq> 0" w])
      case (ok w1)
      have "(r, w') = (Inr (tx @ c_str name @ [CHR 0x0A], ?new), w1)"
        using run True ok(1) new by (simp add: list_append_line_def gt Let_def)
      then show ?thesis using ok(2) new pos by (auto simp: text_ok_def blocks_def gt)
    next
      case (fail w1)
      then show ?thesis using run True by (auto simp: list_append_line_def gt Let_def)
    qed
  next
    case False
    have "(r, w') = (Inr (tx @ c_str name @ [CHR 0x0A], cap), w)"
      using run False by (simp add: list_append_line_def gt Let_def)
    then show ?thesis using False by (auto simp: text_ok_def blocks_def gt)
  qed
qed

lemma finalize_spec:
  assumes ok: "text_ok gt" and run: "list_finalize gt w = (r, w')"
  shows "case r of Inl e \<Rightarrow> e = NoMem \<and> mem_only w w' 0 \<and> allocs w \<noteq> [] \<and> blocks gt = 0
    | Inr t \<Rightarrow> t = fst gt \<and> mem_only w w' (1 - blocks gt)"
proof (cases "snd gt = 0")
  case True
  then have "gt = ([], 0)" using ok by (auto simp: text_ok_def)
  then show ?thesis using run by (cases rule: c_malloc_cases [of w]) (auto simp: list_finalize_def blocks_def)
next
  case False
  then show ?thesis using ok run by (cases gt) (auto simp: list_finalize_def blocks_def text_ok_def)
qed

lemma list_finish_spec:
  fixes w w' :: "'a fs_world_scheme"
  assumes ok: "text_ok files" "text_ok dirs" and run: "list_finish files dirs w = (r, w')"
  shows "case r of Inl e \<Rightarrow> e = NoMem \<and> reads_only w w' (- blocks files - blocks dirs) \<and> allocs w \<noteq> []
    | Inr p \<Rightarrow> p = (fst files, fst dirs) \<and> reads_only w w' (2 - blocks files - blocks dirs)"
proof -
  obtain f w1 where f: "list_finalize files w = (f, w1)" by (metis surj_pair)
  obtain d w2 where d: "list_finalize dirs w1 = (d, w2)" by (metis surj_pair)
  note F = finalize_spec [OF ok(1) f] finalize_spec [OF ok(2) d]
  have res: "list_finish files dirs w = (case (f, d) of
      (Inr ft, Inr dt) \<Rightarrow> (Inr (ft, dt), w2)
    | (Inl e, Inr _) \<Rightarrow> (Inl e, usb_responder_set_last_error (Some ''oom'') (c_free True w2))
    | (Inr _, Inl e) \<Rightarrow> (Inl e, usb_responder_set_last_error (Some ''oom'') (c_free True w2))
    | (Inl e, Inl _) \<Rightarrow> (Inl e, usb_responder_set_last_error (Some ''oom'') w2))"
    by (simp add: list_finish_def f d)
  have step: "reads_only w w2 (x + y)" if "mem_only w w1 x" "mem_only w1 w2 y" for x y
    using reads_only_trans [OF mem_only_reads [OF that(1)] mem_only_reads [OF that(2)]] .
  have free1: "reads_only w (usb_responder_set_last_error (Some ''oom'') (c_free True w2)) (x - 1)" if "reads_only w w2 x" for x
    using reads_then_err(1) [OF reads_then_free [OF that, of True]] by simp
  note run' = trans [OF sym [OF run] res]
  show ?thesis
  proof (cases f; cases d)
    fix e e' assume "f = Inl e" "d = Inl e'"
    then show ?thesis using run' F step [of 0 0] by (auto intro: reads_then_err)
  next
    fix e t assume "f = Inl e" "d = Inr t"
    then show ?thesis using run' F free1 [OF step [of 0 "1 - blocks dirs"]] by auto
  next
    fix t e assume c: "f = Inr t" "d = Inl e"
    then have "allocs w \<noteq> []" using F mem_only_calm [of w w1] by auto
    then show ?thesis using run' F c free1 [OF step [of "1 - blocks files" 0]] by auto
  next
    fix t t' assume "f = Inr t" "d = Inr t'"
    then show ?thesis using run' F step [of "1 - blocks files" "1 - blocks dirs"] by (auto simp: algebra_simps)
  qed
qed

text \<open>The names a listing shows, and which of them are directories.\<close>

definition shown :: "string list \<Rightarrow> string list" where
  "shown ns = filter (\<lambda>n. n \<noteq> ''.'' \<and> n \<noteq> ''..'') ns"

definition sub_dir :: "vfs \<Rightarrow> string \<Rightarrow> string \<Rightarrow> bool" where
  "sub_dir v dp n \<longleftrightarrow> (\<exists>st. node_at v (comps (dp @ ''/'' @ n)) = Some st \<and> i_kind st = Dir)"

definition listed :: "vfs \<Rightarrow> string \<Rightarrow> string list \<Rightarrow> growtext \<Rightarrow> growtext \<Rightarrow> growtext \<Rightarrow> growtext \<Rightarrow> bool" where
  "listed v dp ns files dirs files' dirs' \<longleftrightarrow>
     fst files' = fst files @ text_lines (filter (\<lambda>n. \<not> sub_dir v dp n) (shown ns)) \<and>
     fst dirs' = fst dirs @ text_lines (filter (sub_dir v dp) (shown ns))"

lemma listed_Nil [simp]: "listed v dp [] files dirs files dirs"
  by (simp add: listed_def shown_def)

text \<open>One turn of the loop for a name that is shown.\<close>

definition list_turn ::
  "growtext \<Rightarrow> growtext \<Rightarrow> inode \<Rightarrow> string \<Rightarrow> 'a fs_world_scheme \<Rightarrow> (growtext \<times> growtext) cres \<times> 'a fs_world_scheme" where
  "list_turn files dirs st name w =
     (let (r, w') = list_append_line (if i_kind st = Dir then dirs else files) name w
      in (case r of Inl e \<Rightarrow> Inl e | Inr t \<Rightarrow> Inr (if i_kind st = Dir then (files, t) else (t, dirs)), w'))"

lemma list_entries_turn:
  "list_entries dp (name # names) files dirs w =
     (case plain_call w of
        (False, w1) \<Rightarrow> (Inr (files, dirs), w1)
      | (True, w1) \<Rightarrow>
          if name = ''.'' \<or> name = ''..'' then list_entries dp names files dirs w1
          else if 4096 \<le> length (dp @ ''/'' @ name) then
            (Inl Reject, usb_responder_set_last_error (Some ''path too long'') (free_text dirs (free_text files w1)))
          else
            (case c_lstat (dp @ ''/'' @ name) w1 of
               (None, w2) \<Rightarrow> (Inl Reject, free_text dirs (free_text files (set_file_error ''lstat'' (dp @ ''/'' @ name) w2)))
             | (Some st, w2) \<Rightarrow>
                 (case list_turn files dirs st name w2 of
                    (Inl e, w3) \<Rightarrow> (Inl e, usb_responder_set_last_error (Some ''oom'') (free_text dirs (free_text files w3)))
                  | (Inr (f, d), w3) \<Rightarrow> list_entries dp names f d w3)))"
  by (auto simp: list_turn_def snprintf_fits Let_def split: prod.split sum.split bool.split option.split)

declare list_entries.simps(2) [simp del]

lemma list_turn_spec:
  assumes ok: "text_ok files" "text_ok dirs" and run: "list_turn files dirs st name w = (r, w')"
  shows "case r of Inl e \<Rightarrow> e = NoMem \<and> mem_only w w' 0 \<and> allocs w \<noteq> []
    | Inr (f, d) \<Rightarrow> text_ok f \<and> text_ok d \<and> mem_only w w' (blocks f + blocks d - blocks files - blocks dirs) \<and>
        fst f = fst files @ (if i_kind st = Dir then [] else text_lines [name]) \<and>
        fst d = fst dirs @ (if i_kind st = Dir then text_lines [name] else [])"
proof -
  obtain r1 where ap: "list_append_line (if i_kind st = Dir then dirs else files) name w = (r1, w')"
      and r: "r = (case r1 of Inl e \<Rightarrow> Inl e | Inr t \<Rightarrow> Inr (if i_kind st = Dir then (files, t) else (t, dirs)))"
    using run by (auto simp: list_turn_def split: prod.splits)
  have "text_ok (if i_kind st = Dir then dirs else files)" using ok by simp
  from append_line_spec [OF this ap] ok show ?thesis
    by (cases r1; cases "i_kind st = Dir") (auto simp: r algebra_simps)
qed

lemma free_texts:
  "reads_only w w1 d \<Longrightarrow> reads_only w (free_text dirs (free_text files w1)) (d - blocks files - blocks dirs)"
  using reads_then_free [OF reads_then_free [of w w1 d "snd files \<noteq> 0"], of "snd dirs \<noteq> 0"]
  by (cases "snd files = 0"; cases "snd dirs = 0"; simp add: blocks_def)

lemma listed_dot: "name = ''.'' \<or> name = ''..'' \<Longrightarrow> listed v dp ns f d f' d' \<Longrightarrow> listed v dp (name # ns) f d f' d'"
  by (auto simp: listed_def shown_def)

lemma listed_turn:
  assumes "name \<noteq> ''.''" "name \<noteq> ''..''" and st: "node_at v (comps (dp @ ''/'' @ name)) = Some st"
    and "fst f1 = fst f @ (if i_kind st = Dir then [] else text_lines [name])"
    and "fst d1 = fst d @ (if i_kind st = Dir then text_lines [name] else [])"
    and "listed v dp ns f1 d1 f' d'"
  shows "listed v dp (name # ns) f d f' d'"
proof -
  have "sub_dir v dp name \<longleftrightarrow> i_kind st = Dir" using st by (simp add: sub_dir_def)
  then show ?thesis using assms by (simp add: listed_def shown_def)
qed

text \<open>A loop that ran over some of the names, and over all of them when no call failed.\<close>

definition list_part ::
  "vfs \<Rightarrow> string \<Rightarrow> bool \<Rightarrow> string list \<Rightarrow> growtext \<Rightarrow> growtext \<Rightarrow> growtext \<Rightarrow> growtext \<Rightarrow> bool" where
  "list_part v dp calm names files dirs f d \<longleftrightarrow>
     (\<exists>ns rest. names = ns @ rest \<and> listed v dp ns files dirs f d \<and> (calm \<longrightarrow> rest = []))"

lemma list_part_stop: "\<not> calm \<or> names = [] \<Longrightarrow> list_part v dp calm names f d f d"
  unfolding list_part_def by (rule exI [of _ "[]"]) auto

lemma list_part_Cons:
  assumes "list_part v dp calm names f1 d1 f d" and "calm' \<longrightarrow> calm"
    and "\<And>ns. listed v dp ns f1 d1 f d \<Longrightarrow> listed v dp (n # ns) f0 d0 f d"
  shows "list_part v dp calm' (n # names) f0 d0 f d"
proof -
  obtain ns rest where "names = ns @ rest" "listed v dp ns f1 d1 f d" "calm \<longrightarrow> rest = []"
    using assms(1) by (auto simp: list_part_def)
  then show ?thesis unfolding list_part_def using assms(2,3) by (intro exI [of _ "n # ns"] exI [of _ rest]) auto
qed

lemma list_entries_cases:
  assumes run: "list_entries dp (name # names) files dirs w = (r, w')" and ok: "text_ok files" "text_ok dirs"
  obtains (stop) "r = Inr (files, dirs)" "quiet w w'" "faults w \<noteq> []"
  | (err) e where "r = Inl e" "e \<noteq> OutOfBounds" "reads_only w w' (- blocks files - blocks dirs)"
  | (step) f1 d1 w1 where "list_entries dp names f1 d1 w1 = (r, w')" "text_ok f1" "text_ok d1"
      "reads_only w w1 (blocks f1 + blocks d1 - blocks files - blocks dirs)"
      "\<And>ns f d. listed (vfs w) dp ns f1 d1 f d \<Longrightarrow> listed (vfs w) dp (name # ns) files dirs f d"
proof -
  obtain b w1 where pc: "plain_call w = (b, w1)" by (metis surj_pair)
  note q = plain_call_quiet [OF pc]
  note run = run [unfolded list_entries_turn [of dp name] pc]
  have v1: "vfs w1 = vfs w" using q by (simp add: quiet_def)
  consider "\<not> b" | "b" "name = ''.'' \<or> name = ''..''"
    | "b" "name \<noteq> ''.''" "name \<noteq> ''..''" "4096 \<le> length (dp @ ''/'' @ name)"
    | "b" "name \<noteq> ''.''" "name \<noteq> ''..''" "length (dp @ ''/'' @ name) < 4096" by linarith
  then show ?thesis
  proof cases
    case 1
    then have "r = Inr (files, dirs)" "w' = w1" "faults w \<noteq> []" using run q by auto
    then show ?thesis using stop q by simp
  next
    case 2
    then have "list_entries dp names files dirs w1 = (r, w')" using run by auto
    then show ?thesis using ok quiet_reads [OF conjunct1 [OF q]] listed_dot [OF 2(2)] by (intro step [of files dirs w1]) simp_all
  next
    case 3
    then have "r = Inl Reject"
        "w' = usb_responder_set_last_error (Some ''path too long'') (free_text dirs (free_text files w1))"
      using run by auto
    then show ?thesis using free_texts [OF quiet_reads, of w w1 dirs files] q by (intro err) (auto intro: reads_then_err)
  next
    case 4
    obtain st w2 where l: "c_lstat (dp @ ''/'' @ name) w1 = (st, w2)" by (metis surj_pair)
    note L = lstat_spec [OF l]
    have w2: "quiet w w2" using q L(1) quiet_trans by blast
    show ?thesis
    proof (cases st)
      case None
      then have "r = Inl Reject"
          "w' = free_text dirs (free_text files (set_file_error ''lstat'' (dp @ ''/'' @ name) w2))"
        using run 4 l by auto
      then show ?thesis
        using free_texts [OF quiet_reads [OF quiet_then_err(2) [OF w2]], of dirs files] by (intro err [of Reject]) simp_all
    next
      case (Some s)
      obtain t w3 where tn: "list_turn files dirs s name w2 = (t, w3)" by (metis surj_pair)
      note T = list_turn_spec [OF ok tn]
      show ?thesis
      proof (cases t)
        case (Inl e)
        then have "r = Inl e" "w' = usb_responder_set_last_error (Some ''oom'') (free_text dirs (free_text files w3))"
          using run 4 l Some tn by auto
        moreover have "reads_only w w3 0"
          using T Inl reads_only_trans [OF quiet_reads [OF w2] mem_only_reads, of w3 0] by simp
        ultimately show ?thesis using free_texts [of w w3 0 dirs files] T Inl by (intro err) (auto intro: reads_then_err)
      next
        case (Inr p)
        obtain f1 d1 where p: "p = (f1, d1)" by (cases p)
        show ?thesis
        proof (rule step)
          show "list_entries dp names f1 d1 w3 = (r, w')" using run 4 l Some tn Inr p by auto
          show "text_ok f1" "text_ok d1" using T Inr p by auto
          show "reads_only w w3 (blocks f1 + blocks d1 - blocks files - blocks dirs)"
            using T Inr p reads_only_trans [OF quiet_reads [OF w2] mem_only_reads] by simp
          show "listed (vfs w) dp (name # ns) files dirs f d" if "listed (vfs w) dp ns f1 d1 f d" for ns f d
            by (rule listed_turn [where st = s and ?f1.0 = f1 and ?d1.0 = d1])
              (use 4 L(2) [OF Some] T that \<open>t = Inr p\<close> p v1 in auto)
        qed
      qed
    qed
  qed
qed

lemma list_entries_spec:
  "list_entries dp names files dirs w = (r, w') \<Longrightarrow> text_ok files \<Longrightarrow> text_ok dirs \<Longrightarrow>
   (case r of Inl e \<Rightarrow> e \<noteq> OutOfBounds \<and> reads_only w w' (- blocks files - blocks dirs)
    | Inr (f, d) \<Rightarrow> text_ok f \<and> text_ok d \<and> reads_only w w' (blocks f + blocks d - blocks files - blocks dirs) \<and>
        list_part (vfs w) dp (faults w = []) names files dirs f d)"
proof (induction names arbitrary: files dirs w)
  case Nil
  obtain b w1 where "plain_call w = (b, w1)" by (metis surj_pair)
  then show ?case using Nil plain_call_quiet [of w b w1] by (auto intro: quiet_reads list_part_stop)
next
  case (Cons name names)
  from Cons.prems show ?case
  proof (cases rule: list_entries_cases)
    case stop
    then show ?thesis using Cons.prems(2,3) quiet_reads by (auto intro: list_part_stop)
  next
    case (err e)
    then show ?thesis by simp
  next
    case (step f1 d1 w1)
    note IH = Cons.IH [OF step(1,2,3)]
    show ?thesis
    proof (cases r)
      case (Inl e)
      then show ?thesis using IH reads_only_trans [OF step(4), of w' "- blocks f1 - blocks d1"]
        by (simp add: algebra_simps minus_diff_commute)
    next
      case (Inr fd)
      obtain f d where fd: "fd = (f, d)" by (cases fd)
      have v1: "vfs w1 = vfs w" "faults w = [] \<longrightarrow> faults w1 = []" using reads_only_keeps(1,4) [OF step(4)] by auto
      have "list_part (vfs w) dp (faults w1 = []) names f1 d1 f d" using IH by (simp add: Inr fd v1(1))
      from list_part_Cons [OF this v1(2) step(5)]
      have "list_part (vfs w) dp (faults w = []) (name # names) files dirs f d" .
      moreover have "reads_only w w' (blocks f + blocks d - blocks files - blocks dirs)"
        using IH reads_only_trans [OF step(4), of w' "blocks f + blocks d - blocks f1 - blocks d1"] by (simp add: Inr fd algebra_simps)
      ultimately show ?thesis using IH by (simp add: Inr fd)
    qed
  qed
qed

text \<open>When no call fails and every entry can be reached, the loop gets to the end.\<close>

lemma list_entries_calm:
  "list_entries dp names files dirs w = (r, w') \<Longrightarrow> text_ok files \<Longrightarrow> text_ok dirs \<Longrightarrow> faults w = [] \<Longrightarrow> allocs w = [] \<Longrightarrow>
   (\<And>n. n \<in> set (shown names) \<Longrightarrow> length (dp @ ''/'' @ n) < 4096 \<and> node_at (vfs w) (comps (dp @ ''/'' @ n)) \<noteq> None) \<Longrightarrow>
   \<exists>f d. r = Inr (f, d)"
proof (induction names arbitrary: files dirs w)
  case Nil
  then show ?case by auto
next
  case (Cons name names)
  have pc: "plain_call w = (True, w)" using Cons.prems(4) by (simp add: plain_call_def next_fault_def)
  note run = Cons.prems(1) [unfolded list_entries_turn [of dp name] pc]
  show ?case
  proof (cases "name = ''.'' \<or> name = ''..''")
    case True
    then show ?thesis
      using Cons.IH [of files dirs w] run Cons.prems(2-6) by (auto simp: shown_def)
  next
    case False
    then have nm: "length (dp @ ''/'' @ name) < 4096" "node_at (vfs w) (comps (dp @ ''/'' @ name)) \<noteq> None"
      using Cons.prems(6) [of name] by (simp_all add: shown_def)
    obtain st w2 where l: "c_lstat (dp @ ''/'' @ name) w = (st, w2)" by (metis surj_pair)
    note L = lstat_spec [OF l]
    obtain s where s: "st = Some s" using L(3) [OF Cons.prems(4)] nm(2) by blast
    obtain t w3 where tn: "list_turn files dirs s name w2 = (t, w3)" by (metis surj_pair)
    note T = list_turn_spec [OF Cons.prems(2,3) tn]
    have w2: "allocs w2 = []" "faults w2 = []" "vfs w2 = vfs w"
      using quiet_keeps(6,14) [OF L(1)] quiet_vfs [OF L(1)] Cons.prems(4,5) by simp_all
    obtain f1 d1 where t: "t = Inr (f1, d1)" using T w2(1) by (cases t) auto
    then have f1: "text_ok f1" "text_ok d1" and m: "mem_only w2 w3 (blocks f1 + blocks d1 - blocks files - blocks dirs)"
      using T by auto
    have w3: "allocs w3 = []" "faults w3 = []" "vfs w3 = vfs w"
      using reads_only_keeps(1,3,4) [OF mem_only_reads [OF m]] w2 by simp_all
    have rec: "list_entries dp names f1 d1 w3 = (r, w')" using run False nm(1) l s tn t by simp
    show ?thesis
    proof (rule Cons.IH [OF rec f1 w3(2,1)])
      show "length (dp @ ''/'' @ n) < 4096 \<and> node_at (vfs w3) (comps (dp @ ''/'' @ n)) \<noteq> None" if "n \<in> set (shown names)" for n
        using Cons.prems(6) [of n] that w3(3) by (auto simp: shown_def)
    qed
  qed
qed

lemma list_part_shown:
  assumes "list_part v dp calm (''.'' # ''..'' # names) ([], 0) ([], 0) f d" and "\<forall>n\<in>set names. n \<noteq> ''.'' \<and> n \<noteq> ''..''"
  shows "\<exists>ns rest. names = ns @ rest \<and> (calm \<longrightarrow> rest = []) \<and>
    fst f = text_lines (filter (\<lambda>n. \<not> sub_dir v dp n) ns) \<and> fst d = text_lines (filter (sub_dir v dp) ns)"
proof -
  obtain ns rest where ns: "''.'' # ''..'' # names = ns @ rest" "listed v dp ns ([], 0) ([], 0) f d" "calm \<longrightarrow> rest = []"
    using assms(1) by (auto simp: list_part_def)
  have "names = drop 2 (ns @ rest)" by (simp flip: ns(1))
  then have split: "names = drop 2 ns @ drop (2 - length ns) rest" by simp
  have "shown ns = drop 2 ns"
  proof (cases ns)
    case Nil
    then show ?thesis by (simp add: shown_def)
  next
    case (Cons x xs)
    have "\<forall>n\<in>set (drop 2 ns). n \<noteq> ''.'' \<and> n \<noteq> ''..''" using assms(2) split by (metis in_set_conv_decomp_last append.assoc append_Cons set_append UnCI)
    then have "shown (drop 2 ns) = drop 2 ns" by (simp add: shown_def filter_id_conv)
    then show ?thesis using ns(1) Cons by (cases xs) (auto simp: shown_def)
  qed
  then show ?thesis using ns(2,3) split
    by (intro exI [of _ "drop 2 ns"] exI [of _ "drop (2 - length ns) rest"]) (auto simp: listed_def)
qed

lemma digits_of_length: "2 \<le> b \<Longrightarrow> n < b ^ k \<Longrightarrow> 0 < k \<Longrightarrow> length (digits_of b n acc) \<le> k + length acc"
proof (induction k arbitrary: n acc)
  case 0
  then show ?case by simp
next
  case (Suc k)
  show ?case
  proof (cases "n < b")
    case True
    then show ?thesis by (subst digits_of.simps) simp
  next
    case False
    then have "k \<noteq> 0" using Suc.prems by (cases k) simp_all
    moreover have "n div b < b ^ k" using Suc.prems by (simp add: less_mult_imp_div_less mult.commute)
    ultimately have "length (digits_of b (n div b) (digit_char (n mod b) # acc)) \<le> k + (length acc + 1)"
      using Suc.IH [of "n div b" "digit_char (n mod b) # acc"] Suc.prems(1) by simp
    with False Suc.prems(1) show ?thesis by (subst digits_of.simps) simp
  qed
qed

section \<open>Attributes\<close>

lemma id_text_spec:
  assumes "id_text names i w = (t, w')"
  shows "quiet w w'" and "length t \<le> 127"
    and "faults w = [] \<Longrightarrow> t = take 127 (case names i of None \<Rightarrow> show_dec (unat i) | Some n \<Rightarrow> c_str n)"
proof -
  obtain b w1 where pc: "plain_call w = (b, w1)" by (metis surj_pair)
  show "quiet w w'" "length t \<le> 127"
    "faults w = [] \<Longrightarrow> t = take 127 (case names i of None \<Rightarrow> show_dec (unat i) | Some n \<Rightarrow> c_str n)"
    using assms plain_call_quiet [OF pc]
    by (cases b; auto simp: id_text_def pc snprintf_buf_def split: option.splits)+
qed

section \<open>Properties\<close>

text \<open>
  Reading a file. Whatever fails, the read leaves the tree alone; it returns the content of the file the
  normal form of the path leads to in one block, or fails and leaves no block; on an accepted path of a
  regular file it succeeds when no call fails.
\<close>

theorem file_read_content:
  assumes wf: "fs_wf (vfs w)"
  shows "case usb_responder_file_read (Some rel) w of (r, w') \<Rightarrow>
    (case r of None \<Rightarrow> reads_only w w' 0
     | Some (data, nonnull) \<Rightarrow>
         reads_only w w' (if nonnull then 1 else 0) \<and> accepted_path rel \<and>
         (\<exists>st. fs_get (vfs w) (comps (c_str rel)) = Some st \<and> i_kind st \<noteq> Link \<and>
            (if i_kind st = Dir then data = [] \<and> dir_end w = 0 else data = i_data st))) \<and>
    (faults w = [] \<and> allocs w = [] \<and> accepted_path rel \<and>
       (\<exists>st. fs_get (vfs w) (comps (c_str rel)) = Some st \<and> i_kind st = Reg) \<longrightarrow> r \<noteq> None)"
proof (cases rule: build_path_request [of rel w])
  case ok
  obtain r w' where rd: "usb_responder_read_file_all (render (comps (c_str rel))) w = (r, w')" by (metis surj_pair)
  have run: "usb_responder_file_read (Some rel) w = (r, w')" using ok(2) rd by (simp add: usb_responder_file_read_def)
  note R = read_file_all_spec [OF rd, unfolded ok(3) node_at_get [OF wf]]
  have "r \<noteq> None" if "faults w = []" "allocs w = []" "fs_get (vfs w) (comps (c_str rel)) = Some st" "i_kind st = Reg" for st
    using R(2) [OF that(1,2,3)] that(4) by auto
  then show ?thesis
    using R(1) ok(1) unfolding run read_result_def node_at_get [OF wf]
    by (cases r) (auto split del: if_split)
next
  case (bad out w')
  then show ?thesis using quiet_reads [OF quiet_err_only] by (simp add: usb_responder_file_read_def)
qed

text \<open>A small tree: the file \<open>/a\<close>, the directory \<open>/d\<close> and in it the file \<open>/d/x\<close>.\<close>

definition small_tree :: vfs where
  "small_tree = \<lparr>dents = [([], 10), ([''a''], 11), ([''d''], 12), ([''d'', ''x''], 13)],
     inodes = (\<lambda>i. \<lparr>i_kind = (if i = 10 \<or> i = 12 then Dir else Reg), i_data = (if i = 11 then [1, 2, 3] else []),
       i_mode = 0x1A4, i_uid = 0, i_gid = 7\<rparr>),
     next_ino = 14, self_uid = 0, self_gid = 0\<rparr>"

definition small_world :: fs_world where
  "small_world = \<lparr>long_bits = 64, strerr = (\<lambda>_. []), last_error = [], errno_val = EINTR,
     allocs = [], live = 0, wscript = [], sent = [], rscript = [], pscript = [],
     vfs = small_tree, streams = (\<lambda>_. None), next_stream = 0, faults = [], umask = 0x12, dir_end = 4096,
     mountinfo = None, statvfs_of = (\<lambda>_. None), pw_name = (\<lambda>u. if u = 0 then Some ''root'' else None), gr_name = (\<lambda>_. None)\<rparr>"

lemma small_world_simps [simp]:
  "vfs small_world = small_tree" "faults small_world = []" "allocs small_world = []" "live small_world = 0"
  "pw_name small_world = (\<lambda>u. if u = 0 then Some ''root'' else None)" "gr_name small_world = (\<lambda>_. None)"
  by (simp_all add: small_world_def)

lemma small_tree_ok: "tree_ok small_tree"
  by (simp add: tree_ok_def fs_wf_def small_tree_def is_dir_def fs_get_def fs_ino_def plain_name_def)

lemma small_tree_get:
  "fs_get small_tree [] = Some (inodes small_tree 10)" "fs_get small_tree [''a''] = Some (inodes small_tree 11)"
  "fs_get small_tree [''d''] = Some (inodes small_tree 12)" "fs_get small_tree [''d'', ''x''] = Some (inodes small_tree 13)"
  "i_kind (inodes small_tree 10) = Dir" "i_kind (inodes small_tree 11) = Reg" "i_kind (inodes small_tree 12) = Dir"
  "i_kind (inodes small_tree 13) = Reg" "i_data (inodes small_tree 11) = [1, 2, 3]"
  by (simp_all add: small_tree_def fs_get_def fs_ino_def)

lemma accepted_a: "accepted_path ''a''" "comps (c_str ''a'') = [''a'']" "accepted_path ''/''" "comps (c_str ''/'') = []"
  "comps ''a'' = [''a'']" "comps ''/'' = []"
  by (simp_all add: accepted_path_def c_str_def comps_def render_def)

theorem file_read_content_witness:
  "\<exists>nonnull w'. usb_responder_file_read (Some ''a'') small_world = (Some ([1, 2, 3], nonnull), w') \<and> vfs w' = small_tree"
proof -
  have "fs_wf (vfs small_world)" using tree_okD(1) [OF small_tree_ok] by simp
  from file_read_content [OF this, of "''a''"] show ?thesis
    by (auto simp: accepted_a small_tree_get split: prod.splits option.splits simp: reads_only_def)
qed

text \<open>The names of a directory as the listing sees them.\<close>

lemma listed_child:
  assumes ok: "tree_ok v" and n: "n \<in> set (fs_children v p)" and p: "comps (render p) = p"
  shows "sub_dir v (render p) n \<longleftrightarrow> is_dir v (p @ [n])" and "node_at v (comps (render p @ ''/'' @ n)) \<noteq> None"
    and "n \<noteq> ''.''" and "n \<noteq> ''..''"
proof -
  have wf: "fs_wf v" by (rule tree_okD(1) [OF ok])
  have pl: "plain_name n" by (rule fs_children_plain [OF ok n])
  from comps_child [OF this, of "render p"] have c: "comps (render p @ ''/'' @ n) = p @ [n]" using p by simp
  show "sub_dir v (render p) n \<longleftrightarrow> is_dir v (p @ [n])"
    unfolding sub_dir_def c node_at_get [OF wf] is_dir_get ..
  show "node_at v (comps (render p @ ''/'' @ n)) \<noteq> None"
    using n unfolding c node_at_get [OF wf] fs_children_get [OF ok] .
  show "n \<noteq> ''.''" "n \<noteq> ''..''" using pl by (simp_all add: plain_name_def)
qed

definition split_names :: "vfs \<Rightarrow> fpath \<Rightarrow> bool \<Rightarrow> string \<Rightarrow> string \<Rightarrow> bool" where
  "split_names v p whole files dirs \<longleftrightarrow>
     (\<exists>ns rest. fs_children v p = ns @ rest \<and> (whole \<longrightarrow> rest = []) \<and>
        files = text_lines (filter (\<lambda>n. \<not> is_dir v (p @ [n])) ns) \<and>
        dirs = text_lines (filter (\<lambda>n. is_dir v (p @ [n])) ns))"

lemma list_opened:
  assumes ok: "tree_ok (vfs w)" and p: "comps (render p) = p" and q: "quiet w w2"
    and le: "list_entries (render p) (''.'' # ''..'' # fs_children (vfs w) p) ([], 0) ([], 0) w2 = (le, w3)"
  shows "le = Inl e \<Longrightarrow> e \<noteq> OutOfBounds \<and> reads_only w w3 0 \<and>
      \<not> (faults w = [] \<and> allocs w = [] \<and> (\<forall>n\<in>set (fs_children (vfs w) p). length (render p @ ''/'' @ n) < 4096))"
    and "le = Inr (f, d) \<Longrightarrow> text_ok f \<and> text_ok d \<and> reads_only w w3 (blocks f + blocks d) \<and>
      split_names (vfs w) p (faults w = []) (fst f) (fst d)"
proof -
  note E = list_entries_spec [OF le empty_text(2) empty_text(2)]
  have v2: "vfs w2 = vfs w" "faults w = [] \<Longrightarrow> faults w2 = []" "allocs w2 = allocs w"
    using quiet_vfs [OF q] quiet_keeps(6,14) [OF q] by simp_all
  note sub = listed_child [OF ok _ p]
  show "e \<noteq> OutOfBounds \<and> reads_only w w3 0 \<and>
      \<not> (faults w = [] \<and> allocs w = [] \<and> (\<forall>n\<in>set (fs_children (vfs w) p). length (render p @ ''/'' @ n) < 4096))" if "le = Inl e"
  proof -
    have "\<exists>f d. le = Inr (f, d)"
      if "faults w = []" "allocs w = []" "\<forall>n\<in>set (fs_children (vfs w) p). length (render p @ ''/'' @ n) < 4096"
      by (rule list_entries_calm [OF le empty_text(2) empty_text(2)]) (use that v2 sub(2) in \<open>auto simp: shown_def\<close>)
    then show ?thesis using E \<open>le = Inl e\<close> reads_only_trans [OF quiet_reads [OF q], of w3 0] by auto
  qed
  show "text_ok f \<and> text_ok d \<and> reads_only w w3 (blocks f + blocks d) \<and>
      split_names (vfs w) p (faults w = []) (fst f) (fst d)" if "le = Inr (f, d)"
  proof -
    have base: "text_ok f" "text_ok d" and lp: "list_part (vfs w) (render p) (faults w2 = []) (''.'' # ''..'' # fs_children (vfs w) p) ([], 0) ([], 0) f d"
      and m: "reads_only w w3 (blocks f + blocks d)"
      using E that v2 reads_only_trans [OF quiet_reads [OF q], of w3 "blocks f + blocks d"] by auto
    obtain ks rest where ks: "fs_children (vfs w) p = ks @ rest" "faults w2 = [] \<longrightarrow> rest = []"
      "fst f = text_lines (filter (\<lambda>n. \<not> sub_dir (vfs w) (render p) n) ks)" "fst d = text_lines (filter (sub_dir (vfs w) (render p)) ks)"
      using list_part_shown [OF lp] sub(3,4) by auto
    have "filter (\<lambda>n. \<not> sub_dir (vfs w) (render p) n) ks = filter (\<lambda>n. \<not> is_dir (vfs w) (p @ [n])) ks"
      "filter (sub_dir (vfs w) (render p)) ks = filter (\<lambda>n. is_dir (vfs w) (p @ [n])) ks"
      by (rule filter_cong [OF refl], use sub(1) ks(1) in auto)+
    then have "split_names (vfs w) p (faults w = []) (fst f) (fst d)"
      using ks v2(2) unfolding split_names_def by (intro exI [of _ ks] exI [of _ rest]) auto
    then show ?thesis using base m by blast
  qed
qed



text \<open>The texts of a stat fit their buffers.\<close>

lemma perm_text:
  assumes "12 \<le> long_bits w"
  shows "parse_perm_octal (Some (snprintf_buf 16 (show_oct4 (unat (m AND 0xFFF))))) w = (Some (m AND 0xFFF), w)"
proof -
  have le: "m AND 0xFFF \<le> 0xFFF" by (rule word_and_le1)
  then have "unat (m AND 0xFFF) < 8 ^ 4" by (simp add: word_le_nat_alt)
  then have "length (digits_of 8 (unat (m AND 0xFFF)) []) \<le> 4 + length ([] :: string)"
    by (intro digits_of_length) simp_all
  then have "length (show_oct4 (unat (m AND 0xFFF))) < 16" by (simp add: show_oct4_def zero_pad_def)
  then show ?thesis using show_oct4_perm [OF le assms] by (simp add: snprintf_fits)
qed

lemma dec_text:
  assumes "n < 10 ^ 31"
  shows "snprintf_buf 32 (show_dec n) = show_dec n"
proof -
  have "length (show_dec n) \<le> 31 + length ([] :: string)"
    unfolding show_dec_def by (rule digits_of_length [OF _ assms]) simp_all
  then show ?thesis by (simp add: snprintf_fits)
qed

text \<open>
  C24. Attributes. A stat leaves everything alone; it succeeds whenever the path is accepted, leads to a node
  and no call fails, and then reports the type of the node itself (links are not followed), its permission
  bits in a form the permission parser reads back, its size in decimal, and the names of user and group, or
  their numbers.
\<close>

theorem file_stat_exact:
  assumes wf: "fs_wf (vfs w)" and "12 \<le> long_bits w" and run: "usb_responder_file_stat (Some rel) w = (r, w')"
  shows "quiet w w' \<and>
    (case r of
       None \<Rightarrow> faults w \<noteq> [] \<or> \<not> accepted_path rel \<or> fs_get (vfs w) (comps (c_str rel)) = None
     | Some s \<Rightarrow> accepted_path rel \<and> (\<exists>st. fs_get (vfs w) (comps (c_str rel)) = Some st \<and>
         (si_type s = ''file'' \<longleftrightarrow> i_kind st = Reg) \<and> (si_type s = ''dir'' \<longleftrightarrow> i_kind st = Dir) \<and>
         (si_type s = ''link'' \<longleftrightarrow> i_kind st = Link) \<and>
         parse_perm_octal (Some (si_perm s)) w = (Some (i_mode st AND 0xFFF), w) \<and>
         (file_end st w < 10 ^ 31 \<longrightarrow> si_size s = show_dec (file_end st w)) \<and>
         (faults w = [] \<longrightarrow> si_owner s =
            take 127 (case pw_name w (i_uid st) of None \<Rightarrow> show_dec (unat (i_uid st)) | Some n \<Rightarrow> c_str n) @ '':'' @
            take 127 (case gr_name w (i_gid st) of None \<Rightarrow> show_dec (unat (i_gid st)) | Some n \<Rightarrow> c_str n))))"
proof (cases rule: build_path_request [of rel w])
  case (bad out w1)
  then show ?thesis using run quiet_err_only [OF bad(3)] by (simp add: usb_responder_file_stat_def)
next
  case ok
  let ?p = "comps (c_str rel)"
  obtain st w2 where l: "c_lstat (render ?p) w = (st, w2)" by (metis surj_pair)
  note L = lstat_spec [OF l, unfolded ok(3) node_at_get [OF wf]]
  show ?thesis
  proof (cases st)
    case None
    then have "r = None" "w' = set_file_error ''lstat'' (render ?p) w2"
      using run ok(2) l by (simp_all add: usb_responder_file_stat_def)
    then show ?thesis using quiet_then_err(2) [OF L(1)] L(3) None by simp
  next
    case (Some i)
    obtain u w3 where u: "id_text (pw_name w2) (i_uid i) w2 = (u, w3)" by (metis surj_pair)
    obtain g w4 where g: "id_text (gr_name w3) (i_gid i) w3 = (g, w4)" by (metis surj_pair)
    note U = id_text_spec [OF u] and G = id_text_spec [OF g]
    have q3: "quiet w w3" and q: "quiet w w4" using L(1) U(1) G(1) quiet_trans by blast+
    let ?s = "\<lparr>si_owner = snprintf_buf 256 (u @ '':'' @ g),
        si_perm = snprintf_buf 16 (show_oct4 (unat (i_mode i AND 0xFFF))),
        si_size = snprintf_buf 32 (show_dec (file_end i w4)),
        si_type = (case i_kind i of Reg \<Rightarrow> ''file'' | Dir \<Rightarrow> ''dir'' | Link \<Rightarrow> ''link'' | Other \<Rightarrow> ''other'')\<rparr>"
    have "usb_responder_file_stat (Some rel) w = (Some ?s, w4)"
      using ok(2) l Some u g by (simp add: usb_responder_file_stat_def)
    from trans [OF sym [OF run] this] have r: "r = Some ?s" and w': "w' = w4" unfolding prod.inject by blast+
    note perm = perm_text [OF assms(2), of "i_mode i"]
    have "file_end i w4 = file_end i w" using quiet_keeps(10) [OF q] by (simp add: file_end_def)
    then have "snprintf_buf 32 (show_dec (file_end i w4)) = show_dec (file_end i w)" if "file_end i w < 10 ^ 31"
      using dec_text [OF that] by simp
    moreover have "snprintf_buf 256 (u @ '':'' @ g) = u @ '':'' @ g"
      using U(2) G(2) by (simp add: snprintf_fits)
    moreover have "u = take 127 (case pw_name w (i_uid i) of None \<Rightarrow> show_dec (unat (i_uid i)) | Some n \<Rightarrow> c_str n)"
        "g = take 127 (case gr_name w (i_gid i) of None \<Rightarrow> show_dec (unat (i_gid i)) | Some n \<Rightarrow> c_str n)"
      if "faults w = []"
      using U(3) G(3) that quiet_keeps(12,14) [OF L(1)] quiet_keeps(13,14) [OF q3] by simp_all
    moreover have "fs_get (vfs w) ?p = Some i" using L(2) [OF Some] .
    ultimately show ?thesis using q perm ok(1) by (cases "i_kind i") (simp_all add: r w')
  qed
qed

theorem file_stat_exact_witness:
  "\<exists>s w'. usb_responder_file_stat (Some ''a'') small_world = (Some s, w') \<and> si_type s = ''file'' \<and>
    si_owner s = ''root:7'' \<and> parse_perm_octal (Some (si_perm s)) small_world = (Some 0x1A4, small_world)"
proof -
  have wf: "fs_wf (vfs small_world)" using tree_okD(1) [OF small_tree_ok] by simp
  obtain r w' where run: "usb_responder_file_stat (Some ''a'') small_world = (r, w')" by (metis surj_pair)
  have ids: "i_mode (inodes small_tree 11) = 0x1A4" "i_uid (inodes small_tree 11) = 0" "i_gid (inodes small_tree 11) = 7"
    by (simp_all add: small_tree_def)
  have seven: "show_dec 7 = ''7''" by code_simp
  have "12 \<le> long_bits small_world" by (simp add: small_world_def)
  from file_stat_exact [OF wf this run] run show ?thesis
    by (cases r) (auto simp: accepted_a small_tree_get ids seven)
qed

end
