(* ===== verification/File_Tree.thy ===== *)
theory File_Tree
  imports File_Read Uploads
begin

text \<open>
  The operations that change the tree (\<open>src/file_ops.c\<close>): recursive deletion, creation of
  directories with or without their parents, and renaming. The lemmas show, for every world, which
  paths each operation can touch, that success means the whole effect, that the guards on the
  storage roots and on the SD card hold, and that the operations succeed when no call fails.
\<close>

section \<open>The code\<close>

text \<open>
  The recursion descends from a path of the request, which is shorter than the path buffer, to longer
  ones, and stops where a path does not fit.
\<close>

function (sequential) remove_path_recursive :: "string \<Rightarrow> 'a fs_world_scheme \<Rightarrow> bool \<times> 'a fs_world_scheme"
  and remove_entries :: "string \<Rightarrow> string list \<Rightarrow> 'a fs_world_scheme \<Rightarrow> bool \<times> 'a fs_world_scheme" where
  "remove_path_recursive path w =
     (case c_lstat path w of
        (None, w1) \<Rightarrow> (False, set_file_error ''lstat'' path w1)
      | (Some st, w1) \<Rightarrow>
          if i_kind st = Dir then
            (case c_opendir path w1 of
               (None, w2) \<Rightarrow> (False, set_file_error ''opendir'' path w2)
             | (Some names, w2) \<Rightarrow>
                 (case remove_entries path names w2 of
                    (False, w3) \<Rightarrow> (False, w3)
                  | (True, w3) \<Rightarrow>
                      (case c_rmdir path w3 of
                         (False, w4) \<Rightarrow> (False, set_file_error ''rmdir'' path w4)
                       | (True, w4) \<Rightarrow> (True, w4))))
          else
            (case c_unlink path w1 of
               (False, w2) \<Rightarrow> (False, set_file_error ''unlink'' path w2)
             | (True, w2) \<Rightarrow> (True, w2)))"
| "remove_entries path [] w = (True, snd (plain_call w))"
| "remove_entries path (name # names) w =
     (case plain_call w of
        (False, w1) \<Rightarrow> (True, w1)
      | (True, w1) \<Rightarrow>
          if name = ''.'' \<or> name = ''..'' then remove_entries path names w1
          else
            let full = path @ ''/'' @ name
            in if USB_RESPONDER_PATH_MAX_LEN \<le> length full then
                 (False, usb_responder_set_last_error (Some ''path too long'') w1)
               else
                 (case remove_path_recursive (snprintf_buf 4096 full) w1 of
                    (False, w2) \<Rightarrow> (False, w2)
                  | (True, w2) \<Rightarrow> remove_entries path names w2))"
  by pat_completeness auto
termination
  by (relation "measures
      [\<lambda>x. case x of Inl (p, _) \<Rightarrow> 4096 - length p | Inr (p, _, _) \<Rightarrow> 4096 - length p,
       \<lambda>x. case x of Inl _ \<Rightarrow> 1 | Inr _ \<Rightarrow> 0,
       \<lambda>x. case x of Inl _ \<Rightarrow> 0 | Inr (_, ns, _) \<Rightarrow> length ns]")
    (auto simp: snprintf_buf_def)

declare remove_path_recursive.simps [simp del] remove_entries.simps(2) [simp del]

definition usb_responder_file_delete ::
  "string option \<Rightarrow> string option \<Rightarrow> 'a fs_world_scheme \<Rightarrow> bool \<times> 'a fs_world_scheme" where
  "usb_responder_file_delete relative desire w =
     (case relative of
        None \<Rightarrow> (False, w)
      | Some rel \<Rightarrow>
          (case build_path (Some rel) USB_RESPONDER_PATH_MAX_LEN w of
             (Inl _, w1) \<Rightarrow> (False, w1)
           | (Inr (path, storage), w1) \<Rightarrow>
               (case path_storage_matches_desire storage desire w1 of
                  (False, w2) \<Rightarrow> (False, w2)
                | (True, w2) \<Rightarrow>
                    (case ensure_storage_writeable storage w2 of
                       (False, w3) \<Rightarrow> (False, w3)
                     | (True, w3) \<Rightarrow>
                         if path_is_storage_root path then
                           (False, usb_responder_set_last_error (Some ''refusing to delete storage root'') w3)
                         else remove_path_recursive path w3))))"

text \<open>The loop that creates a directory and its missing parents; \<open>work\<close> is the path reached so far.\<close>

function mkdir_parents :: "string \<Rightarrow> string \<Rightarrow> 'a fs_world_scheme \<Rightarrow> bool \<times> 'a fs_world_scheme" where
  "mkdir_parents r work w =
     (let r1 = dropWhile (\<lambda>c. c = CHR ''/'') r
      in if r1 = [] then (True, w)
         else
           let seg = takeWhile (\<lambda>c. c \<noteq> CHR ''/'') r1;
               nxt = drop (length seg + 1) r1;
               full = work @ (if strcmp_eq work ''/'' then '''' else ''/'') @ seg
           in if USB_RESPONDER_PATH_MAX_LEN \<le> length full then
                (False, usb_responder_set_last_error (Some ''path too long'') w)
              else
                (case c_mkdir full 0x1ED w of
                   (True, w1) \<Rightarrow> mkdir_parents nxt full w1
                 | (False, w1) \<Rightarrow>
                     if errno_val w1 \<noteq> EEXIST then (False, set_file_error ''mkdir'' full w1)
                     else
                       (case c_stat full w1 of
                          (None, w2) \<Rightarrow> (False, set_file_error ''stat'' full w2)
                        | (Some st, w2) \<Rightarrow>
                            if i_kind st \<noteq> Dir then
                              (False, usb_responder_set_last_error (Some ''path exists and is not a directory'') w2)
                            else mkdir_parents nxt full w2)))"
  by pat_completeness auto
termination
proof (relation "measure (\<lambda>(r, _). length r)", goal_cases)
  case 1
  show ?case by simp
next
  case (2 r work w x xa xb xc xd)
  have "length x \<le> length r" "x \<noteq> []" using 2(1,2) by (simp_all add: length_dropWhile_le)
  with 2(4) show ?case by (simp add: less_le_trans [OF diff_less])
next
  case (3 r work w x xa xb xc xd)
  have "length x \<le> length r" "x \<noteq> []" using 3(1,2) by (simp_all add: length_dropWhile_le)
  with 3(4) show ?case by (simp add: less_le_trans [OF diff_less])
qed

declare mkdir_parents.simps [simp del]

definition usb_responder_dir_mkdir ::
  "string option \<Rightarrow> bool \<Rightarrow> string option \<Rightarrow> 'a fs_world_scheme \<Rightarrow> bool \<times> 'a fs_world_scheme" where
  "usb_responder_dir_mkdir relative parents desire w =
     (case relative of
        None \<Rightarrow> (False, w)
      | Some rel \<Rightarrow>
          (case build_path (Some rel) USB_RESPONDER_PATH_MAX_LEN w of
             (Inl _, w1) \<Rightarrow> (False, w1)
           | (Inr (path, storage), w1) \<Rightarrow>
               (case path_storage_matches_desire storage desire w1 of
                  (False, w2) \<Rightarrow> (False, w2)
                | (True, w2) \<Rightarrow>
                    (case ensure_storage_writeable storage w2 of
                       (False, w3) \<Rightarrow> (False, w3)
                     | (True, w3) \<Rightarrow>
                         if \<not> parents then
                           (case c_mkdir path 0x1ED w3 of
                              (False, w4) \<Rightarrow> (False, set_file_error ''mkdir'' path w4)
                            | (True, w4) \<Rightarrow> (True, w4))
                         else mkdir_parents (drop 1 path) ''/'' w3))))"

definition usb_responder_file_rename ::
  "string option \<Rightarrow> string option \<Rightarrow> string option \<Rightarrow> 'a fs_world_scheme \<Rightarrow> bool \<times> 'a fs_world_scheme" where
  "usb_responder_file_rename from_relative to_relative desire w =
     (case (from_relative, to_relative) of
        (Some from_rel, Some to_rel) \<Rightarrow>
          (case build_path (Some from_rel) USB_RESPONDER_PATH_MAX_LEN w of
             (Inl _, w1) \<Rightarrow> (False, w1)
           | (Inr (from_path, from_storage), w1) \<Rightarrow>
               (case build_path (Some to_rel) USB_RESPONDER_PATH_MAX_LEN w1 of
                  (Inl _, w2) \<Rightarrow> (False, w2)
                | (Inr (to_path, to_storage), w2) \<Rightarrow>
                    (case path_storage_matches_desire from_storage desire w2 of
                       (False, w3) \<Rightarrow> (False, w3)
                     | (True, w3) \<Rightarrow>
                         (case path_storage_matches_desire to_storage desire w3 of
                            (False, w4) \<Rightarrow> (False, w4)
                          | (True, w4) \<Rightarrow>
                              (case ensure_storage_writeable from_storage w4 of
                                 (False, w5) \<Rightarrow> (False, w5)
                               | (True, w5) \<Rightarrow>
                                   (case (if to_storage \<noteq> from_storage then ensure_storage_writeable to_storage w5
                                          else (True, w5)) of
                                      (False, w6) \<Rightarrow> (False, w6)
                                    | (True, w6) \<Rightarrow>
                                        if path_is_storage_root from_path \<or> path_is_storage_root to_path then
                                          (False, usb_responder_set_last_error (Some ''refusing to rename storage root'') w6)
                                        else if from_storage \<noteq> to_storage then
                                          (False, usb_responder_set_last_error (Some ''cross-storage rename is not supported'') w6)
                                        else
                                          (case c_rename from_path to_path w6 of
                                             (False, w7) \<Rightarrow> (False, set_file_error ''rename'' to_path w7)
                                           | (True, w7) \<Rightarrow> (True, w7))))))))
      | _ \<Rightarrow> (False, w))"

section \<open>Calls that remove\<close>

text \<open>A call on the tree either changed nothing or did its work.\<close>

lemma tree_call_cases:
  assumes "tree_call f w = (ok, w')"
  obtains (did) "ok" "f (vfs w) = Inr (vfs w')" "tree_only w w'"
  | (fault) "\<not> ok" "quiet w w'" "faults w \<noteq> []"
  | (refused) e where "\<not> ok" "quiet w w'" "f (vfs w) = Inl e" "errno_val w' = e"
proof -
  obtain flt w1 where nf: "next_fault w = (flt, w1)" by (metis surj_pair)
  note q = next_fault_quiet [OF nf]
  have v1: "vfs w1 = vfs w" using q by (simp add: quiet_def)
  show ?thesis
  proof (cases flt)
    case (Some e)
    then show ?thesis using assms q quiet_trans [OF conjunct1 [OF q] quiet_errno]
      by (intro fault) (auto simp: tree_call_def nf split: prod.splits)
  next
    case None
    show ?thesis
    proof (cases "f (vfs w)")
      case (Inl e)
      then show ?thesis using assms quiet_trans [OF conjunct1 [OF q] quiet_errno]
        by (intro refused [of e]) (auto simp: tree_call_def nf None v1)
    next
      case (Inr v)
      have "tree_only w (w1\<lparr>vfs := v\<rparr>)" using q by (simp add: quiet_def tree_only_def)
      then show ?thesis using assms Inr by (intro did) (auto simp: tree_call_def nf None v1)
    qed
  qed
qed

lemma tree_call_calm: "faults w = [] \<Longrightarrow> tree_call f w =
  (case f (vfs w) of Inl e \<Rightarrow> (False, w\<lparr>errno_val := e\<rparr>) | Inr v \<Rightarrow> (True, w\<lparr>vfs := v\<rparr>))"
  by (simp add: tree_call_def next_fault_def)

text \<open>
  \<open>removed p ok w w'\<close>: only entries at or under \<open>p\<close> went, the tree stayed well-formed, and after
  a success nothing is left at \<open>p\<close>.
\<close>

definition removed :: "fpath \<Rightarrow> bool \<Rightarrow> 'a fs_world_scheme \<Rightarrow> 'a fs_world_scheme \<Rightarrow> bool" where
  "removed p ok w w' \<longleftrightarrow> tree_only w w' \<and> pruned p (vfs w) (vfs w') \<and>
     (fs_wf (vfs w) \<longrightarrow> fs_wf (vfs w')) \<and> (ok \<longrightarrow> fs_ino (vfs w') p = None)"

lemma removed_quiet: "quiet w w' \<Longrightarrow> removed p False w w'"
  by (simp add: removed_def quiet_def)

lemma removed_then_quiet: "removed p ok u v \<Longrightarrow> quiet v w \<Longrightarrow> removed p ok u w"
  using tree_only_trans [of u v w] by (simp add: removed_def quiet_def)

lemma removed_after_quiet: "quiet u v \<Longrightarrow> removed p ok v w \<Longrightarrow> removed p ok u w"
  using tree_only_trans [of u v w] by (simp add: removed_def quiet_def)

lemma removed_fail: "removed p ok u v \<Longrightarrow> removed p False u v"
  by (simp add: removed_def)

lemma removed_trans: "removed p a u v \<Longrightarrow> removed p ok v w \<Longrightarrow> removed p ok u w"
  using tree_only_trans [of u v w] pruned_trans [of p "vfs u" "vfs v" "vfs w"] by (simp add: removed_def)

lemma removed_below: "removed q ok u v \<Longrightarrow> under p q \<Longrightarrow> removed p False u v"
  using pruned_mono [of q "vfs u" "vfs v" p] by (simp add: removed_def)

lemma fs_unlink_Inr:
  assumes "fs_unlink p v = Inr v'"
  shows "v' = fs_drop p v" and "\<not> is_dir v p"
  using assms by (auto simp: fs_unlink_def fs_lookup_def is_dir_def fs_get_def split: sum.splits option.splits if_splits)

lemma fs_rmdir_Inr:
  assumes "fs_rmdir p v = Inr v'"
  shows "v' = fs_drop p v" and "fs_children v p = []"
  using assms by (auto simp: fs_rmdir_def split: sum.splits if_splits)

lemma unlink_removed: "c_unlink p w = (ok, w') \<Longrightarrow> removed (comps p) ok w w'"
  unfolding c_unlink_def
proof (erule tree_call_cases)
  assume "ok" "fs_unlink (comps p) (vfs w) = Inr (vfs w')" "tree_only w w'"
  with fs_unlink_Inr [OF this(2)] fs_wf_drop [OF _ fs_wf_leaf_children] show ?thesis
    by (simp add: removed_def pruned_drop fs_ino_drop)
qed (auto intro: removed_quiet)

lemma rmdir_removed: "c_rmdir p w = (ok, w') \<Longrightarrow> removed (comps p) ok w w'"
  unfolding c_rmdir_def
proof (erule tree_call_cases)
  assume "ok" "fs_rmdir (comps p) (vfs w) = Inr (vfs w')" "tree_only w w'"
  with fs_rmdir_Inr [OF this(2)] fs_wf_drop show ?thesis
    by (simp add: removed_def pruned_drop fs_ino_drop)
qed (auto intro: removed_quiet)

section \<open>Deleting\<close>

lemma remove_scoped:
  "remove_path_recursive path w = (ok, w') \<Longrightarrow> removed (comps path) ok w w'"
  "remove_entries path names w = (ok, w') \<Longrightarrow> removed (comps path) False w w'"
proof (induction path w and path names w arbitrary: ok w' and ok w'
    rule: remove_path_recursive_remove_entries.induct)
  case (1 path w)
  obtain st w1 where l: "c_lstat path w = (st, w1)" by (metis surj_pair)
  have q1: "quiet w w1" by (rule lstat_spec(1) [OF l])
  note run = "1.prems" [unfolded remove_path_recursive.simps [of path w] l]
  show ?case
  proof (cases st)
    case None
    then show ?thesis using run quiet_then_err(2) [OF q1] by (auto intro: removed_quiet)
  next
    case (Some s)
    show ?thesis
    proof (cases "i_kind s = Dir")
      case False
      obtain b w2 where u: "c_unlink path w1 = (b, w2)" by (metis surj_pair)
      have "removed (comps path) b w w2" by (rule removed_after_quiet [OF q1 unlink_removed [OF u]])
      then show ?thesis using run Some False u by (cases b) (auto intro: removed_then_quiet)
    next
      case True
      obtain ns w2 where op: "c_opendir path w1 = (ns, w2)" by (metis surj_pair)
      have q2: "quiet w w2" using q1 opendir_spec(1) [OF op] by (rule quiet_trans)
      show ?thesis
      proof (cases ns)
        case None
        then show ?thesis using run Some True op quiet_then_err(2) [OF q2] by (auto intro: removed_quiet)
      next
        case ns: (Some names)
        obtain b w3 where re: "remove_entries path names w2 = (b, w3)" by (metis surj_pair)
        have r3: "removed (comps path) False w w3"
          by (rule removed_after_quiet [OF q2 "1.IH" [OF l [symmetric] Some True op [symmetric] ns re]])
        show ?thesis
        proof (cases b)
          case False
          then show ?thesis using run Some True op ns re r3 by auto
        next
          case b: True
          obtain c w4 where rd: "c_rmdir path w3 = (c, w4)" by (metis surj_pair)
          have "removed (comps path) c w w4" by (rule removed_trans [OF r3 rmdir_removed [OF rd]])
          then show ?thesis using run Some True op ns re b rd by (cases c) (auto intro: removed_then_quiet)
        qed
      qed
    qed
  qed
next
  case (2 path w)
  obtain b w1 where "plain_call w = (b, w1)" by (metis surj_pair)
  then show ?case using 2 plain_call_quiet [of w b w1] by (auto intro: removed_quiet)
next
  case (3 path name names w)
  obtain b w1 where pc: "plain_call w = (b, w1)" by (metis surj_pair)
  have q1: "quiet w w1" using plain_call_quiet [OF pc] by blast
  note run = "3.prems" [unfolded remove_entries.simps(2) [of path name names w] pc]
  let ?full = "path @ ''/'' @ name"
  consider "\<not> b" | "b" "name = ''.'' \<or> name = ''..''" | "b" "\<not> (name = ''.'' \<or> name = ''..'')" "4096 \<le> length ?full"
    | "b" "\<not> (name = ''.'' \<or> name = ''..'')" "\<not> 4096 \<le> length ?full" by blast
  then show ?case
  proof cases
    case 1
    then show ?thesis using run q1 by (auto intro: removed_quiet)
  next
    case 2
    have b: "b = True" using 2(1) by simp
    have rec: "remove_entries path names w1 = (ok, w')" using run 2 by auto
    from "3.IH"(1) [OF pc [symmetric] b 2(2) rec] show ?thesis by (rule removed_after_quiet [OF q1])
  next
    case 3
    then show ?thesis using run quiet_then_err(1) [OF q1] by (auto intro: removed_quiet)
  next
    case 4
    have b: "b = True" using 4(1) by simp
    have fits: "snprintf_buf 4096 ?full = ?full" using 4(3) by (intro snprintf_fits) simp
    obtain c w2 where rp: "remove_path_recursive (snprintf_buf 4096 ?full) w1 = (c, w2)" by (metis surj_pair)
    have "under (comps path) (comps ?full)" by (simp add: comps_append_slash under_iff)
    with "3.IH"(2) [OF pc [symmetric] b 4(2) refl 4(3) rp] have r2: "removed (comps path) False w w2"
      unfolding fits by (rule removed_after_quiet [OF q1 removed_below])
    show ?thesis
    proof (cases c)
      case False
      then show ?thesis using run 4 rp r2 by auto
    next
      case True
      then have c: "c = True" by simp
      have rec: "remove_entries path names w2 = (ok, w')" using run 4 rp True by (auto simp: Let_def)
      from "3.IH"(3) [OF pc [symmetric] b 4(2) refl 4(3) rp [symmetric] c rec] show ?thesis
        by (rule removed_trans [OF r2])
    qed
  qed
qed

text \<open>Without failures a deletion gets to the end.\<close>

lemma children_distinct: "distinct (map fst ds) \<Longrightarrow>
  distinct (map (\<lambda>d. last (fst d)) (filter (\<lambda>d. fst d \<noteq> [] \<and> butlast (fst d) = p) ds))"
proof (induction ds)
  case Nil
  then show ?case by simp
next
  case (Cons d ds)
  have other: "last (fst d) \<noteq> last (fst e)" if "e \<in> set ds" "fst d \<noteq> []" "fst e \<noteq> []" "butlast (fst d) = butlast (fst e)" for e
  proof
    assume "last (fst d) = last (fst e)"
    with that(2-4) have "fst d = fst e" by (metis append_butlast_last_id)
    with that(1) Cons.prems show False by auto
  qed
  have "last (fst d) \<notin> set (map (\<lambda>d. last (fst d)) (filter (\<lambda>e. fst e \<noteq> [] \<and> butlast (fst e) = p) ds))"
    if dp: "fst d \<noteq> []" "butlast (fst d) = p"
  proof
    assume "last (fst d) \<in> set (map (\<lambda>d. last (fst d)) (filter (\<lambda>e. fst e \<noteq> [] \<and> butlast (fst e) = p) ds))"
    then obtain e where "e \<in> set ds" "fst e \<noteq> []" "butlast (fst e) = p" "last (fst d) = last (fst e)" by auto
    with other [of e] dp show False by simp
  qed
  with Cons show ?case by simp
qed

lemma opened_names:
  assumes "tree_ok v"
  shows "distinct (''.'' # ''..'' # fs_children v q)" "set (shown (''.'' # ''..'' # fs_children v q)) = set (fs_children v q)"
proof -
  have "n \<noteq> ''.'' \<and> n \<noteq> ''..''" if "n \<in> set (fs_children v q)" for n
    using fs_children_plain [OF assms that] by (simp add: plain_name_def)
  then show "distinct (''.'' # ''..'' # fs_children v q)" "set (shown (''.'' # ''..'' # fs_children v q)) = set (fs_children v q)"
    using children_distinct [OF tree_okD(2) [OF assms], of q] by (auto simp: shown_def fs_children_def)
qed

text \<open>Every path of the tree at or under \<open>q\<close> fits the path buffer.\<close>

definition fits_under :: "fpath \<Rightarrow> vfs \<Rightarrow> bool" where
  "fits_under q v \<longleftrightarrow> (\<forall>r. under q r \<longrightarrow> fs_get v r \<noteq> None \<longrightarrow> length (render r) < 4096)"

lemma fits_under_pruned: "fits_under q v \<Longrightarrow> pruned p v v' \<Longrightarrow> tree_ok v \<Longrightarrow> fits_under q v'"
proof -
  assume f: "fits_under q v" and p: "pruned p v v'" and ok: "tree_ok v"
  have "fs_get v r \<noteq> None" if "fs_get v' r \<noteq> None" for r
    using pruned_get(1) [OF p tree_okD(2) [OF ok], of r] that by auto
  with f show ?thesis unfolding fits_under_def by blast
qed

lemma removed_child:
  assumes "removed (q @ [n]) True u w" and "tree_ok (vfs u)"
  shows "tree_ok (vfs w)" and "fs_get (vfs w) q = fs_get (vfs u) q"
    and "set (fs_children (vfs w) q) = set (fs_children (vfs u) q) - {n}"
proof -
  have p: "pruned (q @ [n]) (vfs u) (vfs w)" "fs_wf (vfs w)" "fs_get (vfs w) (q @ [n]) = None"
    using assms tree_okD(1) by (auto simp: removed_def fs_get_def)
  show ok: "tree_ok (vfs w)" by (rule pruned_tree_ok [OF assms(2) p(1) _ p(2)]) simp
  note get = pruned_get [OF p(1) tree_okD(2) [OF assms(2)]]
  show "fs_get (vfs w) q = fs_get (vfs u) q" by (rule get(2)) (simp add: under_iff)
  have "fs_get (vfs w) (q @ [m]) \<noteq> None \<longleftrightarrow> m \<noteq> n \<and> fs_get (vfs u) (q @ [m]) \<noteq> None" for m
    using get(2) [of "q @ [m]"] p(3) by (cases "m = n") (auto simp: under_iff)
  then show "set (fs_children (vfs w) q) = set (fs_children (vfs u) q) - {n}"
    unfolding set_eq_iff fs_children_get [OF ok] fs_children_get [OF assms(2)]
    by (simp add: fs_children_get [OF assms(2)] conj_commute)
qed

lemma remove_calm:
  "remove_path_recursive path w = (ok, w') \<Longrightarrow> faults w = [] \<Longrightarrow> tree_ok (vfs w) \<Longrightarrow> path = render q \<Longrightarrow> q \<noteq> [] \<Longrightarrow>
   fs_get (vfs w) q \<noteq> None \<Longrightarrow> fits_under q (vfs w) \<Longrightarrow> ok"
  "remove_entries path names w = (ok, w') \<Longrightarrow> faults w = [] \<Longrightarrow> tree_ok (vfs w) \<Longrightarrow> path = render q \<Longrightarrow> q \<noteq> [] \<Longrightarrow>
   fits_under q (vfs w) \<Longrightarrow> distinct names \<Longrightarrow> set (shown names) = set (fs_children (vfs w) q) \<Longrightarrow>
   ok \<and> tree_ok (vfs w') \<and> fs_children (vfs w') q = [] \<and> fs_get (vfs w') q = fs_get (vfs w) q"
proof (induction path w and path names w arbitrary: q ok w' and q ok w'
    rule: remove_path_recursive_remove_entries.induct)
  case (1 path w)
  have wf: "fs_wf (vfs w)" by (rule tree_okD(1) [OF "1.prems"(3)])
  obtain i where i: "fs_get (vfs w) q = Some i" "fs_ino (vfs w) q \<noteq> None" using "1.prems"(6) by (auto simp: fs_get_def)
  then have "list_all plain_name q" using tree_okD(3) [OF "1.prems"(3)] fs_ino_mem by blast
  then have cq: "comps path = q" using "1.prems"(4) by (simp add: comps_render)
  obtain st w1 where l: "c_lstat path w = (st, w1)" by (metis surj_pair)
  note L = lstat_spec [OF l, unfolded cq node_at_get [OF wf]]
  have st: "st = Some i" using L(3) [OF "1.prems"(2)] i by simp
  have w1: "faults w1 = []" "vfs w1 = vfs w" using quiet_keeps(14) [OF L(1)] quiet_vfs [OF L(1)] "1.prems"(2) by simp_all
  note run = "1.prems"(1) [unfolded remove_path_recursive.simps [of path w] l st]
  show ?case
  proof (cases "i_kind i = Dir")
    case False
    then have "\<not> is_dir (vfs w) q" using i by (simp add: is_dir_get)
    then have "\<exists>v. fs_unlink q (vfs w1) = Inr v"
      using fs_wf_walk [OF wf] i by (auto simp: fs_unlink_def fs_lookup_def w1 is_dir_get fs_get_def)
    then have "fst (c_unlink path w1)" by (auto simp: c_unlink_def cq tree_call_calm [OF w1(1)])
    then show ?thesis using run False by (auto split: prod.splits bool.splits)
  next
    case True
    obtain ns w2 where op: "c_opendir path w1 = (ns, w2)" by (metis surj_pair)
    note O = opendir_spec [OF op, unfolded cq w1(2) node_at_get [OF wf]]
    obtain names where ns: "ns = Some names" using O(3) [OF w1(1) i(1) True] by blast
    then have names: "names = ''.'' # ''..'' # fs_children (vfs w) q" using O(2) by blast
    have w2: "faults w2 = []" "vfs w2 = vfs w"
      using quiet_keeps(14) [OF O(1)] quiet_vfs [OF O(1)] w1 by simp_all
    obtain b w3 where re: "remove_entries path names w2 = (b, w3)" by (metis surj_pair)
    have E: "b \<and> tree_ok (vfs w3) \<and> fs_children (vfs w3) q = [] \<and> fs_get (vfs w3) q = fs_get (vfs w2) q"
      by (rule "1.IH" [OF l [symmetric] st True op [symmetric] ns re])
        (use "1.prems" w2 opened_names [OF "1.prems"(3)] names in auto)
    have f3: "faults w3 = []" using remove_scoped(2) [OF re] w2(1) tree_only_keeps(14) by (auto simp: removed_def)
    have wf3: "fs_wf (vfs w3)" and g3: "fs_get (vfs w3) q = Some i" using E tree_okD(1) i w2 by auto
    have "\<exists>v. fs_rmdir q (vfs w3) = Inr v"
      using fs_wf_walk [OF wf3] g3 True E "1.prems"(5) by (auto simp: fs_rmdir_def fs_lookup_def fs_get_def)
    then have "fst (c_rmdir path w3)" by (auto simp: c_rmdir_def cq tree_call_calm [OF f3])
    then show ?thesis using run True op ns re E by (auto split: prod.splits bool.splits)
  qed
next
  case (2 path w)
  have "plain_call w = (True, w)" using "2.prems"(2) by (simp add: plain_call_def next_fault_def)
  then show ?case using "2.prems" by (simp add: shown_def)
next
  case (3 path name names w)
  have pc: "plain_call w = (True, w)" using "3.prems"(2) by (simp add: plain_call_def next_fault_def)
  note run = "3.prems"(1) [unfolded remove_entries.simps(2) [of path name names w] pc]
  let ?full = "path @ ''/'' @ name"
  show ?case
  proof (cases "name = ''.'' \<or> name = ''..''")
    case True
    have rec: "remove_entries path names w = (ok, w')" using run True by auto
    have sh: "shown (name # names) = shown names" using True by (auto simp: shown_def)
    show ?thesis
      by (rule "3.IH"(1) [OF pc [symmetric] refl True rec "3.prems"(2-6)])
        (use "3.prems"(7,8) sh in simp_all)
  next
    case False
    have mem: "name \<in> set (fs_children (vfs w) q)" using "3.prems"(8) False by (auto simp: shown_def)
    have full: "?full = render (q @ [name])" using "3.prems"(4,5) by (simp add: render_snoc)
    have there: "fs_get (vfs w) (q @ [name]) \<noteq> None" using mem fs_children_get [OF "3.prems"(3)] by blast
    have len: "length ?full < 4096"
      using "3.prems"(6) there unfolding full fits_under_def by (simp add: under_iff)
    have fits: "snprintf_buf 4096 ?full = ?full" using len by (rule snprintf_fits)
    have nle: "\<not> 4096 \<le> length ?full" using len by linarith
    obtain c w2 where rp: "remove_path_recursive (snprintf_buf 4096 ?full) w = (c, w2)" by (metis surj_pair)
    have fu: "fits_under (q @ [name]) (vfs w)"
      using "3.prems"(6) by (auto simp: fits_under_def under_iff)
    have c: "c"
      by (rule "3.IH"(2) [OF pc [symmetric] refl False refl nle rp "3.prems"(2,3) trans [OF fits full] _ there fu]) simp
    then have ct: "c = True" by simp
    have "comps ?full = q @ [name]"
      unfolding full using tree_okD(3) [OF "3.prems"(3)] fs_ino_mem there comps_render by (fastforce simp: fs_get_def)
    then have r2: "removed (q @ [name]) True w w2"
      using remove_scoped(1) [OF rp [unfolded ct fits]] by simp
    note C = removed_child [OF r2 "3.prems"(3)]
    have f2: "faults w2 = []" using r2 "3.prems"(2) tree_only_keeps(14) by (auto simp: removed_def)
    have rec: "remove_entries path names w2 = (ok, w')" using run False nle rp c by (auto simp: Let_def)
    have "ok \<and> tree_ok (vfs w') \<and> fs_children (vfs w') q = [] \<and> fs_get (vfs w') q = fs_get (vfs w2) q"
    proof (rule "3.IH"(3) [OF pc [symmetric] refl False refl nle rp [symmetric] ct rec f2 C(1) "3.prems"(4,5)])
      show "fits_under q (vfs w2)"
        using fits_under_pruned [OF "3.prems"(6) _ "3.prems"(3), of "q @ [name]" "vfs w2"] r2 by (simp add: removed_def)
      show "distinct names" using "3.prems"(7) by simp
      show "set (shown names) = set (fs_children (vfs w2) q)"
        using C(3) "3.prems"(7,8) False by (auto simp: shown_def)
    qed
    then show ?thesis by (simp add: C(2))
  qed
qed

section \<open>The checks before a change\<close>

text \<open>The common head of the deletion and the creation of a directory.\<close>

definition checked_target :: "string \<Rightarrow> string option \<Rightarrow> 'a fs_world_scheme \<Rightarrow> string option \<times> 'a fs_world_scheme" where
  "checked_target rel desire w =
     (case build_path (Some rel) USB_RESPONDER_PATH_MAX_LEN w of
        (Inl _, w1) \<Rightarrow> (None, w1)
      | (Inr (path, storage), w1) \<Rightarrow>
          (case path_storage_matches_desire storage desire w1 of
             (False, w2) \<Rightarrow> (None, w2)
           | (True, w2) \<Rightarrow>
               (case ensure_storage_writeable storage w2 of
                  (False, w3) \<Rightarrow> (None, w3)
                | (True, w3) \<Rightarrow> (Some path, w3))))"

lemma delete_checked: "usb_responder_file_delete (Some rel) desire w =
  (case checked_target rel desire w of
     (None, w1) \<Rightarrow> (False, w1)
   | (Some path, w1) \<Rightarrow>
       if path_is_storage_root path then
         (False, usb_responder_set_last_error (Some ''refusing to delete storage root'') w1)
       else remove_path_recursive path w1)"
  by (auto simp: usb_responder_file_delete_def checked_target_def split: prod.splits sum.splits bool.splits)

lemma mkdir_checked: "usb_responder_dir_mkdir (Some rel) parents desire w =
  (case checked_target rel desire w of
     (None, w1) \<Rightarrow> (False, w1)
   | (Some path, w1) \<Rightarrow>
       if \<not> parents then
         (case c_mkdir path 0x1ED w1 of
            (False, w2) \<Rightarrow> (False, set_file_error ''mkdir'' path w2)
          | (True, w2) \<Rightarrow> (True, w2))
       else mkdir_parents (drop 1 path) ''/'' w1)"
  by (auto simp: usb_responder_dir_mkdir_def checked_target_def split: prod.splits sum.splits bool.splits)

text \<open>The desired storage, if one is named, is the one the path lies on.\<close>

definition desired_ok :: "storage \<Rightarrow> string option \<Rightarrow> bool" where
  "desired_ok st desire \<longleftrightarrow> (case desire of None \<Rightarrow> True | Some d \<Rightarrow> c_str d = [] \<or> usb_responder_storage_from_name (Some d) = Some st)"

lemma matches_desired: "path_storage_matches_desire st d w = (ok, w') \<Longrightarrow> ok \<longleftrightarrow> desired_ok st d"
  by (auto simp: path_storage_matches_desire_def desired_ok_def split: option.splits if_splits)

definition may_write :: "string \<Rightarrow> string option \<Rightarrow> 'a fs_world_scheme \<Rightarrow> bool" where
  "may_write rel desire w \<longleftrightarrow> accepted_path rel \<and> desired_ok (storage_of (comps (c_str rel))) desire \<and>
     (storage_of (comps (c_str rel)) = STORAGE_SD \<longrightarrow> sd_present w)"

lemma checked_target_spec:
  assumes run: "checked_target rel desire w = (t, w')"
  defines "p \<equiv> comps (c_str rel)"
  shows "quiet w w'"
    and "t = Some path \<Longrightarrow> may_write rel desire w \<and> path = render p \<and> comps path = p \<and> list_all plain_name p"
    and "faults w = [] \<Longrightarrow> may_write rel desire w \<Longrightarrow> t = Some (render p) \<and> w' = w"
proof -
  have "quiet w w' \<and>
    (t = Some path \<longrightarrow> may_write rel desire w \<and> path = render p \<and> comps path = p \<and> list_all plain_name p) \<and>
    (faults w = [] \<longrightarrow> may_write rel desire w \<longrightarrow> t = Some (render p) \<and> w' = w)"
  proof (cases rule: build_path_request [of rel w])
    case (bad out w1)
    then show ?thesis using run quiet_err_only [OF bad(3)] by (simp add: checked_target_def may_write_def)
  next
    case ok
    let ?st = "storage_of p"
    obtain m w2 where md: "path_storage_matches_desire ?st desire w = (m, w2)" by (metis surj_pair)
    have M: "quiet w w2" "m \<Longrightarrow> w2 = w" "m \<longleftrightarrow> desired_ok ?st desire"
      using path_storage_matches_desire_quiet [OF md] matches_desired [OF md] quiet_err_only by blast+
    show ?thesis
    proof (cases m)
      case False
      then have "t = None" "w' = w2" using run ok(2) md by (simp_all add: checked_target_def p_def)
      then show ?thesis using M False by (simp add: may_write_def p_def)
    next
      case True
      obtain e w3 where es: "ensure_storage_writeable ?st w = (e, w3)" by (metis surj_pair)
      note E = ensure_storage_quiet [OF es]
      have "(t, w') = (if e then Some (render p) else None, w3)"
        using run ok(2) md True M(2) es by (cases e) (simp_all add: checked_target_def p_def)
      then show ?thesis using M True E ok by (auto simp: may_write_def p_def)
    qed
  qed
  then show "quiet w w'"
    "t = Some path \<Longrightarrow> may_write rel desire w \<and> path = render p \<and> comps path = p \<and> list_all plain_name p"
    "faults w = [] \<Longrightarrow> may_write rel desire w \<Longrightarrow> t = Some (render p) \<and> w' = w" by blast+
qed

text \<open>The two roots no operation removes or renames.\<close>

definition storage_roots :: "fpath set" where
  "storage_roots = {[], [''sd'']}"

lemma root_path: "list_all plain_name p \<Longrightarrow> path_is_storage_root (render p) \<longleftrightarrow> p \<in> storage_roots"
proof -
  assume p: "list_all plain_name p"
  have "nul_free (render p)" using p by (auto simp: render_def nul_free_def plain_name_def list_all_iff)
  then have "path_is_storage_root (render p) \<longleftrightarrow> render p = render [] \<or> render p = render [''sd'']"
    by (simp add: path_is_storage_root_def strcmp_eq_def render_def)
  also have "\<dots> \<longleftrightarrow> p = [] \<or> p = [''sd'']"
    using render_inj [OF p, of "[]"] render_inj [OF p, of "[''sd'']"] by (auto simp: plain_name_def)
  finally show ?thesis by (simp add: storage_roots_def)
qed

lemma delete_effect:
  assumes ok: "tree_ok (vfs w)" and run: "usb_responder_file_delete (Some rel) desire w = (r, w')"
  defines "p \<equiv> comps (c_str rel)"
  shows "tree_only w w'" and "tree_ok (vfs w')" and "pruned p (vfs w) (vfs w')"
    and "r \<Longrightarrow> fs_get (vfs w') p = None"
    and "\<not> (may_write rel desire w \<and> p \<notin> storage_roots) \<Longrightarrow> \<not> r \<and> vfs w' = vfs w"
    and "may_write rel desire w \<Longrightarrow> p \<notin> storage_roots \<Longrightarrow> faults w = [] \<Longrightarrow> fs_get (vfs w) p \<noteq> None \<Longrightarrow>
      fits_under p (vfs w) \<Longrightarrow> r"
proof -
  obtain t w1 where ch: "checked_target rel desire w = (t, w1)" by (metis surj_pair)
  note C = checked_target_spec [OF ch, folded p_def]
  have "removed p r w w' \<and> (\<not> (may_write rel desire w \<and> p \<notin> storage_roots) \<longrightarrow> \<not> r \<and> vfs w' = vfs w) \<and>
    (may_write rel desire w \<longrightarrow> p \<notin> storage_roots \<longrightarrow> faults w = [] \<longrightarrow> fs_get (vfs w) p \<noteq> None \<longrightarrow>
      fits_under p (vfs w) \<longrightarrow> r)"
  proof (cases t)
    case None
    then have "r = False" "w' = w1" using run ch by (simp_all add: delete_checked)
    then show ?thesis using C None by (auto intro: removed_quiet simp: quiet_vfs)
  next
    case (Some path)
    then have path: "may_write rel desire w" "path = render p" "comps path = p" "list_all plain_name p"
      using C(2) by blast+
    show ?thesis
    proof (cases "p \<in> storage_roots")
      case True
      then have "r = False" "quiet w w'"
        using run ch Some path root_path quiet_then_err(1) [OF C(1)] by (auto simp: delete_checked)
      then show ?thesis using True by (auto intro: removed_quiet simp: quiet_vfs)
    next
      case False
      then have rp: "remove_path_recursive path w1 = (r, w')"
        using run ch Some path root_path by (simp add: delete_checked)
      have "removed p r w w'" using removed_after_quiet [OF C(1) remove_scoped(1) [OF rp]] path(3) by simp
      moreover have "r" if "faults w = []" "fs_get (vfs w) p \<noteq> None" "fits_under p (vfs w)"
      proof -
        have "w1 = w" using C(3) that(1) path(1) by blast
        then show ?thesis
          using remove_calm(1) [OF rp _ _ path(2)] that ok False by (auto simp: storage_roots_def)
      qed
      ultimately show ?thesis using False path(1) by blast
    qed
  qed
  note E = this
  then show "tree_only w w'" "pruned p (vfs w) (vfs w')" "r \<Longrightarrow> fs_get (vfs w') p = None"
    by (simp_all add: removed_def fs_get_def)
  show "tree_ok (vfs w')"
  proof (cases "p = []")
    case True
    then have "vfs w' = vfs w" using E by (simp add: storage_roots_def)
    then show ?thesis using ok by simp
  next
    case False
    then show ?thesis using E tree_okD(1) [OF ok] pruned_tree_ok [OF ok _ False] by (auto simp: removed_def)
  qed
  show "\<not> (may_write rel desire w \<and> p \<notin> storage_roots) \<Longrightarrow> \<not> r \<and> vfs w' = vfs w"
    "may_write rel desire w \<Longrightarrow> p \<notin> storage_roots \<Longrightarrow> faults w = [] \<Longrightarrow> fs_get (vfs w) p \<noteq> None \<Longrightarrow>
      fits_under p (vfs w) \<Longrightarrow> r" using E by blast+
qed

section \<open>Creating directories\<close>

text \<open>The loop by names: \<open>cs\<close> has been walked, \<open>rest\<close> is still to come.\<close>

definition tail_of :: "fpath \<Rightarrow> string" where
  "tail_of cs = drop 1 (concat (map (\<lambda>c. CHR ''/'' # c) cs))"

fun mkdirs :: "fpath \<Rightarrow> fpath \<Rightarrow> 'a fs_world_scheme \<Rightarrow> bool \<times> 'a fs_world_scheme" where
  "mkdirs cs [] w = (True, w)"
| "mkdirs cs (c # rest) w =
     (let full = render (cs @ [c])
      in if 4096 \<le> length full then (False, usb_responder_set_last_error (Some ''path too long'') w)
         else
           (case c_mkdir full 0x1ED w of
              (True, w1) \<Rightarrow> mkdirs (cs @ [c]) rest w1
            | (False, w1) \<Rightarrow>
                if errno_val w1 \<noteq> EEXIST then (False, set_file_error ''mkdir'' full w1)
                else
                  (case c_stat full w1 of
                     (None, w2) \<Rightarrow> (False, set_file_error ''stat'' full w2)
                   | (Some st, w2) \<Rightarrow>
                       if i_kind st \<noteq> Dir then
                         (False, usb_responder_set_last_error (Some ''path exists and is not a directory'') w2)
                       else mkdirs (cs @ [c]) rest w2)))"

lemma render_nul_free: "list_all plain_name cs \<Longrightarrow> nul_free (render cs)"
  by (auto simp: render_def nul_free_def plain_name_def list_all_iff)

lemma render_sep: "list_all plain_name cs \<Longrightarrow>
  render cs @ (if strcmp_eq (render cs) ''/'' then [] else ''/'') @ c = render (cs @ [c])"
proof -
  assume cs: "list_all plain_name cs"
  have "render cs = ''/'' \<longleftrightarrow> cs = []"
  proof
    assume "render cs = ''/''"
    then have "render cs = render []" by (simp add: render_def)
    then show "cs = []" by (rule render_inj [OF cs, rotated]) simp
  qed (simp add: render_def)
  then have "strcmp_eq (render cs) ''/'' \<longleftrightarrow> cs = []" using render_nul_free [OF cs] by (simp add: strcmp_eq_def)
  then show ?thesis by (simp add: render_def)
qed

lemma mkdir_parents_names:
  "list_all plain_name cs \<Longrightarrow> list_all plain_name rest \<Longrightarrow> mkdir_parents (tail_of rest) (render cs) w = mkdirs cs rest w"
proof (induction rest arbitrary: cs w)
  case Nil
  then show ?case by (subst mkdir_parents.simps) (simp add: tail_of_def)
next
  case (Cons c rest)
  have c: "c \<noteq> []" "CHR ''/'' \<notin> set c" using Cons.prems(2) by (auto simp: plain_name_def)
  have tl: "tail_of (c # rest) = c @ concat (map (\<lambda>c. CHR ''/'' # c) rest)" by (simp add: tail_of_def)
  have "hd c \<noteq> CHR ''/''" using c by (metis hd_in_set)
  then have d: "dropWhile (\<lambda>c. c = CHR ''/'') (tail_of (c # rest)) = tail_of (c # rest)"
    using c(1) unfolding tl by (cases c) simp_all
  have ne: "tail_of (c # rest) \<noteq> []" using c(1) by (simp add: tl)
  have "takeWhile (\<lambda>c. c \<noteq> CHR ''/'') (concat (map (\<lambda>c. CHR ''/'' # c) rest)) = []" by (cases rest) simp_all
  moreover have "takeWhile (\<lambda>c. c \<noteq> CHR ''/'') (c @ t) = c @ takeWhile (\<lambda>c. c \<noteq> CHR ''/'') t" for t
    by (rule takeWhile_append2) (use c(2) in blast)
  ultimately have sg: "takeWhile (\<lambda>c. c \<noteq> CHR ''/'') (tail_of (c # rest)) = c" unfolding tl by simp
  have nx: "drop (length c + 1) (tail_of (c # rest)) = tail_of rest" by (simp add: tl tail_of_def)
  have IH: "mkdir_parents (tail_of rest) (render (cs @ [c])) v = mkdirs (cs @ [c]) rest v"
    for v :: "'a fs_world_scheme"
    using Cons.IH [of "cs @ [c]" v] Cons.prems by simp
  show ?case
    by (subst mkdir_parents.simps)
      (simp only: Let_def d ne if_False sg nx render_sep [OF Cons.prems(1)] IH mkdirs.simps)
qed

text \<open>What the creation of directories may add: directories at the paths of \<open>P\<close>.\<close>

definition new_dir :: "'a fs_world_scheme \<Rightarrow> inode" where
  "new_dir w = \<lparr>i_kind = Dir, i_data = [], i_mode = 0x1ED AND NOT (umask w),
     i_uid = self_uid (vfs w), i_gid = self_gid (vfs w)\<rparr>"

definition dirs_added :: "fpath set \<Rightarrow> 'a fs_world_scheme \<Rightarrow> 'a fs_world_scheme \<Rightarrow> bool" where
  "dirs_added P w w' \<longleftrightarrow> tree_only w w' \<and> tree_ok (vfs w') \<and> new_dir w' = new_dir w \<and>
     (\<forall>q. fs_get (vfs w') q = fs_get (vfs w) q \<or>
        q \<in> P \<and> fs_get (vfs w) q = None \<and> fs_get (vfs w') q = Some (new_dir w))"

lemma dirs_added_quiet: "tree_ok (vfs w) \<Longrightarrow> quiet w w' \<Longrightarrow> dirs_added P w w'"
  using tree_only_keeps(3) [of w w'] by (simp add: dirs_added_def quiet_def new_dir_def)

lemma dirs_added_trans:
  assumes "dirs_added P u v" and "dirs_added P v w"
  shows "dirs_added P u w"
  using assms tree_only_trans [of u v w] unfolding dirs_added_def by metis

lemma dirs_added_mono: "dirs_added P u v \<Longrightarrow> P \<subseteq> Q \<Longrightarrow> dirs_added Q u v"
  unfolding dirs_added_def by blast

lemma dirs_added_dir: "dirs_added P u v \<Longrightarrow> is_dir (vfs u) q \<Longrightarrow> is_dir (vfs v) q"
  unfolding dirs_added_def is_dir_get by (metis option.distinct(1))

lemma mkdir_added:
  assumes run: "c_mkdir path 0x1ED w = (ok, w')" and tok: "tree_ok (vfs w)"
    and p: "comps path = p" "list_all plain_name p"
  shows "dirs_added {p} w w'" and "ok \<Longrightarrow> is_dir (vfs w') p \<and> fs_get (vfs w) p = None"
    and "\<not> ok \<Longrightarrow> quiet w w'"
    and "faults w = [] \<Longrightarrow> ok \<longleftrightarrow> walk_err (vfs w) p = None \<and> fs_get (vfs w) p = None"
    and "faults w = [] \<Longrightarrow> walk_err (vfs w) p = None \<Longrightarrow> fs_get (vfs w) p \<noteq> None \<Longrightarrow> errno_val w' = EEXIST"
proof -
  let ?m = "0x1ED AND NOT (umask w)"
  have call: "tree_call (fs_mkdir p ?m) w = (ok, w')" using run p(1) by (simp add: c_mkdir_def)
  have none: "fs_get (vfs w) p = None \<longleftrightarrow> fs_ino (vfs w) p = None" by (simp add: fs_get_def)
  have main: "dirs_added {p} w w' \<and> (ok \<longrightarrow> is_dir (vfs w') p \<and> fs_get (vfs w) p = None) \<and> (\<not> ok \<longrightarrow> quiet w w')"
    using call
  proof (cases rule: tree_call_cases)
    case did
    note M = fs_mkdir_Inr [OF did(2)]
    have ne: "p \<noteq> []" using tree_okD(4) [OF tok] M(2) none by (auto simp: is_dir_get)
    have ok': "tree_ok (vfs w')"
      unfolding M(1) by (rule tree_ok_new [OF tok ne walk_parent [OF M(3) ne] M(2) p(2)])
    have get: "fs_get (vfs w') q = (if q = p then Some (new_dir w) else fs_get (vfs w) q)" for q
      unfolding M(1) new_dir_def by (rule fs_get_new [OF tree_okD(1) [OF tok] M(2)])
    have "new_dir w' = new_dir w"
      using tree_only_keeps(3) [OF did(3)] by (simp add: new_dir_def M(1)) (simp add: fs_new_def)
    then show ?thesis using did ok' get none M(2) by (auto simp: dirs_added_def is_dir_get) (simp add: new_dir_def)
  next
    case fault
    then show ?thesis using dirs_added_quiet [OF tok] by simp
  next
    case (refused e)
    then show ?thesis using dirs_added_quiet [OF tok] by simp
  qed
  then show "dirs_added {p} w w'" "ok \<Longrightarrow> is_dir (vfs w') p \<and> fs_get (vfs w) p = None" "\<not> ok \<Longrightarrow> quiet w w'" by blast+
  show "faults w = [] \<Longrightarrow> ok \<longleftrightarrow> walk_err (vfs w) p = None \<and> fs_get (vfs w) p = None"
    using call none by (auto simp: tree_call_calm fs_mkdir_def split: option.splits if_splits)
  show "faults w = [] \<Longrightarrow> walk_err (vfs w) p = None \<Longrightarrow> fs_get (vfs w) p \<noteq> None \<Longrightarrow> errno_val w' = EEXIST"
    using call none by (auto simp: tree_call_calm fs_mkdir_def split: option.splits if_splits)
qed

text \<open>The paths the loop may create, and the outcome of the loop.\<close>

definition prefixes_from :: "fpath \<Rightarrow> fpath \<Rightarrow> fpath set" where
  "prefixes_from cs rest = {cs @ take k rest |k. 0 < k \<and> k \<le> length rest}"

lemma prefixes_from_Cons: "prefixes_from cs (c # rest) = insert (cs @ [c]) (prefixes_from (cs @ [c]) rest)"
proof -
  have "\<exists>k. cs @ take (Suc j) (c # rest) = (cs @ [c]) @ take k rest \<and> k = j" for j by simp
  have "q \<in> prefixes_from cs (c # rest) \<longleftrightarrow> q = cs @ [c] \<or> q \<in> prefixes_from (cs @ [c]) rest" for q
  proof
    assume "q \<in> prefixes_from cs (c # rest)"
    then obtain k where k: "0 < k" "k \<le> Suc (length rest)" "q = cs @ take k (c # rest)" by (auto simp: prefixes_from_def)
    then obtain j where j: "k = Suc j" by (cases k) auto
    then show "q = cs @ [c] \<or> q \<in> prefixes_from (cs @ [c]) rest"
      using k by (cases "j = 0") (auto simp: prefixes_from_def)
  next
    assume "q = cs @ [c] \<or> q \<in> prefixes_from (cs @ [c]) rest"
    then show "q \<in> prefixes_from cs (c # rest)"
    proof
      assume "q = cs @ [c]"
      then show ?thesis by (auto simp: prefixes_from_def intro: exI [of _ "Suc 0"])
    next
      assume "q \<in> prefixes_from (cs @ [c]) rest"
      then obtain k where "0 < k" "k \<le> length rest" "q = (cs @ [c]) @ take k rest" by (auto simp: prefixes_from_def)
      then show ?thesis by (auto simp: prefixes_from_def intro: exI [of _ "Suc k"])
    qed
  qed
  then show ?thesis by blast
qed

lemma mkdirs_effect:
  "mkdirs cs rest w = (ok, w') \<Longrightarrow> tree_ok (vfs w) \<Longrightarrow> list_all plain_name (cs @ rest) \<Longrightarrow>
   dirs_added (prefixes_from cs rest) w w' \<and> (ok \<longrightarrow> (\<forall>q\<in>prefixes_from cs rest. is_dir (vfs w') q))"
proof (induction rest arbitrary: cs w)
  case Nil
  then show ?case using dirs_added_quiet [of w w "{}"] by (simp add: prefixes_from_def)
next
  case (Cons c rest)
  let ?q = "cs @ [c]" and ?P = "prefixes_from cs (c # rest)"
  have pq: "list_all plain_name ?q" "list_all plain_name (?q @ rest)" using Cons.prems(3) by simp_all
  have cq: "comps (render ?q) = ?q" by (rule comps_render [OF pq(1)])
  show ?case
  proof (cases "4096 \<le> length (render ?q)")
    case True
    then have "ok = False" "quiet w w'" using Cons.prems(1) by auto
    then show ?thesis using dirs_added_quiet [OF Cons.prems(2)] by simp
  next
    case False
    obtain b w1 where mk: "c_mkdir (render ?q) 0x1ED w = (b, w1)" by (metis surj_pair)
    note M = mkdir_added [OF mk Cons.prems(2) cq pq(1)]
    \<comment> \<open>the rest of the loop, from a world where the directory is there\<close>
    have continue: "dirs_added ?P w w' \<and> (ok \<longrightarrow> (\<forall>q\<in>?P. is_dir (vfs w') q))"
      if add: "dirs_added {?q} w v" and dir: "is_dir (vfs v) ?q" and rec: "mkdirs ?q rest v = (ok, w')" for v
    proof -
      have "tree_ok (vfs v)" using add by (simp add: dirs_added_def)
      from Cons.IH [OF rec this pq(2)] have IH: "dirs_added (prefixes_from ?q rest) v w'"
        "ok \<longrightarrow> (\<forall>q\<in>prefixes_from ?q rest. is_dir (vfs w') q)" by blast+
      have "dirs_added ?P w v" by (rule dirs_added_mono [OF add]) (simp add: prefixes_from_Cons)
      moreover have "dirs_added ?P v w'" by (rule dirs_added_mono [OF IH(1)]) (auto simp: prefixes_from_Cons)
      ultimately have "dirs_added ?P w w'" by (rule dirs_added_trans)
      moreover have "is_dir (vfs w') ?q" by (rule dirs_added_dir [OF IH(1) dir])
      ultimately show ?thesis using IH(2) by (auto simp: prefixes_from_Cons)
    qed
    show ?thesis
    proof (cases b)
      case True
      then have "mkdirs ?q rest w1 = (ok, w')" using Cons.prems(1) False mk by simp
      with M(1,2) True show ?thesis using continue by blast
    next
      case nb: False
      have q1: "quiet w w1" using M(3) nb by blast
      show ?thesis
      proof (cases "errno_val w1 = EEXIST")
        case neq: False
        then have "ok = False" "quiet w w'"
          using Cons.prems(1) False mk nb quiet_then_err(2) [OF q1] by auto
        then show ?thesis using dirs_added_quiet [OF Cons.prems(2)] by simp
      next
        case True
        obtain st w2 where sq: "c_stat (render ?q) w1 = (st, w2)" by (metis surj_pair)
        note S = stat_spec [OF sq, unfolded cq]
        have q2: "quiet w w2" by (rule quiet_trans [OF q1 S(1)])
        show ?thesis
        proof (cases "\<exists>s. st = Some s \<and> i_kind s = Dir")
          case dir: True
          then obtain s where s: "st = Some s" "i_kind s = Dir" by blast
          have wf: "fs_wf (vfs w1)" using tree_okD(1) [OF Cons.prems(2)] quiet_vfs [OF q1] by simp
          have "is_dir (vfs w2) ?q"
            using S(2) [OF s(1)] s(2) quiet_vfs [OF S(1)] by (simp add: node_at_get [OF wf] is_dir_get)
          moreover have "mkdirs ?q rest w2 = (ok, w')" using Cons.prems(1) False mk nb True sq s by simp
          ultimately show ?thesis using continue [OF dirs_added_quiet [OF Cons.prems(2) q2]] by blast
        next
          case nd: False
          then have "ok = False" "quiet w w'"
            using Cons.prems(1) False mk nb True sq quiet_then_err [OF q2] by (auto split: option.splits)
          then show ?thesis using dirs_added_quiet [OF Cons.prems(2)] by simp
        qed
      qed
    qed
  qed
qed

lemma mkdirs_calm:
  "mkdirs cs rest w = (ok, w') \<Longrightarrow> tree_ok (vfs w) \<Longrightarrow> list_all plain_name (cs @ rest) \<Longrightarrow> faults w = [] \<Longrightarrow>
   is_dir (vfs w) cs \<Longrightarrow> length (render (cs @ rest)) < 4096 \<Longrightarrow>
   (\<forall>q\<in>prefixes_from cs rest. fs_get (vfs w) q = None \<or> is_dir (vfs w) q) \<Longrightarrow> ok"
proof (induction rest arbitrary: cs w)
  case Nil
  then show ?case by simp
next
  case (Cons c rest)
  let ?q = "cs @ [c]"
  have pq: "list_all plain_name ?q" "list_all plain_name (?q @ rest)" using Cons.prems(3) by simp_all
  have cq: "comps (render ?q) = ?q" by (rule comps_render [OF pq(1)])
  have len: "length (render (?q @ rest)) < 4096" using Cons.prems(6) by simp
  then have fits: "\<not> 4096 \<le> length (render ?q)" using length_render_mono [of ?q rest] by linarith
  have wf: "fs_wf (vfs w)" by (rule tree_okD(1) [OF Cons.prems(2)])
  have walk: "walk_err (vfs w) ?q = None" by (rule walk_root [OF wf Cons.prems(5)])
  obtain b w1 where mk: "c_mkdir (render ?q) 0x1ED w = (b, w1)" by (metis surj_pair)
  note M = mkdir_added [OF mk Cons.prems(2) cq pq(1)]
  have continue: "ok" if add: "dirs_added {?q} w v" and dir: "is_dir (vfs v) ?q" and rec: "mkdirs ?q rest v = (ok, w')" for v
  proof (rule Cons.IH [OF rec _ pq(2) _ dir len])
    show "tree_ok (vfs v)" "faults v = []" using add Cons.prems(4) tree_only_keeps(14) by (auto simp: dirs_added_def)
    show "\<forall>q\<in>prefixes_from ?q rest. fs_get (vfs v) q = None \<or> is_dir (vfs v) q"
    proof
      fix q assume "q \<in> prefixes_from ?q rest"
      then have "fs_get (vfs w) q = None \<or> is_dir (vfs w) q" using Cons.prems(7) by (simp add: prefixes_from_Cons)
      moreover have "fs_get (vfs v) q = fs_get (vfs w) q \<or> q = ?q" using add by (auto simp: dirs_added_def)
      ultimately show "fs_get (vfs v) q = None \<or> is_dir (vfs v) q"
        using dir dirs_added_dir [OF add] by auto
    qed
  qed
  have "fs_get (vfs w) ?q = None \<or> is_dir (vfs w) ?q" using Cons.prems(7) by (simp add: prefixes_from_Cons)
  then show ?case
  proof
    assume "fs_get (vfs w) ?q = None"
    then have b: "b" using M(4) [OF Cons.prems(4)] walk by simp
    then have "mkdirs ?q rest w1 = (ok, w')" using Cons.prems(1) fits mk by simp
    with M(1,2) b show ?thesis using continue by blast
  next
    assume dir: "is_dir (vfs w) ?q"
    then obtain s where s: "fs_get (vfs w) ?q = Some s" "i_kind s = Dir" by (auto simp: is_dir_get)
    then have nb: "\<not> b" "errno_val w1 = EEXIST" using M(4,5) [OF Cons.prems(4)] walk by simp_all
    have q1: "quiet w w1" using M(3) nb by blast
    obtain st w2 where sq: "c_stat (render ?q) w1 = (st, w2)" by (metis surj_pair)
    note S = stat_spec [OF sq, unfolded cq]
    have "node_at (vfs w1) ?q = Some s" "faults w1 = []"
      using s quiet_vfs [OF q1] quiet_keeps(14) [OF q1] Cons.prems(4) by (simp_all add: node_at_get [OF wf])
    then have st: "st = Some s" using S(3) s(2) by simp
    have q2: "quiet w w2" by (rule quiet_trans [OF q1 S(1)])
    have "mkdirs ?q rest w2 = (ok, w')" using Cons.prems(1) fits mk nb sq st s(2) by simp
    moreover have "is_dir (vfs w2) ?q" using dir quiet_vfs [OF q2] by simp
    ultimately show ?thesis using continue [OF dirs_added_quiet [OF Cons.prems(2) q2]] by blast
  qed
qed

lemma prefixes_from_root: "prefixes_from [] p = {take k p |k. 0 < k \<and> k \<le> length p}"
  by (simp add: prefixes_from_def)

lemma prefixes_self: "p \<noteq> [] \<Longrightarrow> p \<in> prefixes_from [] p"
  by (auto simp: prefixes_from_def intro!: exI [of _ "length p"])

definition mkdir_targets :: "bool \<Rightarrow> fpath \<Rightarrow> fpath set" where
  "mkdir_targets parents p = (if parents then prefixes_from [] p else {p})"

lemma mkdir_effect:
  assumes ok: "tree_ok (vfs w)" and run: "usb_responder_dir_mkdir (Some rel) parents desire w = (r, w')"
  defines "p \<equiv> comps (c_str rel)"
  shows "dirs_added (mkdir_targets parents p) w w'"
    and "r \<Longrightarrow> is_dir (vfs w') p \<and> (parents \<or> fs_get (vfs w) p = None)"
    and "\<not> may_write rel desire w \<Longrightarrow> \<not> r \<and> vfs w' = vfs w"
    and "may_write rel desire w \<Longrightarrow> faults w = [] \<Longrightarrow>
      (if parents then \<forall>q\<in>prefixes_from [] p. fs_get (vfs w) q = None \<or> is_dir (vfs w) q
       else p \<noteq> [] \<and> is_dir (vfs w) (butlast p) \<and> fs_get (vfs w) p = None) \<Longrightarrow> r"
proof -
  obtain t w1 where ch: "checked_target rel desire w = (t, w1)" by (metis surj_pair)
  note C = checked_target_spec [OF ch, folded p_def]
  have ok1: "tree_ok (vfs w1)" using ok quiet_vfs [OF C(1)] by simp
  have v1: "vfs w1 = vfs w" by (rule quiet_vfs [OF C(1)])
  have "dirs_added (mkdir_targets parents p) w w' \<and> (r \<longrightarrow> is_dir (vfs w') p \<and> (parents \<or> fs_get (vfs w) p = None)) \<and>
    (\<not> may_write rel desire w \<longrightarrow> \<not> r \<and> vfs w' = vfs w) \<and>
    (may_write rel desire w \<longrightarrow> faults w = [] \<longrightarrow>
      (if parents then \<forall>q\<in>prefixes_from [] p. fs_get (vfs w) q = None \<or> is_dir (vfs w) q
       else p \<noteq> [] \<and> is_dir (vfs w) (butlast p) \<and> fs_get (vfs w) p = None) \<longrightarrow> r)"
  proof (cases t)
    case None
    then have "r = False" "w' = w1" using run ch by (simp_all add: mkdir_checked)
    then show ?thesis using C None dirs_added_quiet [OF ok C(1)] v1 by auto
  next
    case (Some path)
    then have path: "may_write rel desire w" "path = render p" "comps path = p" "list_all plain_name p"
      using C(2) by blast+
    have start: "dirs_added P w w1" for P by (rule dirs_added_quiet [OF ok C(1)])
    show ?thesis
    proof (cases parents)
      case False
      obtain b w2 where mk: "c_mkdir path 0x1ED w1 = (b, w2)" by (metis surj_pair)
      note M = mkdir_added [OF mk ok1 path(3,4)]
      have rw: "(r, w') = (if b then (True, w2) else (False, set_file_error ''mkdir'' path w2))"
        using run ch Some False mk by (cases b) (simp_all add: mkdir_checked)
      have "dirs_added {p} w w2" by (rule dirs_added_trans [OF start M(1)])
      moreover have "dirs_added {p} w2 (set_file_error ''mkdir'' path w2)"
        using M(1) by (intro dirs_added_quiet) (simp_all add: dirs_added_def)
      ultimately have "dirs_added {p} w w'" using rw dirs_added_trans by (cases b) auto
      moreover have "r" if calm: "faults w = []" "p \<noteq> []" "is_dir (vfs w) (butlast p)" "fs_get (vfs w) p = None"
      proof -
        have w1: "w1 = w" using C(3) calm(1) path(1) by blast
        have "walk_err (vfs w) (butlast p @ [last p]) = None" by (rule walk_root [OF tree_okD(1) [OF ok] calm(3)])
        then have "b" using M(4) calm w1 by simp
        then show ?thesis using rw by simp
      qed
      ultimately show ?thesis using False path(1) rw M(2) v1 by (cases b) (auto simp: mkdir_targets_def)
    next
      case True
      have tl: "drop 1 path = tail_of p" by (simp add: path(2) render_def tail_of_def)
      have root: "''/'' = render []" by (simp add: render_def)
      have md: "mkdirs [] p w1 = (r, w')"
        using run ch Some True mkdir_parents_names [of "[]" p w1] path(4) unfolding mkdir_checked
        by (simp add: tl [unfolded One_nat_def] root)
      have pl: "list_all plain_name ([] @ p)" using path(4) by simp
      from mkdirs_effect [OF md ok1 pl] have E: "dirs_added (prefixes_from [] p) w1 w'"
        "r \<longrightarrow> (\<forall>q\<in>prefixes_from [] p. is_dir (vfs w') q)" by blast+
      have "is_dir (vfs w') []" using tree_okD(4) E(1) by (auto simp: dirs_added_def)
      then have "r \<longrightarrow> is_dir (vfs w') p" using E(2) prefixes_self [of p] by (cases "p = []") auto
      moreover have "r" if calm: "faults w = []" "\<forall>q\<in>prefixes_from [] p. fs_get (vfs w) q = None \<or> is_dir (vfs w) q"
      proof -
        have w1: "w1 = w" using C(3) calm(1) path(1) by blast
        have "length (render ([] @ p)) < 4096" using path(1) by (simp add: may_write_def accepted_path_def p_def)
        then show ?thesis
          using mkdirs_calm [OF md ok1 pl _ _ _ ] calm tree_okD(4) [OF ok] by (simp add: w1)
      qed
      ultimately show ?thesis
        using True path(1) dirs_added_trans [OF start E(1)] by (simp add: mkdir_targets_def)
    qed
  qed
  note E = this
  show "dirs_added (mkdir_targets parents p) w w'" by (rule E [THEN conjunct1])
  show "r \<Longrightarrow> is_dir (vfs w') p \<and> (parents \<or> fs_get (vfs w) p = None)"
    by (rule E [THEN conjunct2, THEN conjunct1, THEN mp])
  show "\<not> may_write rel desire w \<Longrightarrow> \<not> r \<and> vfs w' = vfs w"
    by (rule E [THEN conjunct2, THEN conjunct2, THEN conjunct1, THEN mp])
  show "may_write rel desire w \<Longrightarrow> faults w = [] \<Longrightarrow>
      (if parents then \<forall>q\<in>prefixes_from [] p. fs_get (vfs w) q = None \<or> is_dir (vfs w) q
       else p \<noteq> [] \<and> is_dir (vfs w) (butlast p) \<and> fs_get (vfs w) p = None) \<Longrightarrow> r"
    by (rule E [THEN conjunct2, THEN conjunct2, THEN conjunct2, THEN mp, THEN mp, THEN mp])
qed

section \<open>Renaming\<close>

text \<open>The two paths a rename accepts.\<close>

definition may_rename :: "string \<Rightarrow> string \<Rightarrow> string option \<Rightarrow> 'a fs_world_scheme \<Rightarrow> bool" where
  "may_rename src dst desire w \<longleftrightarrow> may_write src desire w \<and> may_write dst desire w \<and>
     comps (c_str src) \<notin> storage_roots \<and> comps (c_str dst) \<notin> storage_roots \<and>
     storage_of (comps (c_str src)) = storage_of (comps (c_str dst))"

text \<open>A rename is the call, on a world that passed the checks, or nothing.\<close>

lemma rename_cases:
  assumes run: "usb_responder_file_rename (Some src) (Some dst) desire w = (r, w')"
  defines "a \<equiv> comps (c_str src)" and "b \<equiv> comps (c_str dst)"
  obtains (refused) "\<not> r" "quiet w w'" "faults w \<noteq> [] \<or> \<not> may_rename src dst desire w"
  | (called) w1 ok w2 where "may_rename src dst desire w" "quiet w w1" "faults w = [] \<longrightarrow> w1 = w"
      "tree_call (fs_rename a b) w1 = (ok, w2)" "r = ok" "quiet w2 w'" "list_all plain_name b"
proof (cases rule: build_path_request [of src w])
  case (bad out w1)
  then show ?thesis
    using run refused quiet_err_only [OF bad(3)] by (simp add: usb_responder_file_rename_def may_rename_def may_write_def)
next
  case A: ok
  let ?sa = "storage_of a" and ?sb = "storage_of b"
  show ?thesis
  proof (cases rule: build_path_request [of dst w])
    case (bad out w1)
    then show ?thesis
      using run refused A(2) quiet_err_only [OF bad(3)]
      by (simp add: usb_responder_file_rename_def may_rename_def may_write_def)
  next
    case B: ok
    obtain m1 w1 where m1: "path_storage_matches_desire ?sa desire w = (m1, w1)" by (metis surj_pair)
    obtain m2 w2 where m2: "path_storage_matches_desire ?sb desire w1 = (m2, w2)" by (metis surj_pair)
    obtain e1 w3 where e1: "ensure_storage_writeable ?sa w2 = (e1, w3)" by (metis surj_pair)
    obtain e2 w4 where e2: "(if ?sb \<noteq> ?sa then ensure_storage_writeable ?sb w3 else (True, w3)) = (e2, w4)"
      by (metis surj_pair)
    have M1: "quiet w w1" "m1 \<Longrightarrow> w1 = w" "m1 \<longleftrightarrow> desired_ok ?sa desire"
      using path_storage_matches_desire_quiet [OF m1] matches_desired [OF m1] quiet_err_only by blast+
    have M2: "quiet w1 w2" "m2 \<Longrightarrow> w2 = w1" "m2 \<longleftrightarrow> desired_ok ?sb desire"
      using path_storage_matches_desire_quiet [OF m2] matches_desired [OF m2] quiet_err_only by blast+
    note E1 = ensure_storage_quiet [OF e1]
    have E2: "quiet w3 w4" "e2 \<Longrightarrow> ?sb \<noteq> ?sa \<Longrightarrow> ?sb = STORAGE_SD \<Longrightarrow> sd_present w3"
        "faults w3 = [] \<Longrightarrow> e2 = (?sb \<noteq> ?sa \<longrightarrow> ?sb = STORAGE_SD \<longrightarrow> sd_present w3) \<and> (e2 \<longrightarrow> w4 = w3)"
      using e2 ensure_storage_quiet [of ?sb w3 e2 w4] by (auto split: if_splits)
    have q: "quiet w w2" "quiet w w3" "quiet w w4" using M1(1) M2(1) E1(1) E2(1) quiet_trans by blast+
    have sd: "sd_present w3 = sd_present w" "sd_present w2 = sd_present w"
      using quiet_keeps(4) [OF q(2)] quiet_keeps(4) [OF q(1)] by (simp_all add: sd_present_def)
    have writes: "may_write src desire w \<longleftrightarrow> m1 \<and> (?sa = STORAGE_SD \<longrightarrow> sd_present w)"
        "may_write dst desire w \<longleftrightarrow> m2 \<and> (?sb = STORAGE_SD \<longrightarrow> sd_present w)"
      using A(1) B(1) M1(3) M2(3) by (simp_all add: may_write_def a_def b_def)
    have roots: "path_is_storage_root (render a) \<longleftrightarrow> a \<in> storage_roots" "path_is_storage_root (render b) \<longleftrightarrow> b \<in> storage_roots"
      using root_path A(4) B(4) by (simp_all add: a_def b_def)
    let ?guard = "a \<notin> storage_roots \<and> b \<notin> storage_roots \<and> ?sa = ?sb"
    have "usb_responder_file_rename (Some src) (Some dst) desire w =
      (if \<not> m1 then (False, w1) else if \<not> m2 then (False, w2) else if \<not> e1 then (False, w3) else if \<not> e2 then (False, w4)
       else if a \<in> storage_roots \<or> b \<in> storage_roots then
         (False, usb_responder_set_last_error (Some ''refusing to rename storage root'') w4)
       else if ?sa \<noteq> ?sb then
         (False, usb_responder_set_last_error (Some ''cross-storage rename is not supported'') w4)
       else (case c_rename (render a) (render b) w4 of
          (False, w7) \<Rightarrow> (False, set_file_error ''rename'' (render b) w7)
        | (True, w7) \<Rightarrow> (True, w7)))"
      using A(2) [folded a_def] B(2) [folded b_def] m1 m2 e1 e2 roots
      by (cases "?sb = ?sa"; cases m1; cases m2; cases e1; cases e2; simp add: usb_responder_file_rename_def)
    note run' = trans [OF sym [OF run] this]
    show ?thesis
    proof (cases "m1 \<and> m2 \<and> e1 \<and> e2 \<and> ?guard")
      case True
      have may: "may_rename src dst desire w"
        using True writes E1(2) sd by (auto simp: may_rename_def a_def b_def)
      have w4: "faults w = [] \<longrightarrow> w4 = w" using True M1(2) M2(2) E1(3) E2(3) by auto
      obtain c w7 where rn: "c_rename (render a) (render b) w4 = (c, w7)" by (metis surj_pair)
      then have tc: "tree_call (fs_rename a b) w4 = (c, w7)"
        using A(3) B(3) by (simp add: c_rename_def a_def b_def)
      have "r = c" "quiet w7 w'" using run' True rn by (cases c; auto)+
      then show ?thesis using called [OF may q(3) w4 tc] B(4) by (simp add: b_def)
    next
      case False
      have "\<not> r" using run' False by (auto split: if_splits)
      moreover have "quiet w w'"
        using run' False M1(1) q quiet_then_err(1) [OF q(3)] by (auto split: if_splits)
      moreover have "faults w \<noteq> [] \<or> \<not> may_rename src dst desire w"
      proof (rule ccontr)
        assume n: "\<not> (faults w \<noteq> [] \<or> \<not> may_rename src dst desire w)"
        then have f: "faults w = []" "faults w2 = []" "faults w3 = []" and may: "may_rename src dst desire w"
          using quiet_keeps(14) [OF q(1)] quiet_keeps(14) [OF q(2)] by simp_all
        have g: "?guard" "m1" "m2" "?sa = STORAGE_SD \<longrightarrow> sd_present w"
          using may writes by (auto simp: may_rename_def a_def b_def)
        then have "e1" "e2" using E1(3) [OF f(2)] E2(3) [OF f(3)] sd by auto
        with g False show False by blast
      qed
      ultimately show ?thesis by (rule refused)
    qed
  qed
qed

text \<open>The tree after a rename: the new path shows what lay at the old one.\<close>

definition renamed_get :: "fpath \<Rightarrow> fpath \<Rightarrow> vfs \<Rightarrow> fpath \<Rightarrow> inode option" where
  "renamed_get a b v q =
     (if a = b then fs_get v q
      else if under b q then fs_get v (a @ drop (length b) q)
      else if under a q then None else fs_get v q)"

lemma rename_effect:
  assumes tok: "tree_ok (vfs w)" and run: "usb_responder_file_rename (Some src) (Some dst) desire w = (r, w')"
  defines "a \<equiv> comps (c_str src)" and "b \<equiv> comps (c_str dst)"
  shows "tree_only w w'" and "tree_ok (vfs w')" and "\<not> r \<Longrightarrow> vfs w' = vfs w"
    and "r \<Longrightarrow> may_rename src dst desire w \<and> fs_get (vfs w) a \<noteq> None \<and> (\<forall>q. fs_get (vfs w') q = renamed_get a b (vfs w) q)"
    and "may_rename src dst desire w \<Longrightarrow> faults w = [] \<Longrightarrow> fs_get (vfs w) a \<noteq> None \<Longrightarrow> fs_get (vfs w) b = None \<Longrightarrow>
      is_dir (vfs w) (butlast b) \<Longrightarrow> \<not> under a b \<Longrightarrow> r"
proof -
  have "tree_only w w' \<and> tree_ok (vfs w') \<and> (\<not> r \<longrightarrow> vfs w' = vfs w) \<and>
    (r \<longrightarrow> may_rename src dst desire w \<and> fs_get (vfs w) a \<noteq> None \<and> (\<forall>q. fs_get (vfs w') q = renamed_get a b (vfs w) q)) \<and>
    (may_rename src dst desire w \<longrightarrow> faults w = [] \<longrightarrow> fs_get (vfs w) a \<noteq> None \<longrightarrow> fs_get (vfs w) b = None \<longrightarrow>
      is_dir (vfs w) (butlast b) \<longrightarrow> \<not> under a b \<longrightarrow> r)"
    using run
  proof (cases rule: rename_cases)
    case refused
    then show ?thesis using tok by (auto simp: quiet_def)
  next
    case (called w1 c w2)
    note tc = called(4) [folded a_def b_def]
    have v1: "vfs w1 = vfs w" using called(2) by (rule quiet_vfs)
    have wf: "fs_wf (vfs w)" using tok by (rule tree_okD(1))
    have dirs: "a \<noteq> []" "b \<noteq> []"
      using called(1) by (simp_all add: may_rename_def storage_roots_def a_def b_def)
    have v': "vfs w' = vfs w2" using called(6) by (rule quiet_vfs)
    show ?thesis
      using tc
    proof (cases rule: tree_call_cases)
      case did
      have ren: "fs_rename a b (vfs w) = Inr (vfs w')" using did(2) v1 v' by simp
      have there: "fs_get (vfs w) a \<noteq> None"
        using ren by (auto simp: fs_rename_def fs_lookup_def fs_get_def split: sum.splits option.splits)
      have "tree_ok (vfs w') \<and> (\<forall>q. fs_get (vfs w') q = renamed_get a b (vfs w) q)"
      proof (cases "a = b")
        case True
        then have "vfs w' = vfs w"
          using ren dirs by (auto simp: fs_rename_def split: sum.splits option.splits)
        then show ?thesis using tok True by (simp add: renamed_get_def)
      next
        case False
        have pb: "list_all plain_name b" using called(7) by (simp add: b_def)
        show ?thesis using fs_move_get [OF tok ren False pb] False by (simp add: renamed_get_def)
      qed
      moreover have "tree_only w w'"
        using tree_only_trans [OF quiet_tree_only [OF called(2)] tree_only_trans [OF did(3) quiet_tree_only [OF called(6)]]] .
      ultimately show ?thesis using there called(1,5) did(1) by simp
    next
      case fault
      then have "quiet w w'" using called(2,6) quiet_trans by blast
      moreover have "faults w \<noteq> []" using fault(3) called(3) by auto
      ultimately show ?thesis using fault(1) called(5) tok by (auto simp: quiet_def)
    next
      case (refused e)
      then have "quiet w w'" using called(2,6) quiet_trans by blast
      moreover have "\<not> (fs_get (vfs w) a \<noteq> None \<and> fs_get (vfs w) b = None \<and> is_dir (vfs w) (butlast b) \<and> \<not> under a b)"
      proof
        assume h: "fs_get (vfs w) a \<noteq> None \<and> fs_get (vfs w) b = None \<and> is_dir (vfs w) (butlast b) \<and> \<not> under a b"
        then have "a \<noteq> b" by auto
        have "walk_err (vfs w) (butlast b @ [last b]) = None" using walk_root [OF wf] h by blast
        then have wb: "walk_err (vfs w) b = None" using dirs(2) by simp
        obtain i where "fs_ino (vfs w) a = Some i" using h by (auto simp: fs_get_def)
        moreover from this have "walk_err (vfs w) a = None" by (rule fs_wf_walk [OF wf])
        moreover have "fs_ino (vfs w) b = None" using h by (simp add: fs_get_def)
        ultimately have "fs_rename a b (vfs w) = Inr (fs_move a b (vfs w))"
          using dirs h wb \<open>a \<noteq> b\<close> by (simp add: fs_rename_def fs_lookup_def)
        then show False using refused(3) v1 by simp
      qed
      ultimately show ?thesis using refused(1) called(5) tok by (auto simp: quiet_def)
    qed
  qed
  then show "tree_only w w'" "tree_ok (vfs w')" "\<not> r \<Longrightarrow> vfs w' = vfs w"
    "r \<Longrightarrow> may_rename src dst desire w \<and> fs_get (vfs w) a \<noteq> None \<and> (\<forall>q. fs_get (vfs w') q = renamed_get a b (vfs w) q)"
    "may_rename src dst desire w \<Longrightarrow> faults w = [] \<Longrightarrow> fs_get (vfs w) a \<noteq> None \<Longrightarrow> fs_get (vfs w) b = None \<Longrightarrow>
      is_dir (vfs w) (butlast b) \<Longrightarrow> \<not> under a b \<Longrightarrow> r" by blast+
qed

section \<open>Properties\<close>

text \<open>
  C19. Deletion is exact. Whatever fails, a deletion changes nothing outside the subtree at its path, adds
  nothing and keeps the tree well-formed; if it reports success the subtree is gone; it refuses the storage
  roots, rejected paths, a storage other than the desired one and a missing card without a change; and it
  succeeds on an existing path when no call fails and every path below fits the path buffer.
\<close>

theorem delete_exact:
  assumes "tree_ok (vfs w)" and "usb_responder_file_delete (Some rel) desire w = (r, w')" and "p = comps (c_str rel)"
  shows "tree_only w w' \<and> tree_ok (vfs w') \<and>
    (\<forall>q. \<not> under p q \<longrightarrow> fs_get (vfs w') q = fs_get (vfs w) q) \<and>
    (\<forall>q. fs_get (vfs w') q = None \<or> fs_get (vfs w') q = fs_get (vfs w) q) \<and>
    (r \<longrightarrow> (\<forall>q. under p q \<longrightarrow> fs_get (vfs w') q = None)) \<and>
    (\<not> (may_write rel desire w \<and> p \<notin> storage_roots) \<longrightarrow> \<not> r \<and> vfs w' = vfs w) \<and>
    (may_write rel desire w \<and> p \<notin> storage_roots \<and> faults w = [] \<and> fs_get (vfs w) p \<noteq> None \<and>
       fits_under p (vfs w) \<longrightarrow> r)"
proof -
  note E = delete_effect [OF assms(1,2), folded assms(3)]
  note get = pruned_get [OF E(3) tree_okD(2) [OF assms(1)]]
  have "fs_get (vfs w') q = None" if "r" "under p q" for q
    using fs_wf_gone [OF tree_okD(1) [OF E(2)] E(4) that(2)] that(1) by blast
  then show ?thesis using E(1,2,5,6) get by blast
qed

theorem delete_exact_witness:
  "fst (usb_responder_file_delete (Some ''d'') None small_world) \<and>
   fs_get (vfs (snd (usb_responder_file_delete (Some ''d'') None small_world))) [''d'', ''x''] = None"
proof -
  have ok: "tree_ok (vfs small_world)" using small_tree_ok by simp
  obtain r w' where run: "usb_responder_file_delete (Some ''d'') None small_world = (r, w')" by (metis surj_pair)
  have d: "comps ''d'' = [''d'']" by (simp add: comps_def)
  then have p: "[''d''] = comps (c_str ''d'')" by simp
  have "may_write ''d'' None small_world"
    by (simp add: may_write_def accepted_path_def desired_ok_def d storage_of_def render_def)
  moreover have "fits_under [''d''] small_tree"
    by (auto simp: fits_under_def fs_get_def fs_ino_def small_tree_def render_def split: if_splits)
  ultimately have "r" "under [''d''] q \<longrightarrow> fs_get (vfs w') q = None" for q
    using delete_exact [OF ok run p] by (simp_all add: small_tree_get storage_roots_def)
  then show ?thesis by (simp add: run under_def)
qed

text \<open>
  C20. Creating directories. Whatever fails, the operation only adds empty directories with the mode the
  umask leaves, at the path itself or, with parents, at prefixes of it; success means that the path is a
  directory (a new one, without parents); and with parents it succeeds when no call fails and every prefix is
  free or a directory already.
\<close>

theorem mkdir_exact:
  assumes "tree_ok (vfs w)" and "usb_responder_dir_mkdir (Some rel) parents desire w = (r, w')"
    and "p = comps (c_str rel)"
  shows "tree_only w w' \<and> tree_ok (vfs w') \<and>
    (\<forall>q. fs_get (vfs w') q = fs_get (vfs w) q \<or>
       fs_get (vfs w) q = None \<and> fs_get (vfs w') q = Some (new_dir w) \<and>
       (q = p \<or> parents \<and> (\<exists>k. 0 < k \<and> k \<le> length p \<and> q = take k p))) \<and>
    (r \<longrightarrow> is_dir (vfs w') p \<and> (parents \<or> fs_get (vfs w) p = None)) \<and>
    (\<not> may_write rel desire w \<longrightarrow> \<not> r \<and> vfs w' = vfs w) \<and>
    (may_write rel desire w \<and> faults w = [] \<and>
       (if parents then \<forall>k. 0 < k \<and> k \<le> length p \<longrightarrow> fs_get (vfs w) (take k p) = None \<or> is_dir (vfs w) (take k p)
        else p \<noteq> [] \<and> is_dir (vfs w) (butlast p) \<and> fs_get (vfs w) p = None) \<longrightarrow> r)"
proof -
  note E = mkdir_effect [OF assms(1,2), folded assms(3)]
  have T: "q \<in> mkdir_targets parents p \<Longrightarrow> q = p \<or> parents \<and> (\<exists>k. 0 < k \<and> k \<le> length p \<and> q = take k p)" for q
    by (auto simp: mkdir_targets_def prefixes_from_root split: if_splits)
  have "(if parents then \<forall>k. 0 < k \<and> k \<le> length p \<longrightarrow> fs_get (vfs w) (take k p) = None \<or> is_dir (vfs w) (take k p)
        else p \<noteq> [] \<and> is_dir (vfs w) (butlast p) \<and> fs_get (vfs w) p = None) \<Longrightarrow>
      (if parents then \<forall>q\<in>prefixes_from [] p. fs_get (vfs w) q = None \<or> is_dir (vfs w) q
       else p \<noteq> [] \<and> is_dir (vfs w) (butlast p) \<and> fs_get (vfs w) p = None)"
    by (auto simp: prefixes_from_root split: if_splits)
  note full = E(4) [OF _ _ this]
  have D: "tree_only w w'" "tree_ok (vfs w')"
    "fs_get (vfs w') q = fs_get (vfs w) q \<or>
       q \<in> mkdir_targets parents p \<and> fs_get (vfs w) q = None \<and> fs_get (vfs w') q = Some (new_dir w)" for q
    using E(1) unfolding dirs_added_def by blast+
  have added: "fs_get (vfs w') q = fs_get (vfs w) q \<or>
       fs_get (vfs w) q = None \<and> fs_get (vfs w') q = Some (new_dir w) \<and>
       (q = p \<or> parents \<and> (\<exists>k. 0 < k \<and> k \<le> length p \<and> q = take k p))" for q
    using D(3) [of q] T [of q] by blast
  show ?thesis
  proof (intro conjI)
    show "tree_only w w'" "tree_ok (vfs w')" by (rule D)+
    show "\<forall>q. fs_get (vfs w') q = fs_get (vfs w) q \<or>
       fs_get (vfs w) q = None \<and> fs_get (vfs w') q = Some (new_dir w) \<and>
       (q = p \<or> parents \<and> (\<exists>k. 0 < k \<and> k \<le> length p \<and> q = take k p))" by (intro allI added)
  qed (use E(2,3) full in blast)+
qed

theorem mkdir_exact_witness:
  "fst (usb_responder_dir_mkdir (Some ''d/e/f'') True (Some ''nand'') small_world) \<and>
   is_dir (vfs (snd (usb_responder_dir_mkdir (Some ''d/e/f'') True (Some ''nand'') small_world))) [''d'', ''e'', ''f'']"
proof -
  have ok: "tree_ok (vfs small_world)" using small_tree_ok by simp
  obtain r w' where run: "usb_responder_dir_mkdir (Some ''d/e/f'') True (Some ''nand'') small_world = (r, w')"
    by (metis surj_pair)
  have d: "comps ''d/e/f'' = [''d'', ''e'', ''f'']" by (simp add: comps_def)
  then have p: "[''d'', ''e'', ''f''] = comps (c_str ''d/e/f'')" by simp
  have may: "may_write ''d/e/f'' (Some ''nand'') small_world"
    by (simp add: may_write_def accepted_path_def desired_ok_def d storage_of_def render_def
        usb_responder_storage_from_name_def strcmp_eq_def)
  have "fs_get small_tree (take k [''d'', ''e'', ''f'']) = None \<or> is_dir small_tree (take k [''d'', ''e'', ''f''])"
    if "0 < k" for k
    using that by (cases k rule: nat.exhaust; auto simp: take_Cons' is_dir_get small_tree_def fs_get_def fs_ino_def)
  then have "r \<and> is_dir (vfs w') [''d'', ''e'', ''f'']"
    using mkdir_exact [OF ok run p] may by simp
  then show ?thesis by (simp add: run)
qed

text \<open>
  C21. Renaming. A rename that reports success moved the whole subtree, and nothing else, from an existing
  path to the new one, within one storage and clear of the storage roots; one that fails changed nothing; and
  it succeeds when no call fails, the old path exists, the new one is free in an existing directory and does
  not lie under the old one.
\<close>

theorem rename_exact:
  assumes "tree_ok (vfs w)" and "usb_responder_file_rename (Some src) (Some dst) desire w = (r, w')"
    and "a = comps (c_str src)" and "b = comps (c_str dst)"
  shows "tree_only w w' \<and> tree_ok (vfs w') \<and> (\<not> r \<longrightarrow> vfs w' = vfs w) \<and>
    (r \<longrightarrow> may_rename src dst desire w \<and> fs_get (vfs w) a \<noteq> None \<and>
       (\<forall>q. fs_get (vfs w') q =
          (if a = b then fs_get (vfs w) q else if under b q then fs_get (vfs w) (a @ drop (length b) q)
           else if under a q then None else fs_get (vfs w) q))) \<and>
    (may_rename src dst desire w \<and> faults w = [] \<and> fs_get (vfs w) a \<noteq> None \<and> fs_get (vfs w) b = None \<and>
       is_dir (vfs w) (butlast b) \<and> \<not> under a b \<longrightarrow> r)"
  using rename_effect [OF assms(1,2), folded assms(3,4)] unfolding renamed_get_def by blast

theorem rename_exact_witness:
  "fst (usb_responder_file_rename (Some ''d'') (Some ''e'') None small_world) \<and>
   fs_get (vfs (snd (usb_responder_file_rename (Some ''d'') (Some ''e'') None small_world))) [''e'', ''x'']
     = Some (inodes small_tree 13)"
proof -
  have ok: "tree_ok (vfs small_world)" using small_tree_ok by simp
  obtain r w' where run: "usb_responder_file_rename (Some ''d'') (Some ''e'') None small_world = (r, w')"
    by (metis surj_pair)
  have d: "comps ''d'' = [''d'']" "comps ''e'' = [''e'']" by (simp_all add: comps_def)
  then have p: "[''d''] = comps (c_str ''d'')" "[''e''] = comps (c_str ''e'')" by simp_all
  have "may_rename ''d'' ''e'' None small_world"
    by (simp add: may_rename_def may_write_def accepted_path_def desired_ok_def d storage_of_def
        render_def storage_roots_def)
  moreover have "fs_get small_tree [''e''] = None" by (simp add: fs_get_def fs_ino_def small_tree_def)
  moreover have "is_dir small_tree []" by (simp add: is_dir_get small_tree_get)
  ultimately have "r" "fs_get (vfs w') [''e'', ''x''] = fs_get small_tree [''d'', ''x'']"
    using rename_exact [OF ok run p] by (simp_all add: small_tree_get under_def)
  then show ?thesis by (simp add: run small_tree_get)
qed

text \<open>A path on the card is neither removed, created nor renamed while the card is absent.\<close>

lemma absent_no_write:
  assumes "\<not> sd_present w" and "under [''sd''] q" and "under (comps (c_str rel)) q" "comps (c_str rel) \<noteq> []"
  shows "\<not> may_write rel desire w"
proof -
  have "storage_of (comps (c_str rel)) = STORAGE_SD"
    using assms(2-4) by (cases "comps (c_str rel)"; cases q) (auto simp: under_def storage_of_def)
  then show ?thesis using assms(1) by (simp add: may_write_def)
qed

lemma absent_delete:
  assumes ok: "tree_ok (vfs w)" and sd: "\<not> sd_present w" "under [''sd''] q" and run: "usb_responder_file_delete (Some rel) desire w = (r, w')"
  shows "fs_get (vfs w') q = fs_get (vfs w) q"
proof (cases "under (comps (c_str rel)) q")
  note D = delete_effect [OF ok run]
  case True
  then have "vfs w' = vfs w" using D(5) absent_no_write [OF sd] by (cases "comps (c_str rel) = []") (auto simp: storage_roots_def)
  then show ?thesis by simp
next
  note D = delete_effect [OF ok run]
  case False
  then show ?thesis using pruned_get(2) [OF D(3) tree_okD(2) [OF ok]] by simp
qed

lemma absent_mkdir:
  assumes ok: "tree_ok (vfs w)" and sd: "\<not> sd_present w" "under [''sd''] q"
    and run: "usb_responder_dir_mkdir (Some rel) parents desire w = (r, w')"
  shows "fs_get (vfs w') q = fs_get (vfs w) q"
proof (cases "may_write rel desire w")
  case False
  then show ?thesis using mkdir_effect(3) [OF ok run] by simp
next
  case True
  have "q \<notin> mkdir_targets parents (comps (c_str rel))"
  proof
    assume "q \<in> mkdir_targets parents (comps (c_str rel))"
    then obtain k where k: "q = take k (comps (c_str rel))"
      by (auto simp: mkdir_targets_def prefixes_from_root split: if_splits intro: that [of "length (comps (c_str rel))"])
    then have "storage_of (comps (c_str rel)) = STORAGE_SD"
      using sd(2) by (cases "comps (c_str rel)"; cases k) (auto simp: under_def storage_of_def)
    then show False using True sd(1) by (simp add: may_write_def)
  qed
  then show ?thesis using mkdir_effect(1) [OF ok run] unfolding dirs_added_def by auto
qed

lemma absent_rename:
  assumes ok: "tree_ok (vfs w)" and sd: "\<not> sd_present w" "under [''sd''] q"
    and run: "usb_responder_file_rename (Some rel) (Some dst) desire w = (r, w')"
  shows "fs_get (vfs w') q = fs_get (vfs w) q"
proof (cases r)
  note R = rename_effect [OF ok run]
  case False
  then show ?thesis using R(3) by simp
next
  note R = rename_effect [OF ok run]
  case True
  then have may: "may_rename rel dst desire w"
    and get: "fs_get (vfs w') q = renamed_get (comps (c_str rel)) (comps (c_str dst)) (vfs w) q" using R(4) by blast+
  then have "\<not> under (comps (c_str rel)) q" "\<not> under (comps (c_str dst)) q"
    using absent_no_write [OF sd] by (auto simp: may_rename_def storage_roots_def)
  then show ?thesis using get by (simp add: renamed_get_def)
qed

text \<open>
  C22. The card is not touched when it is not there. If the mount table shows no card at \<open>/sd\<close>, then deletions,
  creations of directories and renames leave every path at or under \<open>/sd\<close> as it was, whatever they are
  asked and whatever fails.
\<close>

theorem absent_card_untouched:
  assumes ok: "tree_ok (vfs w)" and absent: "\<not> sd_present w" and q: "under [''sd''] q"
  shows "fs_get (vfs (snd (usb_responder_file_delete (Some rel) desire w))) q = fs_get (vfs w) q \<and>
    fs_get (vfs (snd (usb_responder_dir_mkdir (Some rel) parents desire w))) q = fs_get (vfs w) q \<and>
    fs_get (vfs (snd (usb_responder_file_rename (Some rel) (Some dst) desire w))) q = fs_get (vfs w) q"
  using absent_delete [OF assms prod.collapse [symmetric]] absent_mkdir [OF assms prod.collapse [symmetric]]
    absent_rename [OF assms prod.collapse [symmetric]] by blast

theorem absent_card_untouched_witness:
  "fs_get (vfs (snd (usb_responder_file_delete (Some ''sd/x'') None small_world))) [''sd'', ''x''] = fs_get small_tree [''sd'', ''x''] \<and>
   fs_get (vfs (snd (usb_responder_dir_mkdir (Some ''sd/x'') True None small_world))) [''sd'', ''x''] = fs_get small_tree [''sd'', ''x''] \<and>
   fs_get (vfs (snd (usb_responder_file_rename (Some ''sd/x'') (Some ''a'') None small_world))) [''sd'', ''x''] = fs_get small_tree [''sd'', ''x'']"
proof -
  have ok: "tree_ok (vfs small_world)" using small_tree_ok by simp
  have absent: "\<not> sd_present small_world" by (simp add: sd_present_def small_world_def)
  have q: "under [''sd''] [''sd'', ''x'']" by (simp add: under_def)
  show ?thesis using absent_card_untouched [OF ok absent q, of "''sd/x''" None True "''a''"] by simp
qed

end
