(* ===== verification/Shell_Exec.thy ===== *)
theory Shell_Exec
  imports Storage
begin

text \<open>
  Running a shell command (\<open>src/shell_exec.c\<close>): the two bounded output buffers, the loop that
  waits for output, for the exit of the shell and for the deadline, and the clean-up. The kernel's
  side of the loop is a list of rounds; a loop that uses them up is still running (\<open>Blocked\<close>). The
  world records the signals sent, the commands spawned, the bytes read, the open ends of pipes and
  the children not yet reaped.
\<close>

section \<open>The kernel's side\<close>

datatype signal = SIGTERM | SIGKILL

datatype wstatus = Exited nat | Signaled nat

text \<open>
  A round: what \<open>poll\<close> says, what a \<open>read\<close> from the output and from the error pipe would return,
  and what \<open>waitpid\<close> returns if the child still runs.
\<close>

record sh_round =
  r_poll :: pout
  r_out :: rout
  r_err :: rout
  r_wait :: "wstatus option"

record sh_world = fs_world +
  clock :: nat
  ticks :: "nat list"
  setups :: "bool list"
  rounds :: "sh_round list"
  spawned :: "string list"
  signals :: "signal list"
  timeouts :: "nat list"
  read_log :: "(bool \<times> byte list) list"
  pipe_ends :: int
  children :: int

text \<open>The clock never runs backwards; each reading may find it later by the next entry of a script.\<close>

definition monotonic_ms :: "'a sh_world_scheme \<Rightarrow> u64 \<times> 'a sh_world_scheme" where
  "monotonic_ms w =
     (let t = clock w + (case ticks w of [] \<Rightarrow> 0 | d # _ \<Rightarrow> d)
      in (of_nat t, w\<lparr>clock := t, ticks := tl (ticks w)\<rparr>))"

text \<open>The calls that set up the child succeed or fail by a script.\<close>

definition setup_call :: "'a sh_world_scheme \<Rightarrow> bool \<times> 'a sh_world_scheme" where
  "setup_call w = (case setups w of [] \<Rightarrow> (True, w) | ok # rest \<Rightarrow> (ok, w\<lparr>setups := rest\<rparr>))"

definition sys_pipe :: "'a sh_world_scheme \<Rightarrow> bool \<times> 'a sh_world_scheme" where
  "sys_pipe w = (case setup_call w of (ok, w1) \<Rightarrow> (ok, if ok then w1\<lparr>pipe_ends := pipe_ends w1 + 2\<rparr> else w1))"

definition sys_fork_exec :: "string \<Rightarrow> 'a sh_world_scheme \<Rightarrow> bool \<times> 'a sh_world_scheme" where
  "sys_fork_exec command w =
     (case setup_call w of
        (ok, w1) \<Rightarrow>
          (ok, if ok then w1\<lparr>spawned := spawned w1 @ [command], children := children w1 + 1\<rparr> else w1))"

definition close_ends :: "int \<Rightarrow> 'a sh_world_scheme \<Rightarrow> 'a sh_world_scheme" where
  "close_ends n w = w\<lparr>pipe_ends := pipe_ends w - n\<rparr>"

definition sys_killpg :: "signal \<Rightarrow> 'a sh_world_scheme \<Rightarrow> 'a sh_world_scheme" where
  "sys_killpg sig w = w\<lparr>signals := signals w @ [sig]\<rparr>"

section \<open>The code\<close>

record shell_exec_options =
  opt_timeout_ms :: u32
  opt_max_stdout :: u32
  opt_max_stderr :: u32

text \<open>A buffer of the result is its bytes; it is a null pointer exactly while it is empty.\<close>

record shell_exec_result =
  sr_exit_code :: "32 word"
  sr_timed_out :: bool
  sr_duration_ms :: u32
  sr_stdout :: "byte list"
  sr_stderr :: "byte list"

definition zero_result :: shell_exec_result where
  "zero_result = \<lparr>sr_exit_code = 0, sr_timed_out = False, sr_duration_ms = 0, sr_stdout = [], sr_stderr = []\<rparr>"

definition append_limited ::
  "byte list \<Rightarrow> byte list \<Rightarrow> nat \<Rightarrow> 'a io_world_scheme \<Rightarrow> byte list option \<times> 'a io_world_scheme" where
  "append_limited dst src max_size w =
     (if max_size \<le> length dst then (Some dst, w)
      else
        let can_write = (if max_size < length dst + length src then max_size - length dst else length src)
        in if can_write = 0 then (Some dst, w)
           else case c_realloc (dst \<noteq> []) w of
             (False, w1) \<Rightarrow> (None, w1)
           | (True, w1) \<Rightarrow> (Some (dst @ take can_write src), w1))"

definition set_nonblock :: "'a sh_world_scheme \<Rightarrow> bool \<times> 'a sh_world_scheme" where
  "set_nonblock w = (case setup_call w of (False, w1) \<Rightarrow> (False, w1) | (True, w1) \<Rightarrow> setup_call w1)"

definition usb_responder_shell_exec_result_free ::
  "shell_exec_result \<Rightarrow> 'a io_world_scheme \<Rightarrow> shell_exec_result \<times> 'a io_world_scheme" where
  "usb_responder_shell_exec_result_free r w =
     (zero_result, c_free (sr_stderr r \<noteq> []) (c_free (sr_stdout r \<noteq> []) w))"

record exec_state =
  child_running :: bool
  out_open :: bool
  err_open :: bool
  kill_sent :: bool
  out_result :: shell_exec_result

text \<open>One readable descriptor of a round; \<open>False\<close> leads to the clean-up.\<close>

definition exec_read ::
  "shell_exec_options \<Rightarrow> sh_round \<Rightarrow> bool \<Rightarrow> exec_state \<Rightarrow> 'a sh_world_scheme \<Rightarrow>
   bool \<times> exec_state \<times> 'a sh_world_scheme" where
  "exec_read opts rd is_out st w =
     (case (if is_out then r_out rd else r_err rd) of
        RFail e \<Rightarrow> (e = EAGAIN \<or> e = EINTR, st, w\<lparr>errno_val := e\<rparr>)
      | RData bs \<Rightarrow>
          let d = take 4096 bs;
              w1 = w\<lparr>read_log := read_log w @ [(is_out, d)]\<rparr>
          in if d = [] then
               (True, if is_out then st\<lparr>out_open := False\<rparr> else st\<lparr>err_open := False\<rparr>, close_ends 1 w1)
             else if is_out then
               (case append_limited (sr_stdout (out_result st)) d (unat (opt_max_stdout opts)) w1 of
                  (None, w2) \<Rightarrow> (False, st, w2)
                | (Some buf, w2) \<Rightarrow> (True, st\<lparr>out_result := (out_result st)\<lparr>sr_stdout := buf\<rparr>\<rparr>, w2))
             else
               (case append_limited (sr_stderr (out_result st)) d (unat (opt_max_stderr opts)) w1 of
                  (None, w2) \<Rightarrow> (False, st, w2)
                | (Some buf, w2) \<Rightarrow> (True, st\<lparr>out_result := (out_result st)\<lparr>sr_stderr := buf\<rparr>\<rparr>, w2)))"

text \<open>The loop over the polled descriptors and their events; \<open>True\<close> stands for the output pipe.\<close>

fun exec_slots ::
  "shell_exec_options \<Rightarrow> sh_round \<Rightarrow> (bool \<times> revents) list \<Rightarrow> exec_state \<Rightarrow> 'a sh_world_scheme \<Rightarrow>
   bool \<times> exec_state \<times> 'a sh_world_scheme" where
  "exec_slots opts rd [] st w = (True, st, w)"
| "exec_slots opts rd ((is_out, ev) # slots) st w =
     (if pollin ev \<or> pollhup ev then
        (case exec_read opts rd is_out st w of
           (False, st1, w1) \<Rightarrow> (False, st1, w1)
         | (True, st1, w1) \<Rightarrow> exec_slots opts rd slots st1 w1)
      else exec_slots opts rd slots st w)"

definition exec_pfds :: "exec_state \<Rightarrow> bool list" where
  "exec_pfds st = (if out_open st then [True] else []) @ (if err_open st then [False] else [])"

text \<open>The head of a round: the deadline, the signals and the time \<open>poll\<close> may wait.\<close>

definition exec_deadline ::
  "u64 \<Rightarrow> exec_state \<Rightarrow> 'a sh_world_scheme \<Rightarrow> nat \<times> exec_state \<times> 'a sh_world_scheme" where
  "exec_deadline deadline_ms st w =
     (case monotonic_ms w of
        (now_ms, w1) \<Rightarrow>
          if deadline_ms \<le> now_ms \<and> child_running st then
            let st1 = st\<lparr>out_result := (out_result st)\<lparr>sr_timed_out := True\<rparr>\<rparr>
            in if \<not> kill_sent st1 then (100, st1\<lparr>kill_sent := True\<rparr>, sys_killpg SIGTERM w1)
               else (100, st1, sys_killpg SIGKILL w1)
          else if child_running st then
            (if unat (deadline_ms - now_ms) < 100 then unat (deadline_ms - now_ms) else 100, st, w1)
          else (100, st, w1))"

text \<open>The tail of a round: has the child ended?\<close>

definition exec_reap :: "sh_round \<Rightarrow> exec_state \<Rightarrow> 'a sh_world_scheme \<Rightarrow> exec_state \<times> 'a sh_world_scheme" where
  "exec_reap rd st w =
     (if child_running st then
        (case r_wait rd of
           None \<Rightarrow> (st, w)
         | Some status \<Rightarrow>
             (st\<lparr>child_running := False,
                out_result := (out_result st)\<lparr>sr_exit_code :=
                  (case status of Exited c \<Rightarrow> of_nat c | Signaled s \<Rightarrow> of_nat (128 + s))\<rparr>\<rparr>,
              w\<lparr>children := children w - 1\<rparr>))
      else (st, w))"

definition exec_poll ::
  "shell_exec_options \<Rightarrow> sh_round \<Rightarrow> nat \<Rightarrow> exec_state \<Rightarrow> 'a sh_world_scheme \<Rightarrow>
   bool \<times> exec_state \<times> 'a sh_world_scheme" where
  "exec_poll opts rd timeout_ms st w =
     (let fds = exec_pfds st
      in if fds = [] then (True, st, w)
         else
           let w1 = w\<lparr>timeouts := timeouts w @ [timeout_ms]\<rparr>
           in case r_poll rd of
                PollFail e \<Rightarrow> (e = EINTR, st, w1\<lparr>errno_val := e\<rparr>)
              | PollRevents rs \<Rightarrow>
                  if 0 < poll_count (length fds) rs then
                    exec_slots opts rd (zip fds (map (revents_at rs) [0..<length fds])) st w1
                  else (True, st, w1))"

definition exec_round ::
  "shell_exec_options \<Rightarrow> u64 \<Rightarrow> sh_round \<Rightarrow> exec_state \<Rightarrow> 'a sh_world_scheme \<Rightarrow>
   bool \<times> exec_state \<times> 'a sh_world_scheme" where
  "exec_round opts deadline_ms rd st w =
     (case exec_deadline deadline_ms st w of
        (timeout_ms, st1, w1) \<Rightarrow>
          (case exec_poll opts rd timeout_ms st1 w1 of
             (False, st2, w2) \<Rightarrow> (False, st2, w2)
           | (True, st2, w2) \<Rightarrow> (case exec_reap rd st2 w2 of (st3, w3) \<Rightarrow> (True, st3, w3))))"

fun exec_loop ::
  "shell_exec_options \<Rightarrow> u64 \<Rightarrow> sh_round list \<Rightarrow> exec_state \<Rightarrow> 'a sh_world_scheme \<Rightarrow>
   (bool \<times> exec_state) io \<times> sh_round list \<times> 'a sh_world_scheme" where
  "exec_loop opts deadline_ms rds st w =
     (if child_running st \<or> out_open st \<or> err_open st then
        (case rds of
           [] \<Rightarrow> (Blocked, [], w)
         | rd # rest \<Rightarrow>
             (case exec_round opts deadline_ms rd st w of
                (False, st1, w1) \<Rightarrow> (Done (False, st1), rest, w1)
              | (True, st1, w1) \<Rightarrow> exec_loop opts deadline_ms rest st1 w1))
      else (Done (True, st), rds, w))"

declare exec_loop.simps [simp del]

text \<open>The label \<open>cleanup\<close> once the child has been started.\<close>

definition exec_cleanup :: "exec_state \<Rightarrow> 'a sh_world_scheme \<Rightarrow> 'a sh_world_scheme" where
  "exec_cleanup st w =
     (let w1 = sys_killpg SIGKILL w;
          w2 = (if child_running st then w1\<lparr>children := children w1 - 1\<rparr> else w1);
          w3 = close_ends ((if out_open st then 1 else 0) + (if err_open st then 1 else 0)) w2
      in snd (usb_responder_shell_exec_result_free (out_result st) w3))"

definition usb_responder_exec_shell ::
  "string \<Rightarrow> shell_exec_options \<Rightarrow> 'a sh_world_scheme \<Rightarrow> (shell_exec_result option) io \<times> 'a sh_world_scheme" where
  "usb_responder_exec_shell command opts w =
     (case monotonic_ms w of
        (start_ms, w0) \<Rightarrow>
          let deadline_ms = start_ms + ucast (opt_timeout_ms opts);
              st = \<lparr>child_running = True, out_open = True, err_open = True, kill_sent = False,
                    out_result = zero_result\<lparr>sr_exit_code := -1\<rparr>\<rparr>
          in case sys_pipe w0 of
               (False, w1) \<Rightarrow> (Done None, w1)
             | (True, w1) \<Rightarrow>
                 (case sys_pipe w1 of
                    (False, w2) \<Rightarrow> (Done None, close_ends 2 w2)
                  | (True, w2) \<Rightarrow>
                      (case sys_fork_exec command w2 of
                         (False, w3) \<Rightarrow> (Done None, close_ends 4 w3)
                       | (True, w3) \<Rightarrow>
                           (case set_nonblock (close_ends 2 w3) of
                              (False, w4) \<Rightarrow> (Done None, exec_cleanup st w4)
                            | (True, w4) \<Rightarrow>
                                (case set_nonblock w4 of
                                   (False, w5) \<Rightarrow> (Done None, exec_cleanup st w5)
                                 | (True, w5) \<Rightarrow>
                                     (case exec_loop opts deadline_ms (rounds w5) st w5 of
                                        (Blocked, rest, w6) \<Rightarrow> (Blocked, w6\<lparr>rounds := rest\<rparr>)
                                      | (Done (False, st1), rest, w6) \<Rightarrow>
                                          (Done None, exec_cleanup st1 (w6\<lparr>rounds := rest\<rparr>))
                                      | (Done (True, st1), rest, w6) \<Rightarrow>
                                          (case monotonic_ms (w6\<lparr>rounds := rest\<rparr>) of
                                             (now_ms, w7) \<Rightarrow>
                                               (Done (Some ((out_result st1)\<lparr>sr_duration_ms := ucast (now_ms - start_ms)\<rparr>)),
                                                w7))))))))"

section \<open>The output buffers\<close>

text \<open>A count of a condition: how many blocks, descriptors or children something holds.\<close>

definition holds :: "bool \<Rightarrow> int" where
  "holds b = (if b then 1 else 0)"

lemma holds_simps [simp]: "holds True = 1" "holds False = 0"
  by (simp_all add: holds_def)

lemma append_limited_alt: "append_limited dst src m w =
  (let k = min (length src) (m - length dst)
   in if k = 0 then (Some dst, w)
      else case c_realloc (dst \<noteq> []) w of (False, w1) \<Rightarrow> (None, w1) | (True, w1) \<Rightarrow> (Some (dst @ take k src), w1))"
proof (cases "m \<le> length dst")
  case True
  then show ?thesis by (simp add: append_limited_def)
next
  case False
  then have "(if m < length dst + length src then m - length dst else length src) = min (length src) (m - length dst)" by auto
  with False show ?thesis by (simp only: append_limited_def if_False)
qed

lemma append_limited_mem:
  assumes "append_limited dst src m w = (r, w')"
  shows "case r of None \<Rightarrow> mem_only w w' 0 | Some buf \<Rightarrow> mem_only w w' (holds (buf \<noteq> []) - holds (dst \<noteq> []))"
proof (cases "min (length src) (m - length dst) = 0")
  case True
  then show ?thesis using assms by (auto simp: append_limited_alt)
next
  case k: False
  then have ne: "dst @ take (min (length src) (m - length dst)) src \<noteq> []" by auto
  show ?thesis
  proof (cases rule: c_realloc_cases [of "dst \<noteq> []" w])
    case (ok w1)
    then have "r = Some (dst @ take (min (length src) (m - length dst)) src)" "w' = w1"
      using assms k unfolding append_limited_alt Let_def by simp_all
    then show ?thesis using ok(2) ne by (cases "dst = []") simp_all
  next
    case (fail w1)
    then show ?thesis using assms k unfolding append_limited_alt Let_def by simp
  qed
qed

lemma append_limited_buf:
  assumes "append_limited (take m s) src m w = (Some buf, w')"
  shows "buf = take m (s @ src)"
proof -
  define k where "k = min (length src) (m - length (take m s))"
  have eq: "take m (s @ src) = take m s @ take k src"
    by (cases "m \<le> length s") (auto simp: k_def min_def)
  have "(if k = 0 then (Some (take m s), w)
      else case c_realloc (take m s \<noteq> []) w of (False, w1) \<Rightarrow> (None, w1) | (True, w1) \<Rightarrow> (Some (take m s @ take k src), w1))
      = (Some buf, w')"
    using assms unfolding append_limited_alt Let_def k_def .
  then have "buf = take m s @ take k src" by (auto split: if_splits prod.splits bool.splits)
  with eq show ?thesis by simp
qed

lemma append_limited_calm: "allocs w = [] \<Longrightarrow> fst (append_limited dst src m w) \<noteq> None"
  by (cases rule: c_realloc_cases [of "dst \<noteq> []" w]) (auto simp: append_limited_def Let_def)

section \<open>What the loop keeps\<close>

text \<open>The parts of the world a command of the model leaves alone.\<close>

definition sh_keeps :: "'a sh_world_scheme \<Rightarrow> 'a sh_world_scheme \<Rightarrow> bool" where
  "sh_keeps w w' \<longleftrightarrow>
     vfs w' = vfs w \<and> streams w' = streams w \<and> next_stream w' = next_stream w \<and> umask w' = umask w \<and>
     dir_end w' = dir_end w \<and> mountinfo w' = mountinfo w \<and> statvfs_of w' = statvfs_of w \<and>
     pw_name w' = pw_name w \<and> gr_name w' = gr_name w \<and> faults w' = faults w \<and> long_bits w' = long_bits w \<and>
     strerr w' = strerr w \<and> last_error w' = last_error w \<and> wscript w' = wscript w \<and> sent w' = sent w \<and>
     rscript w' = rscript w \<and> pscript w' = pscript w \<and> sh_world.more w' = sh_world.more w \<and>
     (allocs w = [] \<longrightarrow> allocs w' = [])"

lemma sh_keeps_refl [simp, intro]: "sh_keeps w w"
  by (simp add: sh_keeps_def)

lemma sh_keeps_trans [trans]: "sh_keeps u v \<Longrightarrow> sh_keeps v w \<Longrightarrow> sh_keeps u w"
  by (simp add: sh_keeps_def)

lemma mem_only_sh:
  fixes w w' :: "'a sh_world_scheme"
  assumes "mem_only w w' d"
  shows "sh_keeps w w'" "clock w' = clock w" "ticks w' = ticks w" "setups w' = setups w" "rounds w' = rounds w"
    "spawned w' = spawned w" "signals w' = signals w" "timeouts w' = timeouts w" "read_log w' = read_log w"
    "pipe_ends w' = pipe_ends w" "children w' = children w" "live w' = live w + d"
proof -
  obtain as where w': "w' = w\<lparr>allocs := as, live := live w + d\<rparr>" "allocs w = [] \<longrightarrow> as = []"
    using assms by (auto simp: mem_only_def)
  show "sh_keeps w w'" "clock w' = clock w" "ticks w' = ticks w" "setups w' = setups w" "rounds w' = rounds w"
    "spawned w' = spawned w" "signals w' = signals w" "timeouts w' = timeouts w" "read_log w' = read_log w"
    "pipe_ends w' = pipe_ends w" "children w' = children w" "live w' = live w + d"
    using w' by (simp_all add: sh_keeps_def)
qed

text \<open>The resources a state of the loop holds: the blocks of the result, the read ends and the child.\<close>

definition result_blocks :: "shell_exec_result \<Rightarrow> int" where
  "result_blocks r = holds (sr_stdout r \<noteq> []) + holds (sr_stderr r \<noteq> [])"

definition exec_res :: "'a sh_world_scheme \<Rightarrow> exec_state \<Rightarrow> 'a sh_world_scheme \<Rightarrow> bool" where
  "exec_res w0 st w \<longleftrightarrow> sh_keeps w0 w \<and> spawned w = spawned w0 \<and>
     live w = live w0 + result_blocks (out_result st) \<and>
     pipe_ends w = pipe_ends w0 + holds (out_open st) + holds (err_open st) \<and>
     children w = children w0 + holds (child_running st) \<and> clock w0 \<le> clock w"

text \<open>What was read from one of the pipes.\<close>

definition got :: "bool \<Rightarrow> (bool \<times> byte list) list \<Rightarrow> byte list" where
  "got b log = concat (map snd (filter (\<lambda>e. fst e = b) log))"

lemma got_snoc [simp]: "got b (log @ [(c, d)]) = (if c = b then got b log @ d else got b log)"
  by (simp add: got_def)

definition exec_out :: "shell_exec_options \<Rightarrow> 'a sh_world_scheme \<Rightarrow> exec_state \<Rightarrow> 'a sh_world_scheme \<Rightarrow> bool" where
  "exec_out opts w0 st w \<longleftrightarrow>
     (\<exists>log. read_log w = read_log w0 @ log \<and>
        sr_stdout (out_result st) = take (unat (opt_max_stdout opts)) (got True log) \<and>
        sr_stderr (out_result st) = take (unat (opt_max_stderr opts)) (got False log))"

text \<open>The signals so far, and the exit code of a child that has ended.\<close>

definition exit_code_of :: "wstatus \<Rightarrow> 32 word" where
  "exit_code_of s = (case s of Exited c \<Rightarrow> of_nat c | Signaled s \<Rightarrow> of_nat (128 + s))"

definition exec_sig :: "u64 \<Rightarrow> 'a sh_world_scheme \<Rightarrow> exec_state \<Rightarrow> 'a sh_world_scheme \<Rightarrow> bool" where
  "exec_sig deadline w0 st w \<longleftrightarrow>
     (sr_timed_out (out_result st) \<longleftrightarrow> kill_sent st) \<and>
     (if kill_sent st then \<exists>k. signals w = signals w0 @ SIGTERM # replicate k SIGKILL else signals w = signals w0) \<and>
     (kill_sent st \<longrightarrow> (\<exists>t\<le>clock w. deadline \<le> of_nat t)) \<and>
     (\<exists>ts. timeouts w = timeouts w0 @ ts \<and> (\<forall>t\<in>set ts. t \<le> 100)) \<and>
     (if child_running st then sr_exit_code (out_result st) = -1
      else \<exists>s. sr_exit_code (out_result st) = exit_code_of s)"

lemma exec_out_step:
  assumes "exec_out opts w0 st w" and "read_log w' = read_log w @ [(b, d)]"
    and "\<And>log. sr_stdout (out_result st) = take (unat (opt_max_stdout opts)) (got True log) \<Longrightarrow>
      sr_stdout (out_result st') = take (unat (opt_max_stdout opts)) (got True (log @ [(b, d)]))"
    and "\<And>log. sr_stderr (out_result st) = take (unat (opt_max_stderr opts)) (got False log) \<Longrightarrow>
      sr_stderr (out_result st') = take (unat (opt_max_stderr opts)) (got False (log @ [(b, d)]))"
  shows "exec_out opts w0 st' w'"
proof -
  obtain log where log: "read_log w = read_log w0 @ log"
    "sr_stdout (out_result st) = take (unat (opt_max_stdout opts)) (got True log)"
    "sr_stderr (out_result st) = take (unat (opt_max_stderr opts)) (got False log)"
    using assms(1) by (auto simp: exec_out_def)
  show ?thesis unfolding exec_out_def
    by (rule exI [of _ "log @ [(b, d)]"], intro conjI assms(3,4) log(2,3)) (simp add: assms(2) log(1))
qed

lemma exec_read_spec:
  assumes run: "exec_read opts rd is_out st w = (ok, st', w')"
    and open_end: "if is_out then out_open st else err_open st"
    and res: "exec_res w0 st w"
  shows "exec_res w0 st' w'" and "ok \<Longrightarrow> exec_out opts w0 st w \<Longrightarrow> exec_out opts w0 st' w'"
    and "exec_sig dl w0 st w \<Longrightarrow> exec_sig dl w0 st' w'"
    and "child_running st' = child_running st"
    and "is_out \<Longrightarrow> err_open st' = err_open st" "\<not> is_out \<Longrightarrow> out_open st' = out_open st"
proof -
  let ?buf = "if is_out then sr_stdout (out_result st) else sr_stderr (out_result st)"
  let ?max = "unat (if is_out then opt_max_stdout opts else opt_max_stderr opts)"
  let ?put = "\<lambda>b. if is_out then st\<lparr>out_result := (out_result st)\<lparr>sr_stdout := b\<rparr>\<rparr>
      else st\<lparr>out_result := (out_result st)\<lparr>sr_stderr := b\<rparr>\<rparr>"
  have goal: "exec_res w0 st' w' \<and> (ok \<longrightarrow> exec_out opts w0 st w \<longrightarrow> exec_out opts w0 st' w') \<and>
    (exec_sig dl w0 st w \<longrightarrow> exec_sig dl w0 st' w') \<and> child_running st' = child_running st \<and>
    (is_out \<longrightarrow> err_open st' = err_open st) \<and> (\<not> is_out \<longrightarrow> out_open st' = out_open st)"
  proof (cases "if is_out then r_out rd else r_err rd")
    case (RFail e)
    then have "st' = st" "w' = w\<lparr>errno_val := e\<rparr>" using run by (simp_all add: exec_read_def)
    then show ?thesis using res by (simp add: exec_res_def exec_out_def exec_sig_def sh_keeps_def)
  next
    case (RData bs)
    let ?d = "take 4096 bs"
    let ?w1 = "w\<lparr>read_log := read_log w @ [(is_out, ?d)]\<rparr>"
    show ?thesis
    proof (cases "?d = []")
      case True
      then have st': "st' = (if is_out then st\<lparr>out_open := False\<rparr> else st\<lparr>err_open := False\<rparr>)" and w': "w' = close_ends 1 ?w1"
        using run RData by (simp_all add: exec_read_def)
      have "exec_out opts w0 st' w'" if "exec_out opts w0 st w"
        by (rule exec_out_step [OF that, of _ is_out ?d]) (use True in \<open>simp_all add: st' w' close_ends_def\<close>)
      then show ?thesis using res open_end
        by (auto simp: st' w' exec_res_def exec_sig_def sh_keeps_def close_ends_def)
    next
      case False
      obtain b w2 where ap: "append_limited ?buf ?d ?max ?w1 = (b, w2)" by (metis surj_pair)
      have eq: "exec_read opts rd is_out st w = (case b of None \<Rightarrow> (False, st, w2) | Some buf \<Rightarrow> (True, ?put buf, w2))"
        using RData False ap by (cases is_out; cases b) (simp_all add: exec_read_def Let_def)
      note res' = trans [OF sym [OF run] eq]
      note M = append_limited_mem [OF ap]
      have m: "mem_only ?w1 w2 (case b of None \<Rightarrow> 0 | Some buf \<Rightarrow> holds (buf \<noteq> []) - holds (?buf \<noteq> []))"
        using M by (cases b) simp_all
      have sig: "exec_sig dl w0 s w2" if "exec_sig dl w0 st w" "sr_timed_out (out_result s) = sr_timed_out (out_result st)"
        "kill_sent s = kill_sent st" "child_running s = child_running st"
        "sr_exit_code (out_result s) = sr_exit_code (out_result st)" for s
        using that mem_only_sh(2,7,8) [OF m] by (simp add: exec_sig_def)
      have kp: "sh_keeps w0 w2"
        using res sh_keeps_trans [OF _ mem_only_sh(1) [OF m], of w0] by (simp add: exec_res_def sh_keeps_def)
      have w': "w' = w2" using res' by (cases b) simp_all
      show ?thesis
      proof (cases b)
        case None
        then show ?thesis using res' res kp sig mem_only_sh [OF m] by (simp add: exec_res_def)
      next
        case (Some buf)
        then have st': "st' = ?put buf" "ok" using res' by simp_all
        have "exec_res w0 st' w'"
          using res kp mem_only_sh [OF m] unfolding st' w'
          by (cases is_out) (simp_all add: exec_res_def Some result_blocks_def)
        moreover have "exec_out opts w0 st' w'" if "exec_out opts w0 st w"
        proof (rule exec_out_step [OF that, of _ is_out ?d])
          show "read_log w' = read_log w @ [(is_out, ?d)]" using mem_only_sh(9) [OF m] w' by simp
        next
          fix log assume h: "sr_stdout (out_result st) = take (unat (opt_max_stdout opts)) (got True log)"
          show "sr_stdout (out_result st') = take (unat (opt_max_stdout opts)) (got True (log @ [(is_out, ?d)]))"
            using ap h append_limited_buf [of "unat (opt_max_stdout opts)" "got True log" ?d ?w1 buf w2]
            by (cases is_out) (simp_all add: st' Some)
        next
          fix log assume h: "sr_stderr (out_result st) = take (unat (opt_max_stderr opts)) (got False log)"
          show "sr_stderr (out_result st') = take (unat (opt_max_stderr opts)) (got False (log @ [(is_out, ?d)]))"
            using ap h append_limited_buf [of "unat (opt_max_stderr opts)" "got False log" ?d ?w1 buf w2]
            by (cases is_out) (simp_all add: st' Some)
        qed
        moreover have "exec_sig dl w0 st' w'" if "exec_sig dl w0 st w"
          unfolding w' by (rule sig [OF that]) (simp_all add: st')
        ultimately show ?thesis by (simp add: st')
      qed
    qed
  qed
  then show "exec_res w0 st' w'" "ok \<Longrightarrow> exec_out opts w0 st w \<Longrightarrow> exec_out opts w0 st' w'"
    "exec_sig dl w0 st w \<Longrightarrow> exec_sig dl w0 st' w'" "child_running st' = child_running st"
    "is_out \<Longrightarrow> err_open st' = err_open st" "\<not> is_out \<Longrightarrow> out_open st' = out_open st" by blast+
qed

text \<open>
  \<open>kept opts dl w0 ok st w st' w'\<close>: a part of a round keeps what the loop holds and signals, and,
  unless it leads to the clean-up, what it has collected.
\<close>

definition kept ::
  "shell_exec_options \<Rightarrow> u64 \<Rightarrow> 'a sh_world_scheme \<Rightarrow> bool \<Rightarrow> exec_state \<Rightarrow> 'a sh_world_scheme \<Rightarrow> exec_state \<Rightarrow>
   'a sh_world_scheme \<Rightarrow> bool" where
  "kept opts dl w0 ok st w st' w' \<longleftrightarrow>
     (exec_res w0 st w \<longrightarrow> exec_res w0 st' w') \<and>
     (ok \<longrightarrow> exec_out opts w0 st w \<longrightarrow> exec_out opts w0 st' w') \<and>
     (exec_sig dl w0 st w \<longrightarrow> exec_sig dl w0 st' w')"

lemma kept_refl [simp]: "kept opts dl w0 ok st w st w"
  by (simp add: kept_def)

lemma kept_trans: "kept opts dl w0 True s1 w1 s2 w2 \<Longrightarrow> kept opts dl w0 ok s2 w2 s3 w3 \<Longrightarrow> kept opts dl w0 ok s1 w1 s3 w3"
  by (simp add: kept_def)

lemma exec_slots_spec:
  "exec_slots opts rd slots st w = (ok, st', w') \<Longrightarrow> distinct (map fst slots) \<Longrightarrow>
   (\<forall>s\<in>set slots. if fst s then out_open st else err_open st) \<Longrightarrow> exec_res w0 st w \<Longrightarrow>
   kept opts dl w0 ok st w st' w' \<and> child_running st' = child_running st"
proof (induction slots arbitrary: st w)
  case Nil
  then show ?case by simp
next
  case (Cons s slots)
  obtain b ev where s: "s = (b, ev)" by (cases s)
  show ?case
  proof (cases "pollin ev \<or> pollhup ev")
    case False
    then show ?thesis using Cons.IH [of st w] Cons.prems by (simp add: s)
  next
    case True
    obtain ok1 st1 w1 where rd: "exec_read opts rd b st w = (ok1, st1, w1)" by (metis prod_cases3)
    have op: "if b then out_open st else err_open st" using Cons.prems(3) by (simp add: s)
    note R = exec_read_spec [OF rd op Cons.prems(4)]
    have k1: "kept opts dl w0 ok1 st w st1 w1" using R(1,2,3) by (simp add: kept_def)
    show ?thesis
    proof (cases ok1)
      case False
      then have "ok = False" "st' = st1" "w' = w1" using Cons.prems(1) True rd by (simp_all add: s)
      then show ?thesis using k1 False R(4) by simp
    next
      case ok1: True
      then have run: "exec_slots opts rd slots st1 w1 = (ok, st', w')" using Cons.prems(1) True rd by (simp add: s)
      have rest: "\<forall>s\<in>set slots. if fst s then out_open st1 else err_open st1"
      proof
        fix t assume t: "t \<in> set slots"
        then have "fst t \<noteq> b" using Cons.prems(2) by (auto simp: s)
        moreover have "if fst t then out_open st else err_open st" using Cons.prems(3) t by simp
        ultimately show "if fst t then out_open st1 else err_open st1" using R(5,6) by (cases b; cases "fst t") auto
      qed
      have dist: "distinct (map fst slots)" using Cons.prems(2) by simp
      have "kept opts dl w0 ok st1 w1 st' w' \<and> child_running st' = child_running st1"
        by (rule Cons.IH [OF run dist rest R(1)])
      then show ?thesis using kept_trans [of opts dl w0 st w st1 w1 ok st' w'] k1 ok1 R(4) by simp
    qed
  qed
qed

lemma exec_poll_spec:
  assumes run: "exec_poll opts rd t st w = (ok, st', w')" and t: "t \<le> 100" and res: "exec_res w0 st w"
  shows "kept opts dl w0 ok st w st' w' \<and> child_running st' = child_running st"
proof (cases "exec_pfds st = []")
  case True
  then show ?thesis using run by (simp add: exec_poll_def)
next
  case False
  let ?fds = "exec_pfds st"
  let ?w1 = "w\<lparr>timeouts := timeouts w @ [t]\<rparr>"
  have sig1: "exec_sig dl w0 st ?w1" if "exec_sig dl w0 st w"
  proof -
    obtain ts where "timeouts w = timeouts w0 @ ts" "\<forall>t\<in>set ts. t \<le> 100" using \<open>exec_sig dl w0 st w\<close> by (auto simp: exec_sig_def)
    then have "\<exists>ts. timeouts ?w1 = timeouts w0 @ ts \<and> (\<forall>t\<in>set ts. t \<le> 100)"
      using t by (intro exI [of _ "ts @ [t]"]) auto
    then show ?thesis using that by (simp add: exec_sig_def)
  qed
  have k1: "kept opts dl w0 b st w st ?w1" for b
    using sig1 by (simp add: kept_def exec_res_def exec_out_def sh_keeps_def)
  show ?thesis
  proof (cases "r_poll rd")
    case (PollFail e)
    then have r: "st' = st" "w' = ?w1\<lparr>errno_val := e\<rparr>" using run False by (simp_all add: exec_poll_def Let_def)
    have "kept opts dl w0 b st ?w1 st' w'" for b
      by (simp add: r kept_def exec_res_def exec_out_def exec_sig_def sh_keeps_def)
    then show ?thesis using kept_trans [OF k1] r by blast
  next
    case (PollRevents rs)
    show ?thesis
    proof (cases "0 < poll_count (length ?fds) rs")
      case none: False
      then show ?thesis using run False PollRevents k1 by (simp add: exec_poll_def Let_def)
    next
      case True
      let ?slots = "zip ?fds (map (revents_at rs) [0..<length ?fds])"
      have sl: "exec_slots opts rd ?slots st ?w1 = (ok, st', w')"
        using run False PollRevents True by (simp add: exec_poll_def Let_def)
      have fst: "map fst ?slots = ?fds" by simp
      have d: "distinct (map fst ?slots)" unfolding fst by (auto simp: exec_pfds_def)
      have "\<forall>s\<in>set ?slots. if fst s then out_open st else err_open st"
        by (auto simp: exec_pfds_def dest!: set_zip_leftD split: if_splits)
      moreover have "exec_res w0 st ?w1" using res by (simp add: exec_res_def sh_keeps_def)
      ultimately have "kept opts dl w0 ok st ?w1 st' w' \<and> child_running st' = child_running st"
        by (intro exec_slots_spec [OF sl d])
      then show ?thesis using kept_trans [OF k1] by blast
    qed
  qed
qed

lemma monotonic_spec:
  assumes "monotonic_ms w = (now, w')"
  shows "sh_keeps w w'" "now = of_nat (clock w')" "clock w \<le> clock w'" "live w' = live w" "signals w' = signals w"
    "timeouts w' = timeouts w" "read_log w' = read_log w" "pipe_ends w' = pipe_ends w" "children w' = children w"
    "spawned w' = spawned w" "rounds w' = rounds w"
  using assms by (auto simp: monotonic_ms_def Let_def sh_keeps_def)

lemma exec_deadline_spec:
  assumes run: "exec_deadline dl st w = (t, st', w')"
  shows "t \<le> 100" "kept opts dl w0 b st w st' w'" "child_running st' = child_running st"
    "out_open st' = out_open st" "err_open st' = err_open st"
proof -
  obtain now w1 where m: "monotonic_ms w = (now, w1)" by (metis surj_pair)
  note M = monotonic_spec [OF m]
  have res1: "exec_res w0 st w1" if "exec_res w0 st w"
    using that M sh_keeps_trans [OF _ M(1), of w0] by (simp add: exec_res_def)
  have out1: "exec_out opts w0 st w1" if "exec_out opts w0 st w"
    using that M by (simp add: exec_out_def)
  have sig1: "exec_sig dl w0 st w1" if "exec_sig dl w0 st w"
  proof -
    have "kill_sent st \<longrightarrow> (\<exists>t\<le>clock w1. dl \<le> of_nat t)"
      using that M(3) unfolding exec_sig_def by (meson le_trans)
    then show ?thesis using that M by (simp add: exec_sig_def)
  qed
  have goal: "t \<le> 100 \<and> kept opts dl w0 b st w st' w' \<and> child_running st' = child_running st \<and>
    out_open st' = out_open st \<and> err_open st' = err_open st"
  proof (cases "dl \<le> now \<and> child_running st")
    case False
    then have "st' = st" "w' = w1" "t \<le> 100"
      using run m by (auto simp: exec_deadline_def split: if_splits)
    then show ?thesis using res1 out1 sig1 by (simp add: kept_def)
  next
    case True
    let ?sig = "if kill_sent st then SIGKILL else SIGTERM"
    have r: "t = 100" "w' = sys_killpg ?sig w1"
        "st' = st\<lparr>out_result := (out_result st)\<lparr>sr_timed_out := True\<rparr>, kill_sent := True\<rparr>"
      using run m True by (auto simp: exec_deadline_def Let_def split: if_splits)
    have "exec_sig dl w0 st' w'" if "exec_sig dl w0 st w"
    proof -
      have s1: "exec_sig dl w0 st w1" by (rule sig1 [OF that])
      have sigs: "\<exists>k. signals w' = signals w0 @ SIGTERM # replicate k SIGKILL"
      proof (cases "kill_sent st")
        case True
        then obtain k where "signals w1 = signals w0 @ SIGTERM # replicate k SIGKILL" using s1 by (auto simp: exec_sig_def)
        then have "signals w' = signals w0 @ SIGTERM # replicate (Suc k) SIGKILL"
          using True by (simp add: r sys_killpg_def replicate_append_same [symmetric])
        then show ?thesis by blast
      next
        case False
        then have "signals w' = signals w0 @ SIGTERM # replicate 0 SIGKILL"
          using s1 by (simp add: exec_sig_def r sys_killpg_def)
        then show ?thesis by blast
      qed
      have "\<exists>t\<le>clock w'. dl \<le> of_nat t" using True M(2) by (auto simp: r sys_killpg_def)
      then show ?thesis using s1 sigs by (simp add: exec_sig_def r sys_killpg_def)
    qed
    moreover have "exec_res w0 st' w'" if "exec_res w0 st w"
      using res1 [OF that] by (simp add: r sys_killpg_def exec_res_def sh_keeps_def result_blocks_def)
    moreover have "exec_out opts w0 st' w'" if "exec_out opts w0 st w"
      using out1 [OF that] by (simp add: r sys_killpg_def exec_out_def)
    ultimately show ?thesis by (simp add: kept_def r)
  qed
  then show "t \<le> 100" "kept opts dl w0 b st w st' w'" "child_running st' = child_running st"
    "out_open st' = out_open st" "err_open st' = err_open st" by blast+
qed

lemma exec_reap_spec:
  assumes "exec_reap rd st w = (st', w')"
  shows "kept opts dl w0 b st w st' w'"
proof (cases "child_running st \<and> r_wait rd \<noteq> None")
  case False
  then show ?thesis using assms by (auto simp: exec_reap_def split: if_splits)
next
  case True
  then obtain s where s: "r_wait rd = Some s" by blast
  have st': "st' = st\<lparr>child_running := False, out_result := (out_result st)\<lparr>sr_exit_code := exit_code_of s\<rparr>\<rparr>"
    and w': "w' = w\<lparr>children := children w - 1\<rparr>"
    using assms True s by (simp_all add: exec_reap_def exit_code_of_def)
  have "exec_res w0 st w \<longrightarrow> exec_res w0 st' w'"
    using True by (simp add: st' w' exec_res_def sh_keeps_def result_blocks_def)
  moreover have "exec_out opts w0 st w \<longrightarrow> exec_out opts w0 st' w'" by (simp add: st' w' exec_out_def)
  moreover have "exec_sig dl w0 st w \<longrightarrow> exec_sig dl w0 st' w'" using True by (auto simp: st' w' exec_sig_def)
  ultimately show ?thesis by (simp add: kept_def)
qed

lemma exec_round_spec:
  assumes run: "exec_round opts dl rd st w = (ok, st', w')" and res: "exec_res w0 st w"
  shows "kept opts dl w0 ok st w st' w'"
proof -
  obtain t st1 w1 where d: "exec_deadline dl st w = (t, st1, w1)" by (metis prod_cases3)
  obtain ok2 st2 w2 where p: "exec_poll opts rd t st1 w1 = (ok2, st2, w2)" by (metis prod_cases3)
  obtain st3 w3 where r: "exec_reap rd st2 w2 = (st3, w3)" by (metis surj_pair)
  note D = exec_deadline_spec [OF d]
  have "exec_res w0 st1 w1" using D(2) [of opts w0 True] res by (simp add: kept_def)
  note P = exec_poll_spec [OF p D(1) this]
  have k2: "kept opts dl w0 ok2 st w st2 w2" using kept_trans [OF D(2)] P by blast
  show ?thesis
  proof (cases ok2)
    case False
    then show ?thesis using run d p k2 by (simp add: exec_round_def)
  next
    case True
    then have eq: "ok = True" "st' = st3" "w' = w3" using run d p r by (simp_all add: exec_round_def)
    have "kept opts dl w0 True st w st2 w2" using k2 True by simp
    then show ?thesis unfolding eq by (rule kept_trans [OF _ exec_reap_spec [OF r]])
  qed
qed

lemma exec_loop_spec:
  "exec_loop opts dl rds st w = (r, rest, w') \<Longrightarrow> exec_res w0 st w \<Longrightarrow>
   (case r of
      Blocked \<Rightarrow> True
    | Done (ok, st') \<Rightarrow> kept opts dl w0 ok st w st' w' \<and>
        (ok \<longrightarrow> \<not> child_running st' \<and> \<not> out_open st' \<and> \<not> err_open st')) \<and>
   (\<exists>used. rds = used @ rest)"
proof (induction rds arbitrary: st w)
  case Nil
  then show ?case by (subst (asm) exec_loop.simps) (auto split: if_splits)
next
  case (Cons rd rds)
  show ?case
  proof (cases "child_running st \<or> out_open st \<or> err_open st")
    case False
    then show ?thesis using Cons.prems(1) by (subst (asm) exec_loop.simps) auto
  next
    case True
    obtain ok1 st1 w1 where rn: "exec_round opts dl rd st w = (ok1, st1, w1)" by (metis prod_cases3)
    note K = exec_round_spec [OF rn Cons.prems(2)]
    show ?thesis
    proof (cases ok1)
      case False
      then have "r = Done (False, st1)" "rest = rds" "w' = w1"
        using Cons.prems(1) True rn by (subst (asm) exec_loop.simps, simp)+
      then show ?thesis using K False by simp
    next
      case ok1: True
      have rec: "exec_loop opts dl rds st1 w1 = (r, rest, w')"
        using Cons.prems(1) True rn ok1 by (subst (asm) exec_loop.simps) simp
      have "exec_res w0 st1 w1" using K Cons.prems(2) by (simp add: kept_def)
      note IH = Cons.IH [OF rec this]
      then obtain used where "rds = used @ rest" by blast
      then have "rd # rds = (rd # used) @ rest" by simp
      then have ex: "\<exists>used. rd # rds = used @ rest" by blast
      show ?thesis
      proof (cases r)
        case Blocked
        then show ?thesis using ex by simp
      next
        case (Done p)
        obtain ok st' where p: "p = (ok, st')" by (cases p)
        then have "kept opts dl w0 ok st w st' w'" using IH Done kept_trans [of opts dl w0 st w st1 w1 ok st' w'] K ok1 by simp
        then show ?thesis using IH Done p ex by simp
      qed
    qed
  qed
qed

section \<open>The whole call\<close>

text \<open>A call of the set-up moves the open pipe ends by \<open>dp\<close> and the children by \<open>dc\<close>.\<close>

definition sets_up :: "int \<Rightarrow> int \<Rightarrow> 'a sh_world_scheme \<Rightarrow> 'a sh_world_scheme \<Rightarrow> bool" where
  "sets_up dp dc w w' \<longleftrightarrow> sh_keeps w w' \<and> live w' = live w \<and> signals w' = signals w \<and> read_log w' = read_log w \<and>
     timeouts w' = timeouts w \<and> rounds w' = rounds w \<and> clock w \<le> clock w' \<and>
     pipe_ends w' = pipe_ends w + dp \<and> children w' = children w + dc"

lemma sets_up_trans: "sets_up a b u v \<Longrightarrow> sets_up c d v w \<Longrightarrow> sets_up (a + c) (b + d) u w"
  unfolding sets_up_def using sh_keeps_trans [of u v w] by auto

lemma setup_call_sets: "setup_call w = (ok, w') \<Longrightarrow> sets_up 0 0 w w' \<and> spawned w' = spawned w"
  by (auto simp: setup_call_def sets_up_def sh_keeps_def split: list.splits)

lemma sys_pipe_sets: "sys_pipe w = (ok, w') \<Longrightarrow> sets_up (if ok then 2 else 0) 0 w w' \<and> spawned w' = spawned w"
  using setup_call_sets [of w] by (auto simp: sys_pipe_def sets_up_def sh_keeps_def split: prod.splits)

lemma sys_fork_sets: "sys_fork_exec c w = (ok, w') \<Longrightarrow>
  sets_up 0 (holds ok) w w' \<and> spawned w' = spawned w @ (if ok then [c] else [])"
  using setup_call_sets [of w] by (auto simp: sys_fork_exec_def sets_up_def sh_keeps_def split: prod.splits)

lemma close_ends_sets: "sets_up (- n) 0 w (close_ends n w) \<and> spawned (close_ends n w) = spawned w"
  by (simp add: close_ends_def sets_up_def sh_keeps_def)

lemma set_nonblock_sets: "set_nonblock w = (ok, w') \<Longrightarrow> sets_up 0 0 w w' \<and> spawned w' = spawned w"
proof -
  assume run: "set_nonblock w = (ok, w')"
  obtain b w1 where s: "setup_call w = (b, w1)" by (metis surj_pair)
  show ?thesis
  proof (cases b)
    case False
    then show ?thesis using run s setup_call_sets [OF s] by (simp add: set_nonblock_def)
  next
    case True
    then have "setup_call w1 = (ok, w')" using run s by (simp add: set_nonblock_def)
    then show ?thesis using setup_call_sets [OF s] setup_call_sets [of w1 ok w'] sets_up_trans [of 0 0 w w1 0 0 w'] by simp
  qed
qed

text \<open>The clean-up gives back whatever the state of the loop holds.\<close>

lemma exec_cleanup_spec:
  assumes "exec_res w0 st w"
  shows "sh_keeps w0 (exec_cleanup st w)" "live (exec_cleanup st w) = live w0"
    "pipe_ends (exec_cleanup st w) = pipe_ends w0" "children (exec_cleanup st w) = children w0"
    "rounds (exec_cleanup st w) = rounds w"
  using assms by (auto simp: exec_cleanup_def Let_def usb_responder_shell_exec_result_free_def c_free_def sys_killpg_def
      close_ends_def exec_res_def sh_keeps_def result_blocks_def)

definition exec_start_state :: exec_state where
  "exec_start_state = \<lparr>child_running = True, out_open = True, err_open = True, kill_sent = False,
     out_result = zero_result\<lparr>sr_exit_code := -1\<rparr>\<rparr>"

lemma exec_start_out: "read_log w0 = read_log w \<Longrightarrow> exec_out opts w0 exec_start_state w"
  by (auto simp: exec_out_def exec_start_state_def zero_result_def got_def intro: exI [of _ "[]"])

lemma exec_start_sig:
  "signals w0 = signals w \<Longrightarrow> timeouts w0 = timeouts w \<Longrightarrow> exec_sig dl w0 exec_start_state w"
  by (auto simp: exec_sig_def exec_start_state_def zero_result_def intro: exI [of _ "[]"])

text \<open>What a finished command has done.\<close>

definition exec_finished ::
  "string \<Rightarrow> shell_exec_options \<Rightarrow> 'a sh_world_scheme \<Rightarrow> shell_exec_result \<Rightarrow> 'a sh_world_scheme \<Rightarrow> bool" where
  "exec_finished command opts w res w' \<longleftrightarrow>
     spawned w' = spawned w @ [command] \<and>
     (\<exists>log. read_log w' = read_log w @ log \<and>
        sr_stdout res = take (unat (opt_max_stdout opts)) (got True log) \<and>
        sr_stderr res = take (unat (opt_max_stderr opts)) (got False log)) \<and>
     (\<exists>s. sr_exit_code res = exit_code_of s) \<and>
     (\<exists>k. signals w' = signals w @ (if sr_timed_out res then SIGTERM # replicate k SIGKILL else [])) \<and>
     (sr_timed_out res \<longrightarrow> (\<exists>t\<le>clock w'. fst (monotonic_ms w) + ucast (opt_timeout_ms opts) \<le> of_nat t)) \<and>
     (\<exists>ts. timeouts w' = timeouts w @ ts \<and> (\<forall>t\<in>set ts. t \<le> 100))"

lemma exec_finished_intro:
  fixes w :: "'a sh_world_scheme"
  assumes m7: "monotonic_ms (w6\<lparr>rounds := rest\<rparr>) = (now, w7)"
    and up: "sets_up 2 1 w w5" and sp: "spawned w5 = spawned w @ [command]"
    and res: "exec_res (w5\<lparr>pipe_ends := pipe_ends w, children := children w\<rparr>) st1 (w6\<lparr>rounds := rest\<rparr>)"
    and out: "exec_out opts (w5\<lparr>pipe_ends := pipe_ends w, children := children w\<rparr>) st1 w6"
    and sig: "exec_sig (fst (monotonic_ms w) + ucast (opt_timeout_ms opts)) (w5\<lparr>pipe_ends := pipe_ends w, children := children w\<rparr>) st1 w6"
    and ended: "\<not> child_running st1" "\<not> out_open st1" "\<not> err_open st1"
  shows "sh_keeps w w7 \<and> live w7 = live w + result_blocks (out_result st1) \<and> pipe_ends w7 = pipe_ends w \<and>
    children w7 = children w \<and> exec_finished command opts w ((out_result st1)\<lparr>sr_duration_ms := d\<rparr>) w7"
proof -
  note M = monotonic_spec [OF m7]
  let ?b = "w5\<lparr>pipe_ends := pipe_ends w, children := children w\<rparr>"
  have k: "sh_keeps w ?b" "sh_keeps ?b (w6\<lparr>rounds := rest\<rparr>)"
    using up res by (simp_all add: sets_up_def exec_res_def sh_keeps_def)
  have keep: "sh_keeps w w7" by (rule sh_keeps_trans [OF sh_keeps_trans [OF k] M(1)])
  have o: "\<exists>log. read_log w7 = read_log w @ log \<and>
      sr_stdout (out_result st1) = take (unat (opt_max_stdout opts)) (got True log) \<and>
      sr_stderr (out_result st1) = take (unat (opt_max_stderr opts)) (got False log)"
    using out up M(7) by (simp add: exec_out_def sets_up_def)
  have e: "\<exists>s. sr_exit_code (out_result st1) = exit_code_of s" using sig ended by (simp add: exec_sig_def)
  have to: "sr_timed_out (out_result st1) = kill_sent st1" using sig by (simp add: exec_sig_def)
  have g: "\<exists>k. signals w7 = signals w @ (if kill_sent st1 then SIGTERM # replicate k SIGKILL else [])"
    using sig up M(5) by (auto simp: exec_sig_def sets_up_def split: if_splits)
  have t: "kill_sent st1 \<longrightarrow> (\<exists>t\<le>clock w7. fst (monotonic_ms w) + ucast (opt_timeout_ms opts) \<le> of_nat t)"
  proof -
    have c: "clock w6 \<le> clock w7" using M(3) by simp
    have "kill_sent st1 \<longrightarrow> (\<exists>t\<le>clock w6. fst (monotonic_ms w) + ucast (opt_timeout_ms opts) \<le> of_nat t)"
      using sig by (simp add: exec_sig_def)
    then show ?thesis using c by (meson le_trans)
  qed
  have p: "\<exists>ts. timeouts w7 = timeouts w @ ts \<and> (\<forall>t\<in>set ts. t \<le> 100)"
    using sig up M(6) by (auto simp: exec_sig_def sets_up_def)
  have spw: "spawned w7 = spawned w @ [command]" using res sp M(10) by (simp add: exec_res_def)
  have fin: "exec_finished command opts w ((out_result st1)\<lparr>sr_duration_ms := d\<rparr>) w7"
    unfolding exec_finished_def using o e g t p spw by (simp add: to)
  show ?thesis
    using keep fin res ended up M(4,8,9) by (simp add: exec_res_def sets_up_def)
qed

text \<open>
  What the loop holds is measured against the world before the pipes: one child, two pipe ends and the
  output buffers, which the clean-up gives back.
\<close>

abbreviation exec_base :: "'a sh_world_scheme \<Rightarrow> 'a sh_world_scheme \<Rightarrow> 'a sh_world_scheme" where
  "exec_base w v \<equiv> v\<lparr>pipe_ends := pipe_ends w, children := children w\<rparr>"

definition given_back :: "'a sh_world_scheme \<Rightarrow> 'a sh_world_scheme \<Rightarrow> bool" where
  "given_back w v \<longleftrightarrow> sh_keeps w v \<and> live v = live w \<and> pipe_ends v = pipe_ends w \<and> children v = children w"

lemma exec_start_res: "sets_up 2 1 w v \<Longrightarrow> exec_res (exec_base w v) exec_start_state v"
  by (simp add: exec_res_def sets_up_def sh_keeps_def exec_start_state_def result_blocks_def zero_result_def)

lemma exec_cleaned:
  assumes "sets_up 2 1 w v" and "exec_res (exec_base w v) st u"
  shows "given_back w (exec_cleanup st u)"
  using exec_cleanup_spec [OF assms(2)] assms(1) sh_keeps_trans [of w "exec_base w v" "exec_cleanup st u"]
  by (simp add: sets_up_def given_back_def) (simp add: sh_keeps_def)

text \<open>The calls before the loop: which of them succeeded decides what is open.\<close>

lemma exec_setup_spec:
  assumes m: "monotonic_ms w = (start, w0)" and pi1: "sys_pipe w0 = (p1, w1)" and pi2: "sys_pipe w1 = (p2, w2)"
    and frk: "sys_fork_exec command w2 = (fk, w3)" and nb1: "set_nonblock (close_ends 2 w3) = (n1, w4)"
    and nb2: "set_nonblock w4 = (n2, w5)"
  defines "n \<equiv> (if p1 then 2 else 0) + (if p2 then 2 else 0)"
  shows "sets_up (if p1 then 2 else 0) 0 w w1" "sets_up n 0 w w2" "sets_up n (holds fk) w w3"
    "sets_up (n - 2) (holds fk) w w4" "sets_up (n - 2) (holds fk) w w5"
    "spawned w5 = spawned w @ (if fk then [command] else [])"
proof -
  note M = monotonic_spec [OF m]
  have s0: "sets_up 0 0 w w0" using M by (simp add: sets_up_def)
  show s1: "sets_up (if p1 then 2 else 0) 0 w w1" using sets_up_trans [OF s0 conjunct1 [OF sys_pipe_sets [OF pi1]]] by simp
  show s2: "sets_up n 0 w w2" using sets_up_trans [OF s1 conjunct1 [OF sys_pipe_sets [OF pi2]]] by (simp add: n_def)
  show s3: "sets_up n (holds fk) w w3" using sets_up_trans [OF s2 conjunct1 [OF sys_fork_sets [OF frk]]] by simp
  show s4: "sets_up (n - 2) (holds fk) w w4"
    using sets_up_trans [OF sets_up_trans [OF s3 conjunct1 [OF close_ends_sets]] conjunct1 [OF set_nonblock_sets [OF nb1]]] by simp
  show "sets_up (n - 2) (holds fk) w w5"
    using sets_up_trans [OF s4 conjunct1 [OF set_nonblock_sets [OF nb2]]] by simp
  show "spawned w5 = spawned w @ (if fk then [command] else [])"
    using set_nonblock_sets [OF nb2] set_nonblock_sets [OF nb1] close_ends_sets [of 2 w3] sys_fork_sets [OF frk]
      sys_pipe_sets [OF pi2] sys_pipe_sets [OF pi1] M(10) by simp
qed

text \<open>The loop and what follows it.\<close>

definition exec_tail :: "shell_exec_options \<Rightarrow> u64 \<Rightarrow> 'a sh_world_scheme \<Rightarrow> shell_exec_result option io \<times> 'a sh_world_scheme" where
  "exec_tail opts start w =
     (case exec_loop opts (start + ucast (opt_timeout_ms opts)) (rounds w) exec_start_state w of
        (Blocked, rest, w6) \<Rightarrow> (Blocked, w6\<lparr>rounds := rest\<rparr>)
      | (Done (False, st1), rest, w6) \<Rightarrow> (Done None, exec_cleanup st1 (w6\<lparr>rounds := rest\<rparr>))
      | (Done (True, st1), rest, w6) \<Rightarrow>
          (case monotonic_ms (w6\<lparr>rounds := rest\<rparr>) of
             (now_ms, w7) \<Rightarrow> (Done (Some ((out_result st1)\<lparr>sr_duration_ms := ucast (now_ms - start)\<rparr>)), w7)))"

lemma exec_tail_spec:
  assumes st: "start = fst (monotonic_ms w)" and up: "sets_up 2 1 w w5" and sp: "spawned w5 = spawned w @ [command]"
    and run: "exec_tail opts start w5 = (r, w')"
  shows "case r of Blocked \<Rightarrow> True | Done None \<Rightarrow> given_back w w'
    | Done (Some res) \<Rightarrow> sh_keeps w w' \<and> live w' = live w + result_blocks res \<and> pipe_ends w' = pipe_ends w \<and>
        children w' = children w \<and> exec_finished command opts w res w'"
proof -
  let ?dl = "start + ucast (opt_timeout_ms opts)"
  obtain lr rest w6 where lp: "exec_loop opts ?dl (rounds w5) exec_start_state w5 = (lr, rest, w6)" by (metis prod_cases3)
  note L = exec_loop_spec [OF lp exec_start_res [OF up]]
  show ?thesis
  proof (cases lr)
    case Blocked
    then show ?thesis using run lp by (simp add: exec_tail_def)
  next
    case (Done p)
    obtain ok st1 where p: "p = (ok, st1)" by (cases p)
    have K: "kept opts ?dl (exec_base w w5) ok exec_start_state w5 st1 w6" using L Done p by simp
    have res1: "exec_res (exec_base w w5) st1 (w6\<lparr>rounds := rest\<rparr>)"
      using K exec_start_res [OF up] by (simp add: kept_def exec_res_def sh_keeps_def)
    show ?thesis
    proof (cases ok)
      case False
      then have "r = Done None" "w' = exec_cleanup st1 (w6\<lparr>rounds := rest\<rparr>)" using run lp Done p by (simp_all add: exec_tail_def)
      then show ?thesis using exec_cleaned [OF up res1] by simp
    next
      case True
      obtain now w7 where m7: "monotonic_ms (w6\<lparr>rounds := rest\<rparr>) = (now, w7)" by (metis surj_pair)
      let ?res = "(out_result st1)\<lparr>sr_duration_ms := ucast (now - start)\<rparr>"
      have rr: "r = Done (Some ?res)" "w' = w7" using run lp Done p True m7 by (simp_all add: exec_tail_def)
      have ended: "\<not> child_running st1" "\<not> out_open st1" "\<not> err_open st1" using L Done p True by simp_all
      have o1: "exec_out opts (exec_base w w5) st1 w6"
        using K True exec_start_out [of "exec_base w w5" w5 opts] by (simp add: kept_def)
      have g1: "exec_sig ?dl (exec_base w w5) st1 w6"
        using K exec_start_sig [of "exec_base w w5" w5 ?dl] by (simp add: kept_def)
      have "sh_keeps w w7 \<and> live w7 = live w + result_blocks (out_result st1) \<and> pipe_ends w7 = pipe_ends w \<and>
          children w7 = children w \<and> exec_finished command opts w ?res w7"
        by (rule exec_finished_intro [OF m7 up sp res1 o1 g1 [unfolded st] ended, folded st])
      then show ?thesis unfolding rr by (simp add: result_blocks_def)
    qed
  qed
qed

lemma exec_shell_spec:
  assumes run: "usb_responder_exec_shell command opts w = (r, w')"
  shows "case r of
      Blocked \<Rightarrow> True
    | Done None \<Rightarrow> sh_keeps w w' \<and> live w' = live w \<and> pipe_ends w' = pipe_ends w \<and> children w' = children w
    | Done (Some res) \<Rightarrow> sh_keeps w w' \<and> live w' = live w + result_blocks res \<and> pipe_ends w' = pipe_ends w \<and>
        children w' = children w \<and> exec_finished command opts w res w'"
proof -
  obtain start w0 where m: "monotonic_ms w = (start, w0)" by (metis surj_pair)
  obtain p1 w1 where pi1: "sys_pipe w0 = (p1, w1)" by (metis surj_pair)
  obtain p2 w2 where pi2: "sys_pipe w1 = (p2, w2)" by (metis surj_pair)
  obtain fk w3 where frk: "sys_fork_exec command w2 = (fk, w3)" by (metis surj_pair)
  obtain n1 w4 where nb1: "set_nonblock (close_ends 2 w3) = (n1, w4)" by (metis surj_pair)
  obtain n2 w5 where nb2: "set_nonblock w4 = (n2, w5)" by (metis surj_pair)
  note S = exec_setup_spec [OF m pi1 pi2 frk nb1 nb2]
  have none: "given_back w v" if "sets_up 0 0 w v" for v using that by (simp add: sets_up_def given_back_def)
  have cleaned: "given_back w (exec_cleanup exec_start_state v)" if "sets_up 2 1 w v" for v
    by (rule exec_cleaned [OF that exec_start_res [OF that]])
  have "usb_responder_exec_shell command opts w =
    (if \<not> p1 then (Done None, w1) else if \<not> p2 then (Done None, close_ends 2 w2) else if \<not> fk then (Done None, close_ends 4 w3)
     else if \<not> n1 then (Done None, exec_cleanup exec_start_state w4)
     else if \<not> n2 then (Done None, exec_cleanup exec_start_state w5) else exec_tail opts start w5)"
    using m pi1 pi2 frk nb1 nb2
    by (simp add: usb_responder_exec_shell_def [of command opts w, folded exec_start_state_def] exec_tail_def
        split: io.split prod.split bool.split)
  note run' = trans [OF sym [OF this] run]
  show ?thesis
  proof (cases "p1 \<and> p2 \<and> fk \<and> n1 \<and> n2")
    case True
    have "start = fst (monotonic_ms w)" "sets_up 2 1 w w5" "spawned w5 = spawned w @ [command]" "exec_tail opts start w5 = (r, w')"
      using True m S(5,6) run' by simp_all
    from exec_tail_spec [OF this] show ?thesis by (simp add: given_back_def split: io.splits option.splits)
  next
    case False
    have "r = Done None \<and> given_back w w'"
      using run' False S(1) sets_up_trans [OF S(2) conjunct1 [OF close_ends_sets [of 2]]]
        sets_up_trans [OF S(3) conjunct1 [OF close_ends_sets [of 4]]] S(4,5) none cleaned by (auto split: if_splits)
    then show ?thesis by (simp add: given_back_def)
  qed
qed

section \<open>Progress\<close>

text \<open>
  A round is benign if no call fails for good. A closing round finds the end of file on both
  pipes and the shell ended.
\<close>

definition soft :: "errno \<Rightarrow> bool" where
  "soft e \<longleftrightarrow> e = EAGAIN \<or> e = EINTR"

definition benign_round :: "sh_round \<Rightarrow> bool" where
  "benign_round rd \<longleftrightarrow>
     (case r_poll rd of PollFail e \<Rightarrow> e = EINTR | PollRevents rs \<Rightarrow> True) \<and>
     (case r_out rd of RFail e \<Rightarrow> soft e | RData d \<Rightarrow> True) \<and>
     (case r_err rd of RFail e \<Rightarrow> soft e | RData d \<Rightarrow> True)"

definition hup :: revents where
  "hup = \<lparr>pollin = False, pollhup = True, pollerr = False, pollnval = False\<rparr>"

definition closing_round :: "wstatus \<Rightarrow> sh_round" where
  "closing_round s = \<lparr>r_poll = PollRevents [hup, hup], r_out = RData [], r_err = RData [], r_wait = Some s\<rparr>"

lemma exec_read_benign:
  assumes b: "benign_round rd" and al: "allocs w = []" and run: "exec_read opts rd is_out st w = (ok, st', w')"
  shows "ok" "allocs w' = []"
proof -
  have "ok \<and> allocs w' = []"
  proof (cases "if is_out then r_out rd else r_err rd")
    case (RFail e)
    then have "soft e" using b by (cases is_out) (simp_all add: benign_round_def)
    then show ?thesis using run RFail al by (auto simp: exec_read_def soft_def)
  next
    case (RData bs)
    let ?w1 = "w\<lparr>read_log := read_log w @ [(is_out, take 4096 bs)]\<rparr>"
    let ?buf = "if is_out then sr_stdout (out_result st) else sr_stderr (out_result st)"
    let ?max = "unat (if is_out then opt_max_stdout opts else opt_max_stderr opts)"
    obtain b w2 where ap: "append_limited ?buf (take 4096 bs) ?max ?w1 = (b, w2)" by (metis surj_pair)
    have "b \<noteq> None" using append_limited_calm [of ?w1 ?buf "take 4096 bs" ?max] al ap by simp
    moreover have "allocs w2 = []" using append_limited_mem [OF ap] al mem_only_calm [of ?w1 w2] by (auto split: option.splits)
    ultimately show ?thesis using run RData ap al
      by (cases is_out; cases "take 4096 bs = []") (auto simp: exec_read_def Let_def close_ends_def)
  qed
  then show "ok" "allocs w' = []" by simp_all
qed

lemma exec_slots_benign:
  "benign_round rd \<Longrightarrow> allocs w = [] \<Longrightarrow> exec_slots opts rd slots st w = (ok, st', w') \<Longrightarrow> ok \<and> allocs w' = []"
proof (induction slots arbitrary: st w)
  case (Cons s slots)
  obtain b ev where s: "s = (b, ev)" by (cases s)
  obtain ok1 st1 w1 where rd: "exec_read opts rd b st w = (ok1, st1, w1)" by (metis prod_cases3)
  note R = exec_read_benign [OF Cons.prems(1,2) rd]
  show ?case
    using Cons.IH [OF Cons.prems(1) R(2), of st1] Cons.IH [OF Cons.prems(1,2), of st] Cons.prems(3) rd R(1)
    by (auto simp: s split: if_splits)
qed simp

lemma exec_round_benign:
  assumes b: "benign_round rd" and al: "allocs w = []" and run: "exec_round opts dl rd st w = (ok, st', w')"
  shows "ok \<and> allocs w' = []"
proof -
  obtain t st1 w1 where d: "exec_deadline dl st w = (t, st1, w1)" by (metis prod_cases3)
  obtain ok2 st2 w2 where p: "exec_poll opts rd t st1 w1 = (ok2, st2, w2)" by (metis prod_cases3)
  have al1: "allocs w1 = []"
    using d al by (auto simp: exec_deadline_def monotonic_ms_def Let_def sys_killpg_def split: if_splits)
  have "ok2 \<and> allocs w2 = []"
  proof (cases "r_poll rd")
    case (PollFail e)
    then show ?thesis using b p al1 by (auto simp: benign_round_def exec_poll_def Let_def split: if_splits)
  next
    case (PollRevents rs)
    let ?slots = "zip (exec_pfds st1) (map (revents_at rs) [0..<length (exec_pfds st1)])"
    let ?w1 = "w1\<lparr>timeouts := timeouts w1 @ [t]\<rparr>"
    obtain ok3 st3 w3 where sl: "exec_slots opts rd ?slots st1 ?w1 = (ok3, st3, w3)" by (metis prod_cases3)
    have "ok3 \<and> allocs w3 = []" by (rule exec_slots_benign [OF b _ sl]) (simp add: al1)
    then show ?thesis using p PollRevents sl al1 by (auto simp: exec_poll_def Let_def split: if_splits)
  qed
  then show ?thesis using run d p by (auto simp: exec_round_def exec_reap_def split: if_splits option.splits)
qed

lemma exec_round_closing:
  assumes al: "allocs w = []" and run: "exec_round opts dl (closing_round s) st w = (ok, st', w')"
  shows "ok \<and> \<not> child_running st' \<and> \<not> out_open st' \<and> \<not> err_open st'"
proof -
  let ?rd = "closing_round s"
  have b: "benign_round ?rd" by (simp add: benign_round_def closing_round_def)
  have ok: "ok" using exec_round_benign [OF b al run] by simp
  obtain t st1 w1 where d: "exec_deadline dl st w = (t, st1, w1)" by (metis prod_cases3)
  obtain ok2 st2 w2 where p: "exec_poll opts ?rd t st1 w1 = (ok2, st2, w2)" by (metis prod_cases3)
  have ok2: "ok2" using run ok d p by (cases ok2) (simp_all add: exec_round_def)
  have "\<not> out_open st2 \<and> \<not> err_open st2"
    using p by (cases "out_open st1"; cases "err_open st1")
      (auto simp: exec_poll_def exec_pfds_def closing_round_def hup_def no_revents_def poll_count_def revents_at_def
        exec_read_def Let_def upt_rec)
  then show ?thesis using run d p ok ok2
    by (auto simp: exec_round_def exec_reap_def closing_round_def split: if_splits)
qed

lemma exec_loop_ends:
  "list_all benign_round pre \<Longrightarrow> allocs w = [] \<Longrightarrow>
   \<exists>st' rest w'. exec_loop opts dl (pre @ closing_round s # post) st w = (Done (True, st'), rest, w')"
proof (induction pre arbitrary: st w)
  case Nil
  obtain ok st1 w1 where r: "exec_round opts dl (closing_round s) st w = (ok, st1, w1)" by (metis prod_cases3)
  note C = exec_round_closing [OF Nil(2) r]
  then have "exec_loop opts dl post st1 w1 = (Done (True, st1), post, w1)" by (subst exec_loop.simps) simp
  then show ?case using r C by (subst exec_loop.simps) simp
next
  case (Cons rd pre)
  obtain ok st1 w1 where r: "exec_round opts dl rd st w = (ok, st1, w1)" by (metis prod_cases3)
  have "ok \<and> allocs w1 = []" using exec_round_benign [OF _ Cons.prems(2) r] Cons.prems(1) by simp
  then show ?case using Cons.IH [of w1 st1] Cons.prems(1) r by (subst exec_loop.simps) simp
qed

text \<open>A round in which nothing happens while something else still holds the pipes.\<close>

definition idle_round :: sh_round where
  "idle_round = \<lparr>r_poll = PollRevents [], r_out = RData [], r_err = RData [], r_wait = None\<rparr>"

lemma exec_loop_idle:
  "\<not> child_running st \<Longrightarrow> out_open st \<Longrightarrow>
   \<exists>w'. exec_loop opts dl (replicate n idle_round) st w = (Blocked, [], w') \<and> signals w' = signals w \<and>
     timeouts w' = timeouts w @ replicate n 100"
proof (induction n arbitrary: w)
  case 0
  then show ?case by (subst exec_loop.simps) simp
next
  case (Suc n)
  obtain now w1 where m: "monotonic_ms w = (now, w1)" by (metis surj_pair)
  have "exec_round opts dl idle_round st w = (True, st, w1\<lparr>timeouts := timeouts w1 @ [100]\<rparr>)"
    using Suc.prems m by (simp add: exec_round_def exec_deadline_def exec_poll_def exec_pfds_def idle_round_def
        poll_count_def exec_reap_def Let_def)
  then show ?case using Suc.IH [OF Suc.prems, of "w1\<lparr>timeouts := timeouts w1 @ [100]\<rparr>"] Suc.prems monotonic_spec [OF m]
    by (subst exec_loop.simps) simp
qed

lemma exec_shell_started:
  fixes w :: "'a sh_world_scheme"
  assumes su: "setups w = []" and m: "monotonic_ms w = (start, w0)"
    and lp: "exec_loop opts (start + ucast (opt_timeout_ms opts)) (rounds w) exec_start_state
      (w0\<lparr>pipe_ends := pipe_ends w + 2, spawned := spawned w @ [command], children := children w + 1\<rparr>) = (lr, rest, w6)"
  shows "lr = Blocked \<Longrightarrow> usb_responder_exec_shell command opts w = (Blocked, w6\<lparr>rounds := rest\<rparr>)"
    and "lr = Done (True, st1) \<Longrightarrow> \<exists>res w'. usb_responder_exec_shell command opts w = (Done (Some res), w')"
proof -
  have s0: "setups w0 = []" using m su by (auto simp: monotonic_ms_def Let_def)
  note M = monotonic_spec [OF m]
  let ?w5 = "w0\<lparr>pipe_ends := pipe_ends w + 2, spawned := spawned w @ [command], children := children w + 1\<rparr>"
  have sc: "setup_call v = (True, v)" if "setups v = []" for v :: "'a sh_world_scheme"
    using that by (simp add: setup_call_def)
  have p1: "sys_pipe w0 = (True, w0\<lparr>pipe_ends := pipe_ends w + 2\<rparr>)"
    using sc s0 M by (simp add: sys_pipe_def)
  have p2: "sys_pipe (w0\<lparr>pipe_ends := pipe_ends w + 2\<rparr>) = (True, w0\<lparr>pipe_ends := pipe_ends w + 4\<rparr>)"
    using sc s0 by (simp add: sys_pipe_def)
  have f: "sys_fork_exec command (w0\<lparr>pipe_ends := pipe_ends w + 4\<rparr>) =
      (True, w0\<lparr>pipe_ends := pipe_ends w + 4, spawned := spawned w @ [command], children := children w + 1\<rparr>)"
    using sc s0 M by (simp add: sys_fork_exec_def)
  have c: "close_ends 2 (w0\<lparr>pipe_ends := pipe_ends w + 4, spawned := spawned w @ [command], children := children w + 1\<rparr>) = ?w5"
    by (simp add: close_ends_def)
  have n: "set_nonblock ?w5 = (True, ?w5)" using sc s0 by (simp add: set_nonblock_def)
  have r: "rounds ?w5 = rounds w" using M by simp
  note code = usb_responder_exec_shell_def [of command opts w, folded exec_start_state_def]
  show "usb_responder_exec_shell command opts w = (Blocked, w6\<lparr>rounds := rest\<rparr>)" if "lr = Blocked"
    using that lp by (simp add: code m p1 p2 f c n r del: sh_world.update_convs)
  show "\<exists>res w'. usb_responder_exec_shell command opts w = (Done (Some res), w')" if "lr = Done (True, st1)"
    using that lp by (simp add: code m p1 p2 f c n r split: prod.split del: sh_world.update_convs)
qed

section \<open>Properties\<close>

definition shell_world :: "sh_round list \<Rightarrow> sh_world" where
  "shell_world rds = \<lparr>long_bits = 64, strerr = (\<lambda>_. []), last_error = [], errno_val = EINTR,
     allocs = [], live = 0, wscript = [], sent = [], rscript = [], pscript = [],
     vfs = \<lparr>dents = [], inodes = (\<lambda>_. \<lparr>i_kind = Reg, i_data = [], i_mode = 0, i_uid = 0, i_gid = 0\<rparr>),
       next_ino = 0, self_uid = 0, self_gid = 0\<rparr>,
     streams = (\<lambda>_. None), next_stream = 0, faults = [], umask = 0x12, dir_end = 4096, mountinfo = None,
     statvfs_of = (\<lambda>_. None), pw_name = (\<lambda>_. None), gr_name = (\<lambda>_. None),
     clock = 0, ticks = [], setups = [], rounds = rds, spawned = [], signals = [], timeouts = [],
     read_log = [], pipe_ends = 0, children = 0\<rparr>"

lemma shell_world_simps [simp]:
  "setups (shell_world rds) = []" "allocs (shell_world rds) = []" "rounds (shell_world rds) = rds"
  "spawned (shell_world rds) = []" "signals (shell_world rds) = []" "timeouts (shell_world rds) = []"
  "live (shell_world rds) = 0" "pipe_ends (shell_world rds) = 0" "children (shell_world rds) = 0"
  "clock (shell_world rds) = 0" "ticks (shell_world rds) = []"
  by (simp_all add: shell_world_def)

definition echo_round :: sh_round where
  "echo_round = \<lparr>r_poll = PollRevents [hup], r_out = RData [104, 105, 10], r_err = RData [], r_wait = None\<rparr>"

definition short_opts :: shell_exec_options where
  "short_opts = \<lparr>opt_timeout_ms = 3000, opt_max_stdout = 2, opt_max_stderr = 2\<rparr>"

lemmas exec_eval = usb_responder_exec_shell_def monotonic_ms_def setup_call_def sys_pipe_def sys_fork_exec_def
  close_ends_def sys_killpg_def set_nonblock_def exec_round_def exec_deadline_def exec_poll_def exec_pfds_def
  exec_reap_def exec_read_def append_limited_def c_realloc.simps c_malloc.simps c_free_def zero_result_def
  poll_count_def revents_at_def no_revents_def hup_def Let_def

lemma shell_example:
  "\<exists>w'. usb_responder_exec_shell ''echo hi'' short_opts (shell_world [echo_round, closing_round (Exited 7)]) =
     (Done (Some \<lparr>sr_exit_code = 7, sr_timed_out = False, sr_duration_ms = 0, sr_stdout = [104, 105], sr_stderr = []\<rparr>), w')"
  by (simp add: exec_eval shell_world_def echo_round_def closing_round_def short_opts_def exec_loop.simps upt_rec)



text \<open>
  C31. A command leaks nothing. However the calls fail and whichever way a call of \<open>usb_responder_exec_shell\<close>
  returns, every pipe end it opened is closed, the child it started is reaped, and the only blocks left are the
  buffers of a successful result, one for each that is not empty; the file system, the streams, the endpoints and
  the last error are untouched.
\<close>

theorem shell_leaks_nothing:
  assumes "usb_responder_exec_shell command opts w = (Done r, w')"
  shows "pipe_ends w' = pipe_ends w \<and> children w' = children w \<and>
    live w' = live w + (case r of None \<Rightarrow> 0 | Some res \<Rightarrow> result_blocks res) \<and>
    vfs w' = vfs w \<and> streams w' = streams w \<and> sent w' = sent w \<and> last_error w' = last_error w"
  using exec_shell_spec [OF assms] by (auto simp: sh_keeps_def split: option.splits)

theorem shell_leaks_nothing_witness:
  "\<exists>r w'. usb_responder_exec_shell ''echo hi'' short_opts (shell_world [echo_round, closing_round (Exited 7)]) =
     (Done r, w') \<and> pipe_ends w' = 0 \<and> children w' = 0 \<and> live w' = 1"
proof -
  from shell_example obtain w' where
    run: "usb_responder_exec_shell ''echo hi'' short_opts (shell_world [echo_round, closing_round (Exited 7)]) =
      (Done (Some \<lparr>sr_exit_code = 7, sr_timed_out = False, sr_duration_ms = 0, sr_stdout = [104, 105], sr_stderr = []\<rparr>), w')"
    by blast
  from shell_leaks_nothing [OF run] have "pipe_ends w' = 0 \<and> children w' = 0 \<and> live w' = 1"
    by (simp add: result_blocks_def)
  with run show ?thesis by blast
qed



text \<open>
  C33. A command that ends is answered. If the child can be set up, memory does not run out and the calls of the loop fail
  at most with \<open>EAGAIN\<close> or \<open>EINTR\<close>, then the call returns a result as soon as the shell
  has ended and both pipes are at their end, after however many rounds.
\<close>

theorem shell_returns:
  assumes "setups w = []" "allocs w = []" and "rounds w = pre @ closing_round s # post" "list_all benign_round pre"
  shows "\<exists>res w'. usb_responder_exec_shell command opts w = (Done (Some res), w')"
proof -
  obtain start w0 where m: "monotonic_ms w = (start, w0)" by (metis surj_pair)
  have "allocs w0 = []" using assms(2) m by (auto simp: monotonic_ms_def Let_def)
  then obtain st' rest w6 where "exec_loop opts (start + ucast (opt_timeout_ms opts)) (rounds w) exec_start_state
      (w0\<lparr>pipe_ends := pipe_ends w + 2, spawned := spawned w @ [command], children := children w + 1\<rparr>) =
      (Done (True, st'), rest, w6)"
    using exec_loop_ends [OF assms(4), of "w0\<lparr>pipe_ends := pipe_ends w + 2, spawned := spawned w @ [command],
      children := children w + 1\<rparr>" opts "start + ucast (opt_timeout_ms opts)" s post exec_start_state]
    unfolding assms(3) by auto
  from exec_shell_started(2) [OF assms(1) m this] show ?thesis by blast
qed

theorem shell_returns_witness:
  "\<exists>res w'. usb_responder_exec_shell ''echo hi'' short_opts (shell_world ([echo_round] @ closing_round (Exited 7) # [])) =
     (Done (Some res), w')"
  by (rule shell_returns [of _ "[echo_round]" "Exited 7" "[]"])
    (simp_all add: benign_round_def echo_round_def)

text \<open>
  C34. The timeout stops with the shell. Once the shell itself has ended, the deadline is no longer looked at: as
  long as another process holds the output pipe open, the call goes on waiting, for any number of rounds and
  whatever the clock says, and sends no signal.
\<close>

theorem shell_timeout_needs_the_shell:
  assumes "setups w = []" and "ticks w = d # 0 # later" and "0 < opt_timeout_ms opts"
    and "clock w + d + unat (opt_timeout_ms opts) < 2 ^ 64"
    and "rounds w = idle_round\<lparr>r_wait := Some s\<rparr> # replicate n idle_round"
  shows "\<exists>w'. usb_responder_exec_shell command opts w = (Blocked, w') \<and> signals w' = signals w"
proof -
  let ?t = "clock w + d"
  obtain w0 where m: "monotonic_ms w = (of_nat ?t, w0)" and w0: "clock w0 = ?t" "ticks w0 = 0 # later" "signals w0 = signals w"
    using assms(2) by (simp add: monotonic_ms_def Let_def)
  let ?w5 = "w0\<lparr>pipe_ends := pipe_ends w + 2, spawned := spawned w @ [command], children := children w + 1\<rparr>"
  let ?dl = "of_nat ?t + ucast (opt_timeout_ms opts) :: u64"
  have pos: "0 < unat (opt_timeout_ms opts)" using assms(3) by (simp add: unat_gt_0)
  have b: "unat (ucast (opt_timeout_ms opts) :: u64) = unat (opt_timeout_ms opts)" 
  proof -
    have "unat (opt_timeout_ms opts) < 2 ^ 32" using unsigned_less [of "opt_timeout_ms opts"] by simp
    then show ?thesis by (simp add: unsigned_ucast_eq take_bit_nat_eq_self)
  qed
  have t: "unat (of_nat ?t :: u64) = ?t" using assms(4) by (simp add: unsigned_of_nat take_bit_nat_eq_self del: of_nat_add)
  have "unat ?dl = ?t + unat (opt_timeout_ms opts)"
    unfolding unat_word_ariths t b using assms(4) by (simp del: of_nat_add)
  then have early: "\<not> ?dl \<le> of_nat ?t" using pos t by (simp add: word_le_nat_alt)
  let ?w1 = "?w5\<lparr>clock := ?t, ticks := later\<rparr>"
  obtain k st1 w1 where r: "exec_round opts ?dl (idle_round\<lparr>r_wait := Some s\<rparr>) exec_start_state ?w5 = (True, st1, w1)"
      and st1: "\<not> child_running st1" "out_open st1" and w1: "signals w1 = signals w"
    using early w0 by (simp add: exec_round_def exec_deadline_def monotonic_ms_def exec_start_state_def exec_poll_def
        exec_pfds_def idle_round_def poll_count_def exec_reap_def Let_def)
  obtain w6 where "exec_loop opts ?dl (replicate n idle_round) st1 w1 = (Blocked, [], w6)" "signals w6 = signals w1"
    using exec_loop_idle [OF st1] by blast
  then have "exec_loop opts ?dl (rounds w) exec_start_state ?w5 = (Blocked, [], w6)"
    using r unfolding assms(5) by (subst exec_loop.simps) (simp add: exec_start_state_def)
  from exec_shell_started(1) [OF assms(1) m this refl] show ?thesis
    using \<open>signals w6 = signals w1\<close> w1 by simp
qed

theorem shell_timeout_needs_the_shell_witness:
  "\<exists>w'. usb_responder_exec_shell ''sleep 99 &'' short_opts
     ((shell_world (idle_round\<lparr>r_wait := Some (Exited 0)\<rparr> # replicate 3 idle_round))\<lparr>ticks := [0, 0, 5000, 5000]\<rparr>) = (Blocked, w') \<and>
     signals w' = []"
  using shell_timeout_needs_the_shell [of "(shell_world (idle_round\<lparr>r_wait := Some (Exited 0)\<rparr> # replicate 3 idle_round))
      \<lparr>ticks := [0, 0, 5000, 5000]\<rparr>" 0 "[5000, 5000]" short_opts "Exited 0" 3 "''sleep 99 &''"]
  by (simp add: short_opts_def)

end
