(* ===== verification/Handlers.thy ===== *)
theory Handlers
  imports Receive Kv Commands File_Tree Shell_Exec
begin

text \<open>
  The requests of the host (\<open>src/responder.c\<close>): the message types, the replies and one handler per
  request, up to the dispatcher \<open>handle_frame\<close>. A handler decodes the payload, calls the operation
  modelled in the other theories, releases what it decoded and sends one reply. Only a command and
  the device information start a process, and only they may wait for ever (\<open>Blocked\<close>).
\<close>

section \<open>Message types\<close>

datatype msg =
    MSG_HELLO | MSG_STATUS | MSG_ERROR | MSG_FILE_PUT_BEGIN | MSG_FILE_PUT_CHUNK | MSG_FILE_PUT_END
  | MSG_FILE_GET | MSG_FILE_LIST | MSG_FILE_DELETE | MSG_FILE_RENAME | MSG_FILE_MKDIR | MSG_FILE_STAT
  | MSG_COMMAND_EXEC | MSG_COMMAND_RESULT | MSG_DEVINFO

definition msg_table :: "(msg \<times> u16) list" where
  "msg_table =
     [(MSG_HELLO, 1), (MSG_STATUS, 2), (MSG_ERROR, 3), (MSG_FILE_PUT_BEGIN, 10), (MSG_FILE_PUT_CHUNK, 11),
      (MSG_FILE_PUT_END, 12), (MSG_FILE_GET, 13), (MSG_FILE_LIST, 14), (MSG_FILE_DELETE, 15), (MSG_FILE_RENAME, 16),
      (MSG_FILE_MKDIR, 17), (MSG_FILE_STAT, 18), (MSG_COMMAND_EXEC, 20), (MSG_COMMAND_RESULT, 21), (MSG_DEVINFO, 30)]"

fun msg_code :: "msg \<Rightarrow> u16" where
  "msg_code MSG_HELLO = 1" | "msg_code MSG_STATUS = 2" | "msg_code MSG_ERROR = 3"
| "msg_code MSG_FILE_PUT_BEGIN = 10" | "msg_code MSG_FILE_PUT_CHUNK = 11" | "msg_code MSG_FILE_PUT_END = 12"
| "msg_code MSG_FILE_GET = 13" | "msg_code MSG_FILE_LIST = 14" | "msg_code MSG_FILE_DELETE = 15"
| "msg_code MSG_FILE_RENAME = 16" | "msg_code MSG_FILE_MKDIR = 17" | "msg_code MSG_FILE_STAT = 18"
| "msg_code MSG_COMMAND_EXEC = 20" | "msg_code MSG_COMMAND_RESULT = 21" | "msg_code MSG_DEVINFO = 30"

text \<open>The cases of a \<open>switch\<close> over the type field; other numbers go to the default.\<close>

definition msg_of :: "u16 \<Rightarrow> msg option" where
  "msg_of c = map_option fst (List.find (\<lambda>e. snd e = c) msg_table)"

definition msg_type_name :: "u16 \<Rightarrow> string" where
  "msg_type_name c =
     (case msg_of c of
        Some MSG_HELLO \<Rightarrow> ''HELLO'' | Some MSG_STATUS \<Rightarrow> ''STATUS'' | Some MSG_ERROR \<Rightarrow> ''ERROR''
      | Some MSG_FILE_PUT_BEGIN \<Rightarrow> ''FILE_PUT_BEGIN'' | Some MSG_FILE_PUT_CHUNK \<Rightarrow> ''FILE_PUT_CHUNK''
      | Some MSG_FILE_PUT_END \<Rightarrow> ''FILE_PUT_END'' | Some MSG_FILE_GET \<Rightarrow> ''FILE_GET''
      | Some MSG_FILE_LIST \<Rightarrow> ''FILE_LIST'' | Some MSG_FILE_DELETE \<Rightarrow> ''FILE_DELETE''
      | Some MSG_FILE_RENAME \<Rightarrow> ''FILE_RENAME'' | Some MSG_FILE_MKDIR \<Rightarrow> ''FILE_MKDIR''
      | Some MSG_FILE_STAT \<Rightarrow> ''FILE_STAT'' | Some MSG_COMMAND_EXEC \<Rightarrow> ''COMMAND_EXEC''
      | Some MSG_COMMAND_RESULT \<Rightarrow> ''COMMAND_RESULT'' | Some MSG_DEVINFO \<Rightarrow> ''DEVINFO''
      | None \<Rightarrow> ''UNKNOWN'')"

lemma msg_of_code [simp]: "msg_of (msg_code m) = Some m"
  by (cases m) (simp_all add: msg_of_def msg_table_def)

section \<open>Replies\<close>

definition kv_pair :: "string \<Rightarrow> string \<Rightarrow> kv" where
  "kv_pair k v = \<lparr>kv_key = Some k, kv_value = Some v\<rparr>"

definition reply_frame :: "msg \<Rightarrow> u32 \<Rightarrow> byte list option \<Rightarrow> nat \<Rightarrow> frame" where
  "reply_frame m req_id p n =
     \<lparr>header = zero_header\<lparr>msg_type := msg_code m, request_id := req_id, payload_len := of_nat n\<rparr>, payload = p\<rparr>"

definition send_kv_response ::
  "responder_runtime \<Rightarrow> msg \<Rightarrow> u32 \<Rightarrow> kv list \<Rightarrow> 'a io_world_scheme \<Rightarrow> bool \<times> 'a io_world_scheme" where
  "send_kv_response rt m req_id kvs w =
     (case usb_responder_protocol_encode_kv kvs w of
        (Inl e, w1) \<Rightarrow> (False, w1)
      | (Inr data, w1) \<Rightarrow>
          (case usb_responder_protocol_write_frame (ep_in_fd rt) (reply_frame m req_id (Some data) (length data)) w1 of
             (ok, w2) \<Rightarrow> (ok, c_free True w2)))"

definition send_error ::
  "responder_runtime \<Rightarrow> u32 \<Rightarrow> string \<Rightarrow> 'a io_world_scheme \<Rightarrow> bool \<times> 'a io_world_scheme" where
  "send_error rt req_id text w = send_kv_response rt MSG_ERROR req_id [kv_pair ''message'' text] w"

definition send_last_error ::
  "responder_runtime \<Rightarrow> u32 \<Rightarrow> string \<Rightarrow> 'a io_world_scheme \<Rightarrow> bool \<times> 'a io_world_scheme" where
  "send_last_error rt req_id prefix w =
     send_error rt req_id
       (if last_error w \<noteq> [] then snprintf_buf 512 (prefix @ '': '' @ last_error w) else snprintf_buf 512 prefix) w"

fun kv_get :: "kv list \<Rightarrow> string \<Rightarrow> string option" where
  "kv_get [] key = None"
| "kv_get (it # its) key = (if strcmp_eq (kv_text (kv_key it)) key then kv_value it else kv_get its key)"

definition status_ok :: "kv list" where
  "status_ok = [kv_pair ''status'' ''ok'']"

section \<open>File requests\<close>

text \<open>The first lines of every handler whose payload is a list of key-value items.\<close>

definition with_kvs ::
  "responder_runtime \<Rightarrow> frame \<Rightarrow> (kv list \<Rightarrow> 'a io_world_scheme \<Rightarrow> bool \<times> 'a io_world_scheme) \<Rightarrow>
   'a io_world_scheme \<Rightarrow> bool \<times> 'a io_world_scheme" where
  "with_kvs rt inp body w =
     (case usb_responder_protocol_decode_kv (payload inp) (unat (payload_len (header inp))) USB_RESPONDER_MAX_KV w of
        (Inl e, w1) \<Rightarrow> send_error rt (request_id (header inp)) ''invalid kv payload'' w1
      | (Inr kvs, w1) \<Rightarrow> body kvs w1)"

definition put_begin ::
  "responder_runtime \<Rightarrow> u32 \<Rightarrow> kv list \<Rightarrow> 'a fs_world_scheme \<Rightarrow> bool \<times> responder_runtime \<times> 'a fs_world_scheme" where
  "put_begin rt req kvs w =
     (case kv_get kvs ''path'' of
        None \<Rightarrow>
          (case send_error rt req ''missing path'' (usb_responder_protocol_kv_free kvs w) of
             (ok, w1) \<Rightarrow> (ok, rt, w1))
      | Some path \<Rightarrow>
          (case usb_responder_file_begin_upload (files rt) req (Some path) (kv_get kvs ''desire_storage'')
                  (kv_get kvs ''perm'') w of
             (False, ops, w1) \<Rightarrow>
               (case send_last_error rt req ''begin upload failed'' (usb_responder_protocol_kv_free kvs w1) of
                  (ok, w2) \<Rightarrow> (ok, rt\<lparr>files := ops\<rparr>, w2))
           | (True, ops, w1) \<Rightarrow>
               (case send_kv_response rt MSG_STATUS req (status_ok @ [kv_pair ''transfer_id'' ''request_id''])
                       (usb_responder_protocol_kv_free kvs w1) of
                  (ok, w2) \<Rightarrow> (ok, rt\<lparr>files := ops\<rparr>, w2))))"

definition handle_file_put_begin ::
  "responder_runtime \<Rightarrow> frame \<Rightarrow> 'a fs_world_scheme \<Rightarrow> bool \<times> responder_runtime \<times> 'a fs_world_scheme" where
  "handle_file_put_begin rt inp w =
     (case usb_responder_protocol_decode_kv (payload inp) (unat (payload_len (header inp))) USB_RESPONDER_MAX_KV w of
        (Inl e, w1) \<Rightarrow>
          (case send_error rt (request_id (header inp)) ''invalid kv payload'' w1 of (ok, w2) \<Rightarrow> (ok, rt, w2))
      | (Inr kvs, w1) \<Rightarrow> put_begin rt (request_id (header inp)) kvs w1)"

text \<open>
  The transfer id of a chunk or of an end is the first word of the payload, if there is one. A word
  that is not there would be a read outside the payload; then no reply is sent.
\<close>

definition upload_id :: "frame \<Rightarrow> u32 option" where
  "upload_id inp =
     (if 4 \<le> payload_len (header inp) then
        (case payload inp of None \<Rightarrow> None | Some d \<Rightarrow> to_option (read_le32 d 0))
      else Some (request_id (header inp)))"

definition upload_status ::
  "responder_runtime \<Rightarrow> u32 \<Rightarrow> string \<Rightarrow> bool \<times> file_ops \<times> 'a io_world_scheme \<Rightarrow>
   bool \<times> responder_runtime \<times> 'a io_world_scheme" where
  "upload_status rt req failure r =
     (case r of
        (False, ops, w) \<Rightarrow> (case send_last_error rt req failure w of (ok, w1) \<Rightarrow> (ok, rt\<lparr>files := ops\<rparr>, w1))
      | (True, ops, w) \<Rightarrow>
          (case send_kv_response rt MSG_STATUS req status_ok w of (ok, w1) \<Rightarrow> (ok, rt\<lparr>files := ops\<rparr>, w1)))"

definition handle_file_put_chunk ::
  "responder_runtime \<Rightarrow> frame \<Rightarrow> 'a fs_world_scheme \<Rightarrow> bool \<times> responder_runtime \<times> 'a fs_world_scheme" where
  "handle_file_put_chunk rt inp w =
     (case upload_id inp of
        None \<Rightarrow> (False, rt, w)
      | Some tid \<Rightarrow>
          let chunk = (if 4 \<le> payload_len (header inp) then map_option (drop 4) (payload inp) else payload inp)
          in upload_status rt (request_id (header inp)) ''append upload failed''
               (usb_responder_file_append_upload_chunk (files rt) tid chunk w))"

definition handle_file_put_end ::
  "responder_runtime \<Rightarrow> frame \<Rightarrow> 'a fs_world_scheme \<Rightarrow> bool \<times> responder_runtime \<times> 'a fs_world_scheme" where
  "handle_file_put_end rt inp w =
     (case upload_id inp of
        None \<Rightarrow> (False, rt, w)
      | Some tid \<Rightarrow>
          upload_status rt (request_id (header inp)) ''finish upload failed''
            (usb_responder_file_finish_upload (files rt) tid w))"

definition handle_file_get ::
  "responder_runtime \<Rightarrow> frame \<Rightarrow> 'a fs_world_scheme \<Rightarrow> bool \<times> 'a fs_world_scheme" where
  "handle_file_get rt inp =
     (let req = request_id (header inp)
      in with_kvs rt inp (\<lambda>kvs w.
           case kv_get kvs ''path'' of
             None \<Rightarrow> send_error rt req ''missing path'' (usb_responder_protocol_kv_free kvs w)
           | Some path \<Rightarrow>
               (case usb_responder_file_read (Some path) w of
                  (None, w1) \<Rightarrow> send_error rt req ''read file failed'' (usb_responder_protocol_kv_free kvs w1)
                | (Some (data, nonnull), w1) \<Rightarrow>
                    if 2 ^ 32 \<le> length data then
                      send_error rt req ''file too large'' (usb_responder_protocol_kv_free kvs (c_free nonnull w1))
                    else
                      (case usb_responder_protocol_write_frame (ep_in_fd rt)
                              (reply_frame MSG_FILE_GET req (if nonnull then Some data else None) (length data))
                              (usb_responder_protocol_kv_free kvs w1) of
                         (ok, w2) \<Rightarrow> (ok, c_free nonnull w2)))))"

definition handle_file_list ::
  "responder_runtime \<Rightarrow> frame \<Rightarrow> 'a fs_world_scheme \<Rightarrow> bool \<times> 'a fs_world_scheme" where
  "handle_file_list rt inp =
     (let req = request_id (header inp)
      in with_kvs rt inp (\<lambda>kvs w.
           case usb_responder_file_list (Some (case kv_get kvs ''path'' of None \<Rightarrow> ''.'' | Some p \<Rightarrow> p)) w of
             (Inl e, w1) \<Rightarrow> send_last_error rt req ''list failed'' (usb_responder_protocol_kv_free kvs w1)
           | (Inr (file_list, dir_list), w1) \<Rightarrow>
               (case send_kv_response rt MSG_STATUS req [kv_pair ''files'' file_list, kv_pair ''dirs'' dir_list]
                       (usb_responder_protocol_kv_free kvs w1) of
                  (ok, w2) \<Rightarrow> (ok, c_free True (c_free True w2)))))"

definition tree_status ::
  "responder_runtime \<Rightarrow> u32 \<Rightarrow> string \<Rightarrow> kv list \<Rightarrow> bool \<times> 'a io_world_scheme \<Rightarrow> bool \<times> 'a io_world_scheme" where
  "tree_status rt req failure kvs r =
     (case r of
        (False, w) \<Rightarrow> send_last_error rt req failure (usb_responder_protocol_kv_free kvs w)
      | (True, w) \<Rightarrow> send_kv_response rt MSG_STATUS req status_ok (usb_responder_protocol_kv_free kvs w))"

definition handle_file_delete ::
  "responder_runtime \<Rightarrow> frame \<Rightarrow> 'a fs_world_scheme \<Rightarrow> bool \<times> 'a fs_world_scheme" where
  "handle_file_delete rt inp =
     with_kvs rt inp (\<lambda>kvs w.
       tree_status rt (request_id (header inp)) ''delete failed'' kvs
         (case kv_get kvs ''path'' of
            None \<Rightarrow> (False, w)
          | Some path \<Rightarrow> usb_responder_file_delete (Some path) (kv_get kvs ''desire_storage'') w))"

definition handle_file_rename ::
  "responder_runtime \<Rightarrow> frame \<Rightarrow> 'a fs_world_scheme \<Rightarrow> bool \<times> 'a fs_world_scheme" where
  "handle_file_rename rt inp =
     with_kvs rt inp (\<lambda>kvs w.
       tree_status rt (request_id (header inp)) ''rename failed'' kvs
         (case (kv_get kvs ''from'', kv_get kvs ''to'') of
            (Some src, Some dst) \<Rightarrow>
              usb_responder_file_rename (Some src) (Some dst) (kv_get kvs ''desire_storage'') w
          | _ \<Rightarrow> (False, w)))"

definition c_tolower :: "char \<Rightarrow> char" where
  "c_tolower c = (let n = of_char c :: nat in if 65 \<le> n \<and> n \<le> 90 then char_of (n + 32) else c)"

definition strcasecmp_eq :: "string \<Rightarrow> string \<Rightarrow> bool" where
  "strcasecmp_eq a b \<longleftrightarrow> map c_tolower (c_str a) = map c_tolower (c_str b)"

definition wants_parents :: "string option \<Rightarrow> bool" where
  "wants_parents v =
     (case v of None \<Rightarrow> False | Some s \<Rightarrow> strcmp_eq s ''1'' \<or> strcasecmp_eq s ''true'' \<or> strcasecmp_eq s ''yes'')"

definition handle_file_mkdir ::
  "responder_runtime \<Rightarrow> frame \<Rightarrow> 'a fs_world_scheme \<Rightarrow> bool \<times> 'a fs_world_scheme" where
  "handle_file_mkdir rt inp =
     with_kvs rt inp (\<lambda>kvs w.
       tree_status rt (request_id (header inp)) ''mkdir failed'' kvs
         (case kv_get kvs ''path'' of
            None \<Rightarrow> (False, w)
          | Some path \<Rightarrow>
              usb_responder_dir_mkdir (Some path) (wants_parents (kv_get kvs ''parents'')) (kv_get kvs ''desire_storage'') w))"

definition handle_file_stat ::
  "responder_runtime \<Rightarrow> frame \<Rightarrow> 'a fs_world_scheme \<Rightarrow> bool \<times> 'a fs_world_scheme" where
  "handle_file_stat rt inp =
     (let req = request_id (header inp)
      in with_kvs rt inp (\<lambda>kvs w.
           case (case kv_get kvs ''path'' of None \<Rightarrow> (None, w) | Some path \<Rightarrow> usb_responder_file_stat (Some path) w) of
             (None, w1) \<Rightarrow> send_last_error rt req ''stat failed'' (usb_responder_protocol_kv_free kvs w1)
           | (Some st, w1) \<Rightarrow>
               send_kv_response rt MSG_STATUS req
                 [kv_pair ''owner'' (si_owner st), kv_pair ''perm'' (si_perm st), kv_pair ''size'' (si_size st),
                  kv_pair ''type'' (si_type st)] (usb_responder_protocol_kv_free kvs w1)))"

section \<open>Device information\<close>

text \<open>What the requests and the event loop see beyond the file system and the processes.\<close>

datatype ep0_event = BIND | UNBIND | ENABLE | DISABLE | SETUP | SUSPEND | RESUME | OTHER_EVENT

datatype ep0_read = Ep0Fail errno | Ep0Odd | Ep0Events "ep0_event list"

record rt_world = sh_world +
  un_release :: string
  ep0_reads :: "ep0_read list"
  opens :: "bool list"
  next_fd :: nat
  fds :: "int list"

text \<open>\<open>fread\<close> of \<open>want\<close> bytes at a position; a fault makes it short.\<close>

definition c_fread_at :: "inode \<Rightarrow> nat \<Rightarrow> nat \<Rightarrow> 'a fs_world_scheme \<Rightarrow> byte list \<times> 'a fs_world_scheme" where
  "c_fread_at f pos want w =
     (let d = (if i_kind f = Dir then [] else take want (drop pos (i_data f)))
      in case next_fault w of
           (Some (e, k), w1) \<Rightarrow> (take k d, w1\<lparr>errno_val := e\<rparr>)
         | (None, w1) \<Rightarrow> (d, if i_kind f = Dir then w1\<lparr>errno_val := EISDIR\<rparr> else w1))"

lemma length_c_fread_at: "length (fst (c_fread_at f pos want w)) \<le> want"
  by (auto simp: c_fread_at_def Let_def split: prod.splits option.splits)

text \<open>
  The loop of \<open>read_text_file\<close>: \<open>buf\<close> holds the \<open>used\<close> bytes of a block of \<open>cap\<close>; \<open>None\<close> is a failed
  \<open>realloc\<close>, after which the block is released.
\<close>

function text_loop ::
  "inode \<Rightarrow> nat \<Rightarrow> nat \<Rightarrow> byte list \<Rightarrow> 'a fs_world_scheme \<Rightarrow> byte list option \<times> 'a fs_world_scheme" where
  "text_loop f max_bytes cap buf w =
     (let full = cap \<le> length buf + 1;
          new_cap = (if full then min (cap * 2) (max_bytes + 1) else cap)
      in if full \<and> new_cap = cap then (Some buf, w)
         else case (if full then c_realloc True w else (True, w)) of
           (ok, w1) \<Rightarrow>
             if \<not> ok then (None, c_free True w1)
             else
               let want = new_cap - 1 - length buf; r = c_fread_at f (length buf) want w1
               in if length (fst r) < want \<or> max_bytes \<le> length buf + length (fst r) then (Some (buf @ fst r), snd r)
                  else text_loop f max_bytes new_cap (buf @ fst r) (snd r))"
  by pat_completeness auto
termination
proof (relation "measure (\<lambda>(f, mx, cap, buf, w). (mx - length buf) + (if cap \<le> mx + 1 then mx + 1 - cap else mx + 2))", goal_cases)
  case 1
  then show ?case by simp
next
  case (2 f mx cap buf w full new_cap ok w1 want r)
  have len: "length (fst r) = want" "length buf + want < mx"
    using 2 length_c_fread_at [of f "length buf" want w1] by auto
  show ?case
  proof (cases full)
    case True
    then have "new_cap \<noteq> cap" "new_cap \<le> mx + 1" "new_cap = min (cap * 2) (mx + 1)" using 2 by auto
    then show ?thesis using len by (auto simp: min_def split: if_splits)
  next
    case False
    then have "0 < want" "new_cap = cap" using 2 by auto
    then show ?thesis using len by auto
  qed
qed

declare text_loop.simps [simp del]

definition is_trim_char :: "char \<Rightarrow> bool" where
  "is_trim_char c \<longleftrightarrow> c = CHR 0x0A \<or> c = CHR 0x0D \<or> c = CHR '' '' \<or> c = CHR 0x09"

definition trim_end :: "string \<Rightarrow> string" where
  "trim_end s = rev (dropWhile is_trim_char (rev s))"

definition read_text_file :: "string \<Rightarrow> nat \<Rightarrow> 'a fs_world_scheme \<Rightarrow> string option \<times> 'a fs_world_scheme" where
  "read_text_file path max_bytes w =
     (case c_fopen_rb path w of
        (None, w1) \<Rightarrow> (None, w1)
      | (Some f, w1) \<Rightarrow>
          (case c_malloc w1 of
             (False, w2) \<Rightarrow> (None, w2)
           | (True, w2) \<Rightarrow>
               (case text_loop f max_bytes 1024 [] w2 of
                  (None, w3) \<Rightarrow> (None, w3)
                | (Some buf, w3) \<Rightarrow> (Some (trim_end (c_str (chars_of buf))), w3))))"

definition exec_capture_trim ::
  "string \<Rightarrow> u32 \<Rightarrow> 'a sh_world_scheme \<Rightarrow> (string option) io \<times> 'a sh_world_scheme" where
  "exec_capture_trim cmdline timeout w =
     (case usb_responder_exec_shell cmdline \<lparr>opt_timeout_ms = timeout, opt_max_stdout = 4096, opt_max_stderr = 4096\<rparr> w of
        (Blocked, w1) \<Rightarrow> (Blocked, w1)
      | (Done None, w1) \<Rightarrow> (Done None, w1)
      | (Done (Some r), w1) \<Rightarrow>
          if sr_timed_out r \<or> sr_exit_code r \<noteq> 0 then (Done None, snd (usb_responder_shell_exec_result_free r w1))
          else (case c_malloc w1 of
                  (False, w2) \<Rightarrow> (Done None, snd (usb_responder_shell_exec_result_free r w2))
                | (True, w2) \<Rightarrow>
                    (Done (Some (trim_end (chars_of (sr_stdout r)))), snd (usb_responder_shell_exec_result_free r w2))))"

text \<open>A text that could not be read is replaced by \<open>strdup("")\<close>, which may fail too.\<close>

definition or_strdup :: "string option \<Rightarrow> 'a io_world_scheme \<Rightarrow> string option \<times> 'a io_world_scheme" where
  "or_strdup t w =
     (case t of
        Some s \<Rightarrow> (Some s, w)
      | None \<Rightarrow> (case c_malloc w of (ok, w1) \<Rightarrow> (if ok then Some [] else None, w1)))"

definition text_or_empty :: "string option \<Rightarrow> string" where
  "text_or_empty t = (case t of None \<Rightarrow> [] | Some s \<Rightarrow> s)"

definition devinfo_items :: "string \<Rightarrow> string \<Rightarrow> string \<Rightarrow> string \<Rightarrow> storage_info \<Rightarrow> kv list" where
  "devinfo_items model rel rootfs app st =
     [kv_pair ''model'' model, kv_pair ''kernel'' (snprintf_buf 128 (c_str rel)), kv_pair ''rootfs'' rootfs, kv_pair ''app'' app,
      kv_pair ''sd_mounted'' (if sd_mounted st then ''1'' else ''0''),
      kv_pair ''nand_total_bytes'' (snprintf_buf 32 (show_dec (unat (nand_total_bytes st)))),
      kv_pair ''nand_free_bytes'' (snprintf_buf 32 (show_dec (unat (nand_free_bytes st)))),
      kv_pair ''sd_total_bytes'' (snprintf_buf 32 (show_dec (unat (sd_total_bytes st)))),
      kv_pair ''sd_free_bytes'' (snprintf_buf 32 (show_dec (unat (sd_free_bytes st))))]"

definition handle_devinfo ::
  "responder_runtime \<Rightarrow> frame \<Rightarrow> 'a rt_world_scheme \<Rightarrow> bool io \<times> 'a rt_world_scheme" where
  "handle_devinfo rt inp w =
     (case read_text_file ''/proc/device-tree/model'' 4096 w of
        (m, w1) \<Rightarrow>
      case or_strdup m w1 of
        (model, w2) \<Rightarrow>
      case plain_call w2 of
        (named, w3) \<Rightarrow>
      case read_text_file ''/etc/os-release'' 8192 w3 of
        (rf, w4) \<Rightarrow>
      case or_strdup rf w4 of
        (rootfs, w5) \<Rightarrow>
      case exec_capture_trim ''/root/epass_drm_app version'' 3000 w5 of
        (Blocked, w6) \<Rightarrow> (Blocked, w6)
      | (Done a, w6) \<Rightarrow>
      case or_strdup a w6 of
        (app, w7) \<Rightarrow>
      case usb_responder_storage_info_read w7 of
        (st, w8) \<Rightarrow>
      case send_kv_response rt MSG_DEVINFO (request_id (header inp))
             (devinfo_items (text_or_empty model) (if named then un_release w8 else []) (text_or_empty rootfs)
                (text_or_empty app) st) w8 of
        (ok, w9) \<Rightarrow> (Done ok, c_free (app \<noteq> None) (c_free (rootfs \<noteq> None) (c_free (model \<noteq> None) w9))))"

section \<open>Commands\<close>

definition exec_options :: "responder_runtime \<Rightarrow> command_request \<Rightarrow> shell_exec_options" where
  "exec_options rt req =
     \<lparr>opt_timeout_ms = (if req_timeout_ms req \<noteq> 0 then req_timeout_ms req else default_timeout_ms (cfg rt)),
      opt_max_stdout = (if req_max_stdout req \<noteq> 0 then req_max_stdout req else cfg_max_stdout (cfg rt)),
      opt_max_stderr = (if req_max_stderr req \<noteq> 0 then req_max_stderr req else cfg_max_stderr (cfg rt))\<rparr>"

definition result_of_shell :: "shell_exec_result \<Rightarrow> command_result" where
  "result_of_shell r =
     \<lparr>res_exit_code = sr_exit_code r, res_timed_out = sr_timed_out r, res_duration_ms = sr_duration_ms r,
      res_stdout = sr_stdout r, res_stderr = sr_stderr r\<rparr>"

definition send_command_result ::
  "responder_runtime \<Rightarrow> u32 \<Rightarrow> shell_exec_result \<Rightarrow> 'a io_world_scheme \<Rightarrow> bool \<times> 'a io_world_scheme" where
  "send_command_result rt req r w =
     (case usb_responder_protocol_encode_command_result (result_of_shell r) w of
        (Inl e, w1) \<Rightarrow>
          send_error rt req ''encode command result failed'' (snd (usb_responder_shell_exec_result_free r w1))
      | (Inr data, w1) \<Rightarrow>
          if 2 ^ 32 \<le> length data then
            send_error rt req ''command result too large''
              (snd (usb_responder_shell_exec_result_free r (c_free True w1)))
          else
            (case usb_responder_protocol_write_frame (ep_in_fd rt)
                    (reply_frame MSG_COMMAND_RESULT req (Some data) (length data)) w1 of
               (ok, w2) \<Rightarrow> (ok, snd (usb_responder_shell_exec_result_free r (c_free True w2)))))"

definition handle_command_exec ::
  "responder_runtime \<Rightarrow> frame \<Rightarrow> 'a sh_world_scheme \<Rightarrow> bool io \<times> 'a sh_world_scheme" where
  "handle_command_exec rt inp w =
     (let id = request_id (header inp)
      in case usb_responder_protocol_decode_command_request (payload inp) (unat (payload_len (header inp))) w of
           (Inl e, w1) \<Rightarrow> (case send_error rt id ''invalid command payload'' w1 of (ok, w2) \<Rightarrow> (Done ok, w2))
         | (Inr req, w1) \<Rightarrow>
             (case usb_responder_exec_shell (c_str (text_or_empty (req_command req))) (exec_options rt req) w1 of
                (Blocked, w2) \<Rightarrow> (Blocked, w2)
              | (Done None, w2) \<Rightarrow>
                  (case send_error rt id ''shell exec failed'' (usb_responder_protocol_command_request_free req w2) of
                     (ok, w3) \<Rightarrow> (Done ok, w3))
              | (Done (Some r), w2) \<Rightarrow>
                  (case send_command_result rt id r (usb_responder_protocol_command_request_free req w2) of
                     (ok, w3) \<Rightarrow> (Done ok, w3))))"

section \<open>The dispatcher\<close>

definition pure_reply ::
  "responder_runtime \<Rightarrow> bool \<times> 'a io_world_scheme \<Rightarrow> (bool \<times> responder_runtime) io \<times> 'a io_world_scheme" where
  "pure_reply rt r = (case r of (ok, w) \<Rightarrow> (Done (ok, rt), w))"

definition io_reply ::
  "responder_runtime \<Rightarrow> bool io \<times> 'a io_world_scheme \<Rightarrow> (bool \<times> responder_runtime) io \<times> 'a io_world_scheme" where
  "io_reply rt r = (case r of (Blocked, w) \<Rightarrow> (Blocked, w) | (Done ok, w) \<Rightarrow> (Done (ok, rt), w))"

definition upload_reply ::
  "bool \<times> responder_runtime \<times> 'a io_world_scheme \<Rightarrow> (bool \<times> responder_runtime) io \<times> 'a io_world_scheme" where
  "upload_reply r = (case r of (ok, rt, w) \<Rightarrow> (Done (ok, rt), w))"

definition handle_frame ::
  "responder_runtime \<Rightarrow> frame \<Rightarrow> 'a rt_world_scheme \<Rightarrow> (bool \<times> responder_runtime) io \<times> 'a rt_world_scheme" where
  "handle_frame rt inp w =
     (let req = request_id (header inp)
      in case msg_of (msg_type (header inp)) of
           Some MSG_HELLO \<Rightarrow>
             pure_reply rt (send_kv_response rt MSG_STATUS req
               [kv_pair ''service'' ''usb_responder'', kv_pair ''version'' ''1''] w)
         | Some MSG_FILE_PUT_BEGIN \<Rightarrow> upload_reply (handle_file_put_begin rt inp w)
         | Some MSG_FILE_PUT_CHUNK \<Rightarrow> upload_reply (handle_file_put_chunk rt inp w)
         | Some MSG_FILE_PUT_END \<Rightarrow> upload_reply (handle_file_put_end rt inp w)
         | Some MSG_FILE_GET \<Rightarrow> pure_reply rt (handle_file_get rt inp w)
         | Some MSG_FILE_LIST \<Rightarrow> pure_reply rt (handle_file_list rt inp w)
         | Some MSG_FILE_DELETE \<Rightarrow> pure_reply rt (handle_file_delete rt inp w)
         | Some MSG_FILE_RENAME \<Rightarrow> pure_reply rt (handle_file_rename rt inp w)
         | Some MSG_FILE_MKDIR \<Rightarrow> pure_reply rt (handle_file_mkdir rt inp w)
         | Some MSG_FILE_STAT \<Rightarrow> pure_reply rt (handle_file_stat rt inp w)
         | Some MSG_COMMAND_EXEC \<Rightarrow> io_reply rt (handle_command_exec rt inp w)
         | Some MSG_DEVINFO \<Rightarrow> io_reply rt (handle_devinfo rt inp w)
         | _ \<Rightarrow> pure_reply rt (send_error rt req ''unsupported message type'' w))"

end
