(* ===== verification/Replies.thy ===== *)
theory Replies
  imports Handlers
begin

text \<open>
  What the handlers promise. \<open>acted\<close> is what an operation leaves alone outside the file system,
  \<open>replied\<close> what a reply puts on the wire; each handler is a sequence of the one kind followed by the
  other, and the dispatcher inherits the contract: one well-formed reply with the id of the
  request, nothing else sent, and the heap balanced.
\<close>

section \<open>Sending with a willing endpoint\<close>

lemma write_full_calm:
  "wscript w = [] \<Longrightarrow> \<exists>w'. usb_responder_write_full fd data w = (True, w') \<and> wscript w' = []"
  by (cases "data = []") (simp_all add: usb_responder_write_full.simps [of fd data] sys_write_idle)

lemma write_chunks_calm: "wscript w = [] \<Longrightarrow> \<exists>w'. write_chunks fd data w = (True, w') \<and> wscript w' = []"
proof (induction fd data w rule: write_chunks.induct)
  case (1 fd data w)
  show ?case
  proof (cases "data = []")
    case True
    then show ?thesis using "1.prems" by (simp add: write_chunks.simps [of fd "[]"])
  next
    case False
    define n where "n = (if 16384 < length data then 16384 else length data)"
    obtain w1 where w1: "usb_responder_write_full fd (take n data) w = (True, w1)" "wscript w1 = []"
      using write_full_calm [OF "1.prems"] by blast
    from "1.IH" [OF False n_def w1(1) [symmetric] refl w1(2)] obtain w2 where
      "write_chunks fd (drop n data) w1 = (True, w2)" "wscript w2 = []" by blast
    then show ?thesis using False w1(1) by (simp add: write_chunks.simps [of fd data w] n_def Let_def)
  qed
qed

lemma write_limited_calm: "wscript w = [] \<Longrightarrow> \<exists>w'. write_limited fd data w = (True, w') \<and> wscript w' = []"
proof -
  assume "wscript w = []"
  then obtain w1 where w1: "write_chunks fd data w = (True, w1)" "wscript w1 = []" using write_chunks_calm by blast
  then have "\<exists>w2. usb_responder_write_zlp fd w1 = (True, w2) \<and> wscript w2 = []"
    by (subst usb_responder_write_zlp.simps) (simp add: sys_write_idle)
  then show ?thesis using w1 by (auto simp: write_limited_def)
qed

lemma write_frame_calm:
  assumes "frame_sized fr" "allocs w = []" "wscript w = []"
  shows "\<exists>w'. usb_responder_protocol_write_frame fd fr w = (True, w') \<and> wscript w' = []"
  using assms(1)
proof (cases rule: encode_frame_cases [of fr w])
  case (ok w1)
  then have "wscript w1 = []" using assms(3) by (simp add: mem_only_keeps)
  then obtain w2 where "write_limited fd (frame_bytes fr) w1 = (True, w2)" "wscript w2 = []"
    using write_limited_calm by blast
  then show ?thesis using ok(1) by (simp add: usb_responder_protocol_write_frame_def c_free_def)
next
  case (fail w1)
  then show ?thesis using assms(2) by simp
qed

text \<open>A send touches the heap, the error texts and the outgoing transfers.\<close>

lemma write_frame_keeps:
  assumes "frame_sized fr" and "usb_responder_protocol_write_frame fd fr w = (ok, w')"
  shows "rscript w' = rscript w" "pscript w' = pscript w" "io_world.more w' = io_world.more w"
    "allocs w = [] \<Longrightarrow> allocs w' = []"
proof -
  have "rscript w' = rscript w \<and> pscript w' = pscript w \<and> io_world.more w' = io_world.more w \<and> (allocs w = [] \<longrightarrow> allocs w' = [])"
    using assms(1)
  proof (cases rule: encode_frame_cases [of fr w])
    case (ok w1)
    obtain b w2 where wl: "write_limited fd (frame_bytes fr) w1 = (b, w2)" by (metis surj_pair)
    have "w' = c_free True w2" using assms(2) ok(1) wl by (simp add: usb_responder_protocol_write_frame_def)
    then show ?thesis using conjunct1 [OF write_limited_spec [OF wl]] mem_only_keeps [OF ok(2)] mem_only_calm [OF ok(2)]
      by (auto simp: io_only_def c_free_def)
  next
    case (fail w1)
    then show ?thesis using assms(2) mem_only_keeps [OF fail(2)] by (simp add: usb_responder_protocol_write_frame_def)
  qed
  then show "rscript w' = rscript w" "pscript w' = pscript w" "io_world.more w' = io_world.more w"
    "allocs w = [] \<Longrightarrow> allocs w' = []" by simp_all
qed

section \<open>What an operation leaves alone\<close>

text \<open>
  \<open>acted c d ops w ops' w'\<close>: nothing was sent or received, the same endpoints are open, the heap moved
  by \<open>d\<close> blocks, the invariant of the upload table \<open>ops\<close> carries over to \<open>ops'\<close>, and unless \<open>c\<close> holds the
  tree is as before.
\<close>

definition acted ::
  "bool \<Rightarrow> int \<Rightarrow> file_ops \<Rightarrow> 'a rt_world_scheme \<Rightarrow> file_ops \<Rightarrow> 'a rt_world_scheme \<Rightarrow> bool" where
  "acted c d ops w ops' w' \<longleftrightarrow> sent w' = sent w \<and> wscript w' = wscript w \<and> rscript w' = rscript w \<and> pscript w' = pscript w \<and>
     live w' = live w + d \<and> (allocs w = [] \<longrightarrow> allocs w' = []) \<and> (uploads_inv ops w \<longrightarrow> uploads_inv ops' w') \<and>
     (c \<or> vfs w' = vfs w) \<and>
     rt_world.more w' = rt_world.more w \<and> ep0_reads w' = ep0_reads w \<and> opens w' = opens w \<and>
     next_fd w' = next_fd w \<and> fds w' = fds w"

lemma acted_refl [simp, intro]: "acted c 0 ops w ops w"
  by (simp add: acted_def)

lemma acted_trans:
  "acted a d ops u ops1 v \<Longrightarrow> acted b e ops1 v ops2 w \<Longrightarrow> acted (a \<or> b) (d + e) ops u ops2 w"
  by (auto simp: acted_def)

lemma acted_then: "acted c d ops u ops1 v \<Longrightarrow> acted c e ops1 v ops2 w \<Longrightarrow> acted c (d + e) ops u ops2 w"
  using acted_trans [of c d ops u ops1 v c e] by simp

lemma acted_mono: "acted a d ops u ops' v \<Longrightarrow> (a \<Longrightarrow> b) \<Longrightarrow> d = e \<Longrightarrow> acted b e ops u ops' v"
  by (auto simp: acted_def)

lemma more_fields:
  fixes w w' :: "'a rt_world_scheme"
  shows "io_world.more w' = io_world.more w \<Longrightarrow> same_streams w w' \<and> vfs w' = vfs w \<and> rt_world.more w' = rt_world.more w \<and>
      ep0_reads w' = ep0_reads w \<and> opens w' = opens w \<and> next_fd w' = next_fd w \<and> fds w' = fds w"
    and "fs_world.more w' = fs_world.more w \<Longrightarrow> rt_world.more w' = rt_world.more w \<and>
      ep0_reads w' = ep0_reads w \<and> opens w' = opens w \<and> next_fd w' = next_fd w \<and> fds w' = fds w"
    and "sh_world.more w' = sh_world.more w \<Longrightarrow> rt_world.more w' = rt_world.more w \<and>
      ep0_reads w' = ep0_reads w \<and> opens w' = opens w \<and> next_fd w' = next_fd w \<and> fds w' = fds w"
  by (cases w; cases w'; simp add: same_streams_def)+

lemma inv_keeps:
  fixes w w' :: "'a fs_world_scheme"
  shows "streams w' = streams w \<Longrightarrow> next_stream w' = next_stream w \<Longrightarrow> uploads_inv ops w \<Longrightarrow> uploads_inv ops w'"
  using inv_same_streams [of ops w w'] by (simp add: same_streams_def)

lemma mem_only_acted: "mem_only w w' d \<Longrightarrow> acted c d ops w ops w'"
  using more_fields(1) [of w' w] inv_same_streams [of ops w w']
  by (simp add: acted_def mem_only_keeps mem_only_live mem_only_calm)

lemma reads_only_acted: "reads_only w w' d \<Longrightarrow> acted c d ops w ops w'"
  using more_fields(2) [of w' w] inv_keeps [of w' w ops] by (simp add: acted_def reads_only_def)

lemma tree_only_acted: "tree_only w w' \<Longrightarrow> acted True 0 ops w ops w'"
  using more_fields(2) [of w' w] inv_keeps [of w' w ops] by (simp add: acted_def tree_only_def)

lemma quiet_acted: "quiet w w' \<Longrightarrow> acted c 0 ops w ops w'"
  by (rule reads_only_acted [OF quiet_reads])

lemma sh_keeps_acted: "sh_keeps w w' \<Longrightarrow> live w' = live w + d \<Longrightarrow> acted c d ops w ops w'"
  using more_fields(3) [of w' w] inv_keeps [of w' w ops] by (simp add: acted_def sh_keeps_def)

lemma set_error_acted [simp]: "acted c 0 ops w ops (usb_responder_set_last_error m w)"
  by (rule quiet_acted) simp

lemma free_acted: "acted c (if b then - 1 else 0) ops w ops (c_free b w)"
  by (rule mem_only_acted [OF c_free_mem])

lemma kv_free_acted: "list_all kv_full kvs \<Longrightarrow> acted c (- 2 * int (length kvs)) ops w ops (usb_responder_protocol_kv_free kvs w)"
  by (rule mem_only_acted [OF kv_free_mem])

section \<open>Replies\<close>

text \<open>
  \<open>answers fd m req w w' ok\<close>: what went out is one frame of type \<open>m\<close> with the id of the request, or
  a beginning of it if the handler reports failure.
\<close>

definition answers :: "int \<Rightarrow> msg \<Rightarrow> u32 \<Rightarrow> 'a io_world_scheme \<Rightarrow> 'a io_world_scheme \<Rightarrow> bool \<Rightarrow> bool" where
  "answers fd m req w w' ok \<longleftrightarrow>
     (\<exists>fr ts. msg_type (header fr) = msg_code m \<and> request_id (header fr) = req \<and> frame_sized fr \<and>
        sent w' = sent w @ map (Pair fd) ts \<and>
        (if ok then transfers_of (frame_bytes fr) ts else (\<exists>rest. frame_bytes fr = concat ts @ rest)))"

text \<open>The whole contract of a handler that answers with a frame of type \<open>ty\<close> or with an error, may change
  the tree if \<open>c\<close>, and keeps \<open>d\<close> blocks.\<close>

definition replied ::
  "msg \<Rightarrow> bool \<Rightarrow> int \<Rightarrow> int \<Rightarrow> u32 \<Rightarrow> file_ops \<Rightarrow> 'a rt_world_scheme \<Rightarrow> file_ops \<Rightarrow> 'a rt_world_scheme \<Rightarrow> bool \<Rightarrow> bool" where
  "replied ty c d fd req ops w ops' w' ok \<longleftrightarrow>
     (\<exists>m\<in>{ty, MSG_ERROR}. answers fd m req w w' ok) \<and> live w' = live w + d \<and> rscript w' = rscript w \<and> pscript w' = pscript w \<and>
     (allocs w = [] \<longrightarrow> allocs w' = []) \<and> (allocs w = [] \<longrightarrow> wscript w = [] \<longrightarrow> ok \<and> wscript w' = []) \<and>
     (uploads_inv ops w \<longrightarrow> uploads_inv ops' w') \<and> (c \<or> vfs w' = vfs w) \<and>
     rt_world.more w' = rt_world.more w \<and> ep0_reads w' = ep0_reads w \<and> opens w' = opens w \<and>
     next_fd w' = next_fd w \<and> fds w' = fds w"

lemma acted_replied:
  assumes "acted c d ops u ops1 v" and "replied ty c e fd req ops1 v ops2 w ok"
  shows "replied ty c (d + e) fd req ops u ops2 w ok"
  using assms by (auto simp: acted_def replied_def answers_def)

lemma replied_acted:
  assumes "replied ty c d fd req ops u ops1 v ok" and "acted c e ops1 v ops2 w"
  shows "replied ty c (d + e) fd req ops u ops2 w ok"
  using assms by (auto simp: acted_def replied_def answers_def)

lemma replied_mono: "replied ty a d fd req ops u ops' v ok \<Longrightarrow> (a \<Longrightarrow> b) \<Longrightarrow> d = e \<Longrightarrow> replied ty b e fd req ops u ops' v ok"
  by (auto simp: replied_def)

lemma replied_free: "replied ty c d fd req ops u ops' v ok \<Longrightarrow> replied ty c (d + (if b then - 1 else 0)) fd req ops u ops' (c_free b v) ok"
  by (rule replied_acted [OF _ free_acted])

lemma write_frame_replied:
  assumes "usb_responder_protocol_write_frame fd fr w = (ok, w')" and "frame_sized fr"
    and "msg_type (header fr) = msg_code m" "request_id (header fr) = req" "m \<in> {ty, MSG_ERROR}"
  shows "replied ty c 0 fd req ops w ops w' ok"
proof -
  note W = write_frame_cases [OF assms(2,1)]
  note K = write_frame_keeps [OF assms(2,1)]
  have "answers fd m req w w' ok" using W assms(2,3,4) unfolding answers_def by blast
  moreover have "allocs w = [] \<longrightarrow> wscript w = [] \<longrightarrow> ok \<and> wscript w' = []"
    using write_frame_calm [OF assms(2), of w fd] assms(1) by auto
  ultimately show ?thesis
    using W K assms(5) more_fields(1) [of w' w] inv_same_streams [of ops w w'] by (auto simp: replied_def)
qed

lemma failed_replied:
  assumes "acted c d ops w ops' w'" and "allocs w \<noteq> []"
  shows "replied ty c d fd req ops w ops' w' False"
proof -
  have "answers fd MSG_ERROR req w w' False"
    unfolding answers_def
    by (rule exI [of _ "reply_frame MSG_ERROR req None 0"], rule exI [of _ "[]"])
      (use assms(1) in \<open>simp add: acted_def reply_frame_def frame_sized_def frame_body_def\<close>)
  then show ?thesis using assms by (auto simp: replied_def acted_def)
qed

lemma reply_frame_sized: "length data + 24 < 2 ^ 32 \<Longrightarrow> frame_sized (reply_frame m req (Some data) (length data))"
  by (simp add: frame_sized_def frame_body_def reply_frame_def unat_of_nat take_bit_eq_mod)

lemma kv_bytes_small:
  assumes "length its \<le> 32"
  shows "length (kv_bytes its) + 24 < 2 ^ 32"
proof -
  have item: "length (kv_item_bytes it) \<le> 131074" for it
  proof -
    have k: "unat (kv_len s) \<le> 65535" for s
    proof -
      have "unat (kv_len s) < 65536" using unsigned_less [of "kv_len s"] by simp
      then show ?thesis by simp
    qed
    have "length (kv_item_bytes it) \<le> 4 + unat (kv_len (kv_key it)) + unat (kv_len (kv_value it))"
      by (simp add: kv_item_bytes_def)
    then show ?thesis using k [of "kv_key it"] k [of "kv_value it"] by linarith
  qed
  have "length (concat (map kv_item_bytes its)) \<le> 131074 * length its"
  proof (induction its)
    case (Cons it its)
    then show ?case using item [of it] by simp
  qed simp
  then show ?thesis using assms by (simp add: kv_bytes_def)
qed

lemma send_kv_replied:
  assumes run: "send_kv_response rt m req kvs w = (ok, w')" and n: "length kvs \<le> 32" and m: "m \<in> {ty, MSG_ERROR}"
  shows "replied ty c 0 (ep_in_fd rt) req ops w ops w' ok"
  using n
proof (cases rule: encode_kv_cases [of kvs w])
  case (fail w1)
  then have "ok = False" "w' = w1" using run by (simp_all add: send_kv_response_def)
  then show ?thesis using failed_replied [OF mem_only_acted [OF fail(2)] fail(3)] by simp
next
  case enc: (ok w1)
  let ?fr = "reply_frame m req (Some (kv_bytes kvs)) (length (kv_bytes kvs))"
  obtain b w2 where wf: "usb_responder_protocol_write_frame (ep_in_fd rt) ?fr w1 = (b, w2)" by (metis surj_pair)
  then have eq: "ok = b" "w' = c_free True w2" using run enc(1) by (simp_all add: send_kv_response_def)
  have "replied ty c 0 (ep_in_fd rt) req ops w1 ops w2 b"
    by (rule write_frame_replied [OF wf reply_frame_sized [OF kv_bytes_small [OF n]] _ _ m]) (simp_all add: reply_frame_def)
  from replied_free [OF acted_replied [OF mem_only_acted [OF enc(2)] this], of True] show ?thesis by (simp add: eq)
qed

lemma send_error_replied: "send_error rt req s w = (ok, w') \<Longrightarrow> replied ty c 0 (ep_in_fd rt) req ops w ops w' ok"
  unfolding send_error_def by (erule send_kv_replied) simp_all

lemma send_last_error_replied: "send_last_error rt req s w = (ok, w') \<Longrightarrow> replied ty c 0 (ep_in_fd rt) req ops w ops w' ok"
  unfolding send_last_error_def by (rule send_error_replied)

section \<open>The operations\<close>

lemma file_read_reads:
  assumes "usb_responder_file_read (Some rel) w = (r, w')"
  shows "reads_only w w' (case r of Some (data, True) \<Rightarrow> 1 | _ \<Rightarrow> 0) \<and> (\<forall>data. r = Some (data, False) \<longrightarrow> data = [])"
proof (cases rule: build_path_request [of rel w])
  case (bad out w1)
  then show ?thesis using assms quiet_reads [OF quiet_err_only [OF bad(3)]] by (simp add: usb_responder_file_read_def)
next
  case ok
  then have "usb_responder_read_file_all (render (comps (c_str rel))) w = (r, w')"
    using assms by (simp add: usb_responder_file_read_def)
  from read_file_all_spec(1) [OF this] show ?thesis
    by (cases r) (auto simp: read_result_def split: bool.split)
qed

lemma file_list_reads:
  assumes "usb_responder_file_list (Some rel) w = (r, w')"
  shows "reads_only w w' (case r of Inl e \<Rightarrow> 0 | Inr ts \<Rightarrow> 2)"
proof (cases rule: build_path_request [of rel w])
  case (bad out w1)
  then show ?thesis using assms quiet_reads [OF quiet_err_only [OF bad(3)]] by (auto simp: usb_responder_file_list_def)
next
  case ok
  let ?dp = "render (comps (c_str rel))"
  obtain names w2 where op: "c_opendir ?dp w = (names, w2)" by (metis surj_pair)
  have q: "reads_only w w2 0" by (rule quiet_reads [OF opendir_spec(1) [OF op]])
  show ?thesis
  proof (cases names)
    case None
    then show ?thesis using assms ok(2) op q by (auto simp: usb_responder_file_list_def)
  next
    case (Some ns)
    obtain le w3 where le: "list_entries ?dp ns ([], 0) ([], 0) w2 = (le, w3)" by (metis surj_pair)
    note E = list_entries_spec [OF le empty_text(2) empty_text(2)]
    show ?thesis
    proof (cases le)
      case (Inl e)
      then show ?thesis using assms ok(2) op Some le E reads_only_trans [OF q, of w3 0] by (auto simp: usb_responder_file_list_def)
    next
      case (Inr fd)
      obtain f d where fd: "fd = (f, d)" by (cases fd)
      have tok: "text_ok f" "text_ok d" and m3: "reads_only w w3 (blocks f + blocks d)"
        using E Inr fd reads_only_trans [OF q, of w3 "blocks f + blocks d"] by auto
      have fin: "list_finish f d w3 = (r, w')" using assms ok(2) op Some le Inr fd by (simp add: usb_responder_file_list_def)
      show ?thesis
        using list_finish_spec [OF tok fin] reads_only_trans [OF m3, of w' "- blocks f - blocks d"]
          reads_only_trans [OF m3, of w' "2 - blocks f - blocks d"] by (auto split: sum.splits)
    qed
  qed
qed

lemma file_stat_quiet:
  assumes "usb_responder_file_stat (Some rel) w = (r, w')"
  shows "quiet w w'"
proof (cases rule: build_path_request [of rel w])
  case (bad out w1)
  then show ?thesis using assms quiet_err_only [OF bad(3)] by (simp add: usb_responder_file_stat_def)
next
  case ok
  let ?p = "render (comps (c_str rel))"
  obtain st w2 where l: "c_lstat ?p w = (st, w2)" by (metis surj_pair)
  have q2: "quiet w w2" by (rule lstat_spec(1) [OF l])
  show ?thesis
  proof (cases st)
    case None
    then show ?thesis using assms ok(2) l quiet_then_err(2) [OF q2] by (auto simp: usb_responder_file_stat_def)
  next
    case (Some i)
    obtain u w3 where u: "id_text (pw_name w2) (i_uid i) w2 = (u, w3)" by (metis surj_pair)
    obtain g w4 where g: "id_text (gr_name w3) (i_gid i) w3 = (g, w4)" by (metis surj_pair)
    have "w' = w4" using assms ok(2) l Some u g by (simp add: usb_responder_file_stat_def)
    then show ?thesis using q2 id_text_spec(1) [OF u] id_text_spec(1) [OF g] quiet_trans by blast
  qed
qed

lemma file_delete_tree: "usb_responder_file_delete (Some rel) desire w = (r, w') \<Longrightarrow> tree_only w w'"
proof -
  assume run: "usb_responder_file_delete (Some rel) desire w = (r, w')"
  obtain t w1 where ch: "checked_target rel desire w = (t, w1)" by (metis surj_pair)
  note q = quiet_tree_only [OF checked_target_spec(1) [OF ch]]
  show ?thesis
  proof (cases "t = None \<or> path_is_storage_root (the t)")
    case True
    then show ?thesis using run ch q tree_only_trans [OF q quiet_tree_only [OF quiet_set_last_error]]
      by (auto simp: delete_checked split: option.splits)
  next
    case False
    then have "remove_path_recursive (the t) w1 = (r, w')" using run ch by (auto simp: delete_checked)
    from remove_scoped(1) [OF this] show ?thesis using tree_only_trans [OF q] by (simp add: removed_def)
  qed
qed

lemma mkdir_parents_tree: "mkdir_parents r work w = (ok, w') \<Longrightarrow> tree_only w w'"
proof (induction r work w rule: mkdir_parents.induct)
  case (1 r work w)
  let ?r1 = "dropWhile (\<lambda>c. c = CHR ''/'') r"
  let ?seg = "takeWhile (\<lambda>c. c \<noteq> CHR ''/'') ?r1"
  let ?nxt = "drop (length ?seg + 1) ?r1"
  let ?full = "work @ (if strcmp_eq work ''/'' then '''' else ''/'') @ ?seg"
  show ?case
  proof (cases "?r1 = [] \<or> 4096 \<le> length ?full")
    case True
    then show ?thesis using "1.prems" quiet_tree_only [OF quiet_refl [of w]] quiet_tree_only [OF quiet_set_last_error [of w]]
      by (subst (asm) mkdir_parents.simps) (auto simp: Let_def split: if_splits)
  next
    case False
    then have c: "\<not> ?r1 = []" "\<not> 4096 \<le> length ?full" by auto
    obtain b w1 where mk: "c_mkdir ?full 0x1ED w = (b, w1)" by (metis surj_pair)
    have t1: "tree_only w w1" by (rule tree_ops_tree_only(4) [OF mk])
    have err: "tree_only w (set_file_error p q v)" "tree_only w (usb_responder_set_last_error m v)"
      if "tree_only w v" for p q m v
      using tree_only_trans [OF that] quiet_tree_only [OF quiet_set_file_error] quiet_tree_only [OF quiet_set_last_error] by blast+
    have step: "(case c_mkdir ?full 0x1ED w of
          (True, w1) \<Rightarrow> mkdir_parents ?nxt ?full w1
        | (False, w1) \<Rightarrow>
            if errno_val w1 \<noteq> EEXIST then (False, set_file_error ''mkdir'' ?full w1)
            else case c_stat ?full w1 of (None, w2) \<Rightarrow> (False, set_file_error ''stat'' ?full w2)
              | (Some st, w2) \<Rightarrow> if i_kind st \<noteq> Dir then (False, usb_responder_set_last_error (Some ''path exists and is not a directory'') w2)
                  else mkdir_parents ?nxt ?full w2) = (ok, w')"
      using "1.prems" unfolding mkdir_parents.simps [of r work w] Let_def if_not_P [OF c(1)] if_not_P [OF c(2)] .
    note IH = "1.IH" [OF refl c(1) refl refl refl c(2) mk [symmetric]]
    show ?thesis
    proof (cases b)
      case True
      have "mkdir_parents ?nxt ?full w1 = (ok, w')" using step unfolding mk eqTrueI [OF True] prod.case bool.case .
      then show ?thesis using IH(1) [OF eqTrueI [OF True]] tree_only_trans [OF t1] by blast
    next
      case False
      then have b: "b = False" by simp
      obtain st w2 where sc: "c_stat ?full w1 = (st, w2)" by (metis surj_pair)
      have t2: "tree_only w w2" using tree_only_trans [OF t1 quiet_tree_only [OF stat_spec(1) [OF sc]]] .
      have run: "(if errno_val w1 \<noteq> EEXIST then (False, set_file_error ''mkdir'' ?full w1)
          else case st of None \<Rightarrow> (False, set_file_error ''stat'' ?full w2)
            | Some st \<Rightarrow> if i_kind st \<noteq> Dir then (False, usb_responder_set_last_error (Some ''path exists and is not a directory'') w2)
                else mkdir_parents ?nxt ?full w2) = (ok, w')"
        using step unfolding mk b prod.case bool.case sc .
      consider "errno_val w1 \<noteq> EEXIST" | "errno_val w1 = EEXIST" "st = None"
        | i where "errno_val w1 = EEXIST" "st = Some i" "i_kind i \<noteq> Dir"
        | i where "errno_val w1 = EEXIST" "st = Some i" "i_kind i = Dir" by (cases st) auto
      then show ?thesis
      proof cases
        case 4
        then have "mkdir_parents ?nxt ?full w2 = (ok, w')" using run by simp
        then show ?thesis using IH(2) [OF _ _ sc [symmetric] 4(2)] b 4 tree_only_trans [OF t2] by blast
      qed (use run err t1 t2 in auto)
    qed
  qed
qed

lemma mkdir_tree: "usb_responder_dir_mkdir (Some rel) parents desire w = (r, w') \<Longrightarrow> tree_only w w'"
proof -
  assume run: "usb_responder_dir_mkdir (Some rel) parents desire w = (r, w')"
  obtain t w1 where ch: "checked_target rel desire w = (t, w1)" by (metis surj_pair)
  note q = quiet_tree_only [OF checked_target_spec(1) [OF ch]]
  show ?thesis
  proof (cases t)
    case None
    then show ?thesis using run ch q by (auto simp: mkdir_checked)
  next
    case (Some path)
    show ?thesis
    proof (cases parents)
      case True
      then have "mkdir_parents (drop 1 path) ''/'' w1 = (r, w')" using run ch Some by (simp add: mkdir_checked)
      then show ?thesis using tree_only_trans [OF q mkdir_parents_tree] by blast
    next
      case False
      obtain b w2 where mk: "c_mkdir path 0x1ED w1 = (b, w2)" by (metis surj_pair)
      have t2: "tree_only w w2" by (rule tree_only_trans [OF q tree_ops_tree_only(4) [OF mk]])
      then show ?thesis using run ch Some False mk tree_only_trans [OF t2 quiet_tree_only [OF quiet_set_file_error]]
        by (cases b) (auto simp: mkdir_checked)
    qed
  qed
qed

lemma rename_tree:
  assumes run: "usb_responder_file_rename (Some src) (Some dst) desire w = (r, w')"
  shows "tree_only w w'"
  using run
proof (cases rule: rename_cases)
  case refused
  then show ?thesis by (simp add: quiet_tree_only)
next
  case (called w1 ok w2)
  then show ?thesis using tree_only_trans [OF quiet_tree_only [OF called(2)] tree_only_trans [OF tree_call_tree_only [OF called(4)] quiet_tree_only [OF called(6)]]] by simp
qed

section \<open>Uploads\<close>

text \<open>An upload call may write to the tree and move the streams, but nothing else.\<close>

definition disk_only :: "'a fs_world_scheme \<Rightarrow> 'a fs_world_scheme \<Rightarrow> bool" where
  "disk_only w w' \<longleftrightarrow> sent w' = sent w \<and> wscript w' = wscript w \<and> rscript w' = rscript w \<and> pscript w' = pscript w \<and>
     live w' = live w \<and> allocs w' = allocs w \<and> fs_world.more w' = fs_world.more w"

lemma disk_only_refl [simp, intro]: "disk_only w w"
  by (simp add: disk_only_def)

lemma disk_only_trans [trans]: "disk_only u v \<Longrightarrow> disk_only v w \<Longrightarrow> disk_only u w"
  by (simp add: disk_only_def)

lemma tree_only_disk: "tree_only w w' \<Longrightarrow> disk_only w w'"
  by (simp add: disk_only_def tree_only_def)

lemma quiet_disk: "quiet w w' \<Longrightarrow> disk_only w w'"
  by (rule tree_only_disk [OF quiet_tree_only])

lemma next_fault_disk: "next_fault w = (flt, w') \<Longrightarrow> disk_only w w'"
  using next_fault_quiet [of w flt w'] by (simp add: quiet_disk)

lemma disk_acted:
  assumes "disk_only w w'" and "uploads_inv ops w \<longrightarrow> uploads_inv ops' w'"
  shows "acted True 0 ops w ops' w'"
  using assms more_fields(2) [of w' w] by (simp add: acted_def disk_only_def)

lemma disk_error [simp]:
  "disk_only w (usb_responder_set_last_error m v) \<longleftrightarrow> disk_only w v" "disk_only w (set_file_error p q v) \<longleftrightarrow> disk_only w v"
  using quiet_disk [OF quiet_set_last_error [of v m]] quiet_disk [OF quiet_set_file_error [of v p q]]
  by (auto simp: disk_only_def)

lemma fwrite_disk: "c_fwrite d f w = (n, w') \<Longrightarrow> disk_only w w'"
proof (cases "streams w f")
  case (Some s)
  obtain flt w1 where nf: "next_fault w = (flt, w1)" by (metis surj_pair)
  assume "c_fwrite d f w = (n, w')"
  then show ?thesis using next_fault_disk [OF nf] Some
    by (cases flt) (auto simp: c_fwrite_def disk_only_def nf Let_def split: prod.split)
qed (simp add: c_fwrite_def)

lemma fflush_disk: "c_fflush f w = (b, w') \<Longrightarrow> disk_only w w'"
proof (cases "streams w f")
  case (Some s)
  obtain flt w1 where nf: "next_fault w = (flt, w1)" by (metis surj_pair)
  assume "c_fflush f w = (b, w')"
  then show ?thesis using next_fault_disk [OF nf] Some
    by (cases flt) (auto simp: c_fflush_def disk_only_def nf Let_def split: prod.split)
qed (simp add: c_fflush_def)

lemma fclose_disk [simp]: "disk_only w (snd (c_fclose f w))"
proof -
  obtain b w1 where fl: "c_fflush f w = (b, w1)" by (metis surj_pair)
  then show ?thesis using fflush_disk [OF fl] by (simp add: c_fclose_def disk_only_def)
qed

lemma fopen_disk: "c_fopen_wb p w = (r, w') \<Longrightarrow> disk_only w w'"
proof -
  assume run: "c_fopen_wb p w = (r, w')"
  obtain flt w1 where nf: "next_fault w = (flt, w1)" by (metis surj_pair)
  show ?thesis
    using run next_fault_disk [OF nf]
    by (cases flt; cases "fs_creat (comps p) (0x1B6 AND NOT (umask w1)) (vfs w1)")
      (auto simp: c_fopen_wb_def nf disk_only_def)
qed

lemma pace_disk: "disk_only w (upload_pace_writeback s w)"
proof (cases "fp s")
  case (Some f)
  obtain b w1 where fl: "c_fflush f w = (b, w1)" by (metis surj_pair)
  obtain b2 w2 where pc: "plain_call w1 = (b2, w2)" by (metis surj_pair)
  show ?thesis
    using fflush_disk [OF fl] disk_only_trans [OF fflush_disk [OF fl] quiet_disk [OF conjunct1 [OF plain_call_quiet [OF pc]]]] pc
    by (cases b) (simp_all add: upload_pace_writeback_def Some fl)
qed (simp add: upload_pace_writeback_def)

lemma close_disk: "disk_only w (case fp s of None \<Rightarrow> w | Some f \<Rightarrow> snd (c_fclose f w))"
  by (simp split: option.split)

lemma abort_disk: "usb_responder_file_abort_upload ops tid w = (r, ops', w') \<Longrightarrow> disk_only w w'"
proof -
  assume run: "usb_responder_file_abort_upload ops tid w = (r, ops', w')"
  show ?thesis
  proof (cases "find_session ops tid")
    case (Some i)
    then have "w' = snd (c_unlink (temp_path (ops ! i)) (case fp (ops ! i) of None \<Rightarrow> w | Some f \<Rightarrow> snd (c_fclose f w)))"
      using run by (simp add: usb_responder_file_abort_upload_def Let_def)
    then show ?thesis using disk_only_trans [OF close_disk tree_only_disk [OF tree_only_snd(1)]] by metis
  qed (use run in \<open>simp add: usb_responder_file_abort_upload_def\<close>)
qed

lemma append_disk: "usb_responder_file_append_upload_chunk ops tid chunk w = (r, ops', w') \<Longrightarrow> disk_only w w'"
proof -
  assume run: "usb_responder_file_append_upload_chunk ops tid chunk w = (r, ops', w')"
  show ?thesis
  proof (cases "\<exists>d i f. chunk = Some d \<and> d \<noteq> [] \<and> find_session ops tid = Some i \<and> fp (ops ! i) = Some f")
    case False
    then show ?thesis using run by (auto simp: usb_responder_file_append_upload_chunk_def split: option.splits if_splits)
  next
    case True
    then obtain d i f where c: "chunk = Some d" "d \<noteq> []" "find_session ops tid = Some i" "fp (ops ! i) = Some f" by blast
    obtain n w1 where fw: "c_fwrite d f w = (n, w1)" by (metis surj_pair)
    show ?thesis using run c fw fwrite_disk [OF fw] disk_only_trans [OF fwrite_disk [OF fw] pace_disk]
      by (auto simp: usb_responder_file_append_upload_chunk_def Let_def split: if_splits)
  qed
qed

lemma finish_disk: "usb_responder_file_finish_upload ops tid w = (r, ops', w') \<Longrightarrow> disk_only w w'"
proof -
  assume run: "usb_responder_file_finish_upload ops tid w = (r, ops', w')"
  show ?thesis
  proof (cases "find_session ops tid")
    case None
    then show ?thesis using run by (auto simp: usb_responder_file_finish_upload_def)
  next
    case (Some i)
    let ?w1 = "case fp (ops ! i) of None \<Rightarrow> w | Some f \<Rightarrow> snd (c_fclose f w)"
    obtain b w2 where rn: "c_rename (temp_path (ops ! i)) (final_path (ops ! i)) ?w1 = (b, w2)" by (metis surj_pair)
    have d2: "disk_only w w2" using disk_only_trans [OF close_disk tree_only_disk [OF tree_ops_tree_only(2) [OF rn]]] .
    obtain c w3 where ch: "c_chmod (final_path (ops ! i)) (file_mode (ops ! i)) w2 = (c, w3)" by (metis surj_pair)
    have d3: "disk_only w w3" using disk_only_trans [OF d2 tree_only_disk [OF tree_ops_tree_only(3) [OF ch]]] .
    have un: "disk_only w (snd (c_unlink p v))" if "disk_only w v" for p v
      using disk_only_trans [OF that tree_only_disk [OF tree_only_snd(1)]] .
    show ?thesis using run Some rn ch d2 d3 un
      by (cases b; cases c) (auto simp: usb_responder_file_finish_upload_def Let_def split: if_splits)
  qed
qed

lemma begin_disk:
  assumes "length ops = 16" and run: "usb_responder_file_begin_upload ops tid (Some rel) desire perm w = (r, ops', w')"
  shows "disk_only w w'"
proof -
  obtain x ops1 w1 where ab: "(if find_session ops tid \<noteq> None
      then usb_responder_file_abort_upload ops tid w else (True, ops, w)) = (x, ops1, w1)" by (metis surj_pair)
  have d1: "disk_only w w1" using ab abort_disk [of ops tid w x ops1 w1] by (auto split: if_splits)
  have len: "length ops1 = 16" using ab assms(1)
    by (auto simp: usb_responder_file_abort_upload_def Let_def split: if_splits option.splits)
  show ?thesis
  proof (cases "alloc_session ops1")
    case None
    then show ?thesis using run ab d1 by (auto simp: usb_responder_file_begin_upload_def)
  next
    case (Some p)
    obtain i ops2 where p: "p = (i, ops2)" by (cases p)
    have used: "used (ops2 ! i)" using alloc_session_Some [of ops1 i ops2] Some p len by auto
    obtain ok s w2 where pr: "prepare_upload (ops2 ! i) rel desire perm w1 = (ok, s, w2)" by (metis surj_pair)
    have d2: "disk_only w w2" by (rule disk_only_trans [OF d1 quiet_disk [OF prepare_upload_spec(1) [OF pr used]]])
    obtain f w3 where fo: "c_fopen_wb (temp_path s) w2 = (f, w3)" by (metis surj_pair)
    show ?thesis using run ab Some p pr fo d2 disk_only_trans [OF d2 fopen_disk [OF fo]]
      by (cases ok; cases f) (auto simp: usb_responder_file_begin_upload_def)
  qed
qed

lemma begin_acted:
  assumes "length ops = 16" and "usb_responder_file_begin_upload ops tid (Some rel) desire perm w = (r, ops', w')"
  shows "acted True 0 ops w ops' w'"
  by (rule disk_acted [OF begin_disk [OF assms]]) (use begin_effect(1) [OF _ assms(2)] in blast)

lemma append_acted:
  assumes "usb_responder_file_append_upload_chunk ops tid chunk w = (r, ops', w')"
  shows "acted True 0 ops w ops' w'"
  by (rule disk_acted [OF append_disk [OF assms]]) (use append_effect(1) [OF _ assms] in blast)

lemma finish_acted:
  assumes "usb_responder_file_finish_upload ops tid w = (r, ops', w')"
  shows "acted True 0 ops w ops' w'"
  by (rule disk_acted [OF finish_disk [OF assms]]) (use finish_effect(1) [OF _ assms] in blast)

section \<open>Decoding requests\<close>

definition malformed :: "frame \<Rightarrow> 'a io_world_scheme \<Rightarrow> bool" where
  "malformed inp w \<longleftrightarrow>
     (case fst (usb_responder_protocol_decode_kv (payload inp) (unat (payload_len (header inp))) USB_RESPONDER_MAX_KV w) of
        Inl e \<Rightarrow> True | Inr kvs \<Rightarrow> False)"

lemma decode_kv_acted:
  assumes "frame_wf inp"
    and "usb_responder_protocol_decode_kv (payload inp) (unat (payload_len (header inp))) 32 w = (r, w')"
  shows "case r of
      Inl e \<Rightarrow> malformed inp w \<and> (\<exists>d. 0 \<le> d \<and> d \<le> 64 \<and> acted False d ops w ops w')
    | Inr kvs \<Rightarrow> \<not> malformed inp w \<and> acted False (2 * int (length kvs)) ops w ops w' \<and> list_all kv_full kvs"
proof (cases "payload inp")
  case None
  then have "r = Inl Reject" "w' = w" using assms(2) by (simp_all add: usb_responder_protocol_decode_kv_def)
  then show ?thesis using None by (auto simp: malformed_def usb_responder_protocol_decode_kv_def intro!: exI [of _ 0])
next
  case (Some p)
  then have "unat (payload_len (header inp)) \<le> length p"
    using assms(1) by (simp add: frame_wf_def frame_sized_def frame_body_def)
  note D = decode_kv_outcome [OF this assms(2) [unfolded Some]]
  show ?thesis
  proof (cases r)
    case (Inl e)
    then obtain n :: nat where "n \<le> 32" "mem_only w w' (2 * int n)" using D by auto
    then show ?thesis using Inl Some assms(2) mem_only_acted [of w w' "2 * int n" False ops]
      by (auto simp: malformed_def intro!: exI [of _ "2 * int n"])
  next
    case (Inr kvs)
    then show ?thesis using D Some assms(2) mem_only_acted by (auto simp: malformed_def)
  qed
qed

text \<open>What a request whose payload is a list of items leads to; only an undecodable one may leave blocks.\<close>

definition handled ::
  "msg \<Rightarrow> bool \<Rightarrow> responder_runtime \<Rightarrow> frame \<Rightarrow> 'a rt_world_scheme \<Rightarrow> file_ops \<Rightarrow> 'a rt_world_scheme \<Rightarrow> bool \<Rightarrow> bool" where
  "handled ty c rt inp w ops' w' ok \<longleftrightarrow>
     (\<exists>d. (d = 0 \<or> malformed inp w \<and> 0 < d \<and> d \<le> 64) \<and>
        replied ty (c \<and> \<not> malformed inp w) d (ep_in_fd rt) (request_id (header inp)) (files rt) w ops' w' ok)"

lemma handled_kvs:
  assumes "frame_wf inp"
    and dec: "usb_responder_protocol_decode_kv (payload inp) (unat (payload_len (header inp))) 32 w = (r, w1)"
    and bad: "\<And>e. r = Inl e \<Longrightarrow> send_error rt (request_id (header inp)) ''invalid kv payload'' w1 = (ok, w') \<and> ops' = files rt"
    and good: "\<And>kvs. r = Inr kvs \<Longrightarrow> list_all kv_full kvs \<Longrightarrow> vfs w1 = vfs w \<Longrightarrow>
      replied ty c (- 2 * int (length kvs)) (ep_in_fd rt) (request_id (header inp)) (files rt) w1 ops' w' ok"
  shows "handled ty c rt inp w ops' w' ok"
proof (cases r)
  case (Inl e)
  then obtain d where d: "malformed inp w" "0 \<le> d" "d \<le> 64" "acted False d (files rt) w (files rt) w1"
    using decode_kv_acted [OF assms(1) dec, of "files rt"] by auto
  have "replied ty False 0 (ep_in_fd rt) (request_id (header inp)) (files rt) w1 (files rt) w' ok"
    using bad [OF Inl] send_error_replied by blast
  from acted_replied [OF d(4) this] show ?thesis using d(1,2,3) bad [OF Inl] by (auto simp: handled_def intro!: exI [of _ d])
next
  case (Inr kvs)
  then have a: "\<not> malformed inp w" "acted False (2 * int (length kvs)) (files rt) w (files rt) w1" "list_all kv_full kvs"
    using decode_kv_acted [OF assms(1) dec, of "files rt"] by auto
  have "vfs w1 = vfs w" using a(2) by (simp add: acted_def)
  then show ?thesis using acted_replied [OF acted_mono [OF a(2), of c] good [OF Inr a(3)]] a(1) by (auto simp: handled_def)
qed

lemma with_kvs_handled:
  assumes run: "with_kvs rt inp body w = (ok, w')" and wf: "frame_wf inp"
    and body: "\<And>kvs w1. body kvs w1 = (ok, w') \<Longrightarrow> list_all kv_full kvs \<Longrightarrow> vfs w1 = vfs w \<Longrightarrow>
      replied ty c (- 2 * int (length kvs)) (ep_in_fd rt) (request_id (header inp)) (files rt) w1 (files rt) w' ok"
  shows "handled ty c rt inp w (files rt) w' ok"
proof -
  obtain r w1 where dec: "usb_responder_protocol_decode_kv (payload inp) (unat (payload_len (header inp))) 32 w = (r, w1)"
    by (metis surj_pair)
  show ?thesis by (rule handled_kvs [OF wf dec]) (use run dec body in \<open>auto simp: with_kvs_def\<close>)
qed

section \<open>The file requests\<close>

lemma release_then:
  assumes "acted c d ops u ops1 v" and "list_all kv_full kvs"
    and "replied ty c e fd req ops1 (usb_responder_protocol_kv_free kvs v) ops2 w ok"
  shows "replied ty c (d - 2 * int (length kvs) + e) fd req ops u ops2 w ok"
  using acted_replied [OF acted_then [OF assms(1) kv_free_acted [OF assms(2)]] assms(3)] by simp

lemma error_then_replied:
  assumes "acted c 0 ops u ops1 v" and "list_all kv_full kvs"
    and "send_error rt req s (usb_responder_protocol_kv_free kvs v) = (ok, w)"
  shows "replied ty c (- 2 * int (length kvs)) (ep_in_fd rt) req ops u ops1 w ok"
  using release_then [OF assms(1,2) send_error_replied [OF assms(3)]] by simp

lemma last_error_then_replied:
  assumes "acted c 0 ops u ops1 v" and "list_all kv_full kvs"
    and "send_last_error rt req s (usb_responder_protocol_kv_free kvs v) = (ok, w)"
  shows "replied ty c (- 2 * int (length kvs)) (ep_in_fd rt) req ops u ops1 w ok"
  using release_then [OF assms(1,2) send_last_error_replied [OF assms(3)]] by simp

lemma kv_then_replied:
  assumes "acted c 0 ops u ops1 v" and "list_all kv_full kvs" and "length its \<le> 32" "m \<in> {ty, MSG_ERROR}"
    and "send_kv_response rt m req its (usb_responder_protocol_kv_free kvs v) = (ok, w)"
  shows "replied ty c (- 2 * int (length kvs)) (ep_in_fd rt) req ops u ops1 w ok"
  using release_then [OF assms(1,2) send_kv_replied [OF assms(5,3,4)]] by simp

lemma put_begin_replied:
  assumes "length (files rt) = 16" and run: "put_begin rt req kvs w = (ok, rt', w')" and full: "list_all kv_full kvs"
  shows "replied MSG_STATUS True (- 2 * int (length kvs)) (ep_in_fd rt) req (files rt) w (files rt') w' ok \<and> rt' = rt\<lparr>files := files rt'\<rparr>"
proof (cases "kv_get kvs ''path''")
  case None
  obtain b v where "send_error rt req ''missing path'' (usb_responder_protocol_kv_free kvs w) = (b, v)" by (metis surj_pair)
  then show ?thesis using run None error_then_replied [OF acted_refl full] by (auto simp: put_begin_def)
next
  case (Some path)
  let ?d = "kv_get kvs ''desire_storage''" and ?p = "kv_get kvs ''perm''"
  obtain r ops1 w1 where up: "usb_responder_file_begin_upload (files rt) req (Some path) ?d ?p w = (r, ops1, w1)"
    by (metis prod_cases3)
  note A = begin_acted [OF assms(1) up]
  show ?thesis
  proof (cases r)
    case True
    obtain b v where "send_kv_response rt MSG_STATUS req (status_ok @ [kv_pair ''transfer_id'' ''request_id''])
        (usb_responder_protocol_kv_free kvs w1) = (b, v)" by (metis surj_pair)
    note s = this kv_then_replied [OF A full _ _ this, of MSG_STATUS]
    then show ?thesis using run Some up True by (auto simp: put_begin_def status_ok_def)
  next
    case False
    obtain b v where "send_last_error rt req ''begin upload failed'' (usb_responder_protocol_kv_free kvs w1) = (b, v)"
      by (metis surj_pair)
    note s = this last_error_then_replied [OF A full this, of MSG_STATUS]
    then show ?thesis using run Some up False by (auto simp: put_begin_def)
  qed
qed

lemma file_put_begin_handled:
  assumes "frame_wf inp" "length (files rt) = 16" and run: "handle_file_put_begin rt inp w = (ok, rt', w')"
  shows "handled MSG_STATUS True rt inp w (files rt') w' ok" and "rt' = rt\<lparr>files := files rt'\<rparr>"
proof -
  obtain r w1 where dec: "usb_responder_protocol_decode_kv (payload inp) (unat (payload_len (header inp))) 32 w = (r, w1)"
    by (metis surj_pair)
  have bad: "send_error rt (request_id (header inp)) ''invalid kv payload'' w1 = (ok, w') \<and> rt' = rt" if "r = Inl e" for e
    using run dec that by (auto simp: handle_file_put_begin_def split: prod.splits)
  have good: "put_begin rt (request_id (header inp)) kvs w1 = (ok, rt', w')" if "r = Inr kvs" for kvs
    using run dec that by (simp add: handle_file_put_begin_def)
  show "handled MSG_STATUS True rt inp w (files rt') w' ok"
    by (rule handled_kvs [OF assms(1) dec]) (use bad put_begin_replied [OF assms(2) good] in auto)
  show "rt' = rt\<lparr>files := files rt'\<rparr>"
  proof (cases r)
    case (Inr kvs)
    then have "list_all kv_full kvs" using decode_kv_acted [OF assms(1) dec] by simp
    then show ?thesis using put_begin_replied [OF assms(2) good [OF Inr]] by blast
  qed (use bad in simp)
qed

lemma tree_status_replied:
  assumes "tree_status rt req s kvs (b, v) = (ok, w)" and "acted c 0 ops u ops1 v" and "list_all kv_full kvs"
  shows "replied MSG_STATUS c (- 2 * int (length kvs)) (ep_in_fd rt) req ops u ops1 w ok"
  using assms(1) last_error_then_replied [OF assms(2,3)] kv_then_replied [OF assms(2,3), of "[kv_pair ''status'' ''ok'']" MSG_STATUS]
  by (cases b) (simp_all add: tree_status_def status_ok_def)

lemma file_delete_handled:
  assumes "frame_wf inp" and "handle_file_delete rt inp w = (ok, w')"
  shows "handled MSG_STATUS True rt inp w (files rt) w' ok"
proof (rule with_kvs_handled [OF assms(2) [unfolded handle_file_delete_def] assms(1)])
  fix kvs and v :: "'a rt_world_scheme"
  let ?op = "case kv_get kvs ''path'' of None \<Rightarrow> (False, v)
      | Some path \<Rightarrow> usb_responder_file_delete (Some path) (kv_get kvs ''desire_storage'') v"
  assume ts: "tree_status rt (request_id (header inp)) ''delete failed'' kvs ?op = (ok, w')" and full: "list_all kv_full kvs"
  obtain b v1 where op: "?op = (b, v1)" by (metis surj_pair)
  have "acted True 0 (files rt) v (files rt) v1"
    using op tree_only_acted [OF file_delete_tree] by (auto split: option.splits)
  with ts show "replied MSG_STATUS True (- 2 * int (length kvs)) (ep_in_fd rt) (request_id (header inp)) (files rt) v (files rt) w' ok"
    unfolding op by (rule tree_status_replied [OF _ _ full])
qed

lemma file_rename_handled:
  assumes "frame_wf inp" and "handle_file_rename rt inp w = (ok, w')"
  shows "handled MSG_STATUS True rt inp w (files rt) w' ok"
proof (rule with_kvs_handled [OF assms(2) [unfolded handle_file_rename_def] assms(1)])
  fix kvs and v :: "'a rt_world_scheme"
  let ?op = "case (kv_get kvs ''from'', kv_get kvs ''to'') of
      (Some src, Some dst) \<Rightarrow> usb_responder_file_rename (Some src) (Some dst) (kv_get kvs ''desire_storage'') v
    | _ \<Rightarrow> (False, v)"
  assume ts: "tree_status rt (request_id (header inp)) ''rename failed'' kvs ?op = (ok, w')" and full: "list_all kv_full kvs"
  obtain b v1 where op: "?op = (b, v1)" by (metis surj_pair)
  have "acted True 0 (files rt) v (files rt) v1"
    using op tree_only_acted [OF rename_tree] by (auto split: option.splits)
  with ts show "replied MSG_STATUS True (- 2 * int (length kvs)) (ep_in_fd rt) (request_id (header inp)) (files rt) v (files rt) w' ok"
    unfolding op by (rule tree_status_replied [OF _ _ full])
qed

lemma file_mkdir_handled:
  assumes "frame_wf inp" and "handle_file_mkdir rt inp w = (ok, w')"
  shows "handled MSG_STATUS True rt inp w (files rt) w' ok"
proof (rule with_kvs_handled [OF assms(2) [unfolded handle_file_mkdir_def] assms(1)])
  fix kvs and v :: "'a rt_world_scheme"
  let ?op = "case kv_get kvs ''path'' of None \<Rightarrow> (False, v)
    | Some path \<Rightarrow> usb_responder_dir_mkdir (Some path) (wants_parents (kv_get kvs ''parents'')) (kv_get kvs ''desire_storage'') v"
  assume ts: "tree_status rt (request_id (header inp)) ''mkdir failed'' kvs ?op = (ok, w')" and full: "list_all kv_full kvs"
  obtain b v1 where op: "?op = (b, v1)" by (metis surj_pair)
  have "acted True 0 (files rt) v (files rt) v1"
    using op tree_only_acted [OF mkdir_tree] by (auto split: option.splits)
  with ts show "replied MSG_STATUS True (- 2 * int (length kvs)) (ep_in_fd rt) (request_id (header inp)) (files rt) v (files rt) w' ok"
    unfolding op by (rule tree_status_replied [OF _ _ full])
qed

lemma file_stat_handled:
  assumes "frame_wf inp" and "handle_file_stat rt inp w = (ok, w')"
  shows "handled MSG_STATUS False rt inp w (files rt) w' ok"
proof (rule with_kvs_handled [OF assms(2) [unfolded handle_file_stat_def Let_def] assms(1)])
  let ?req = "request_id (header inp)"
  let ?items = "\<lambda>st. [kv_pair ''owner'' (si_owner st), kv_pair ''perm'' (si_perm st), kv_pair ''size'' (si_size st),
      kv_pair ''type'' (si_type st)]"
  fix kvs and v :: "'a rt_world_scheme"
  let ?op = "case kv_get kvs ''path'' of None \<Rightarrow> (None, v) | Some path \<Rightarrow> usb_responder_file_stat (Some path) v"
  assume run: "(case ?op of
      (None, w1) \<Rightarrow> send_last_error rt ?req ''stat failed'' (usb_responder_protocol_kv_free kvs w1)
    | (Some st, w1) \<Rightarrow> send_kv_response rt MSG_STATUS ?req (?items st) (usb_responder_protocol_kv_free kvs w1)) = (ok, w')"
    and full: "list_all kv_full kvs"
  obtain st v1 where op: "?op = (st, v1)" by (metis surj_pair)
  have a: "acted False 0 (files rt) v (files rt) v1"
    using op quiet_acted [OF file_stat_quiet] by (auto split: option.splits)
  show "replied MSG_STATUS False (- 2 * int (length kvs)) (ep_in_fd rt) ?req (files rt) v (files rt) w' ok"
  proof (cases st)
    case None
    then show ?thesis using run last_error_then_replied [OF a full] unfolding op by simp
  next
    case (Some i)
    then show ?thesis using run kv_then_replied [OF a full, of "?items i" MSG_STATUS] unfolding op by simp
  qed
qed

lemma file_list_handled:
  assumes "frame_wf inp" and "handle_file_list rt inp w = (ok, w')"
  shows "handled MSG_STATUS False rt inp w (files rt) w' ok"
proof (rule with_kvs_handled [OF assms(2) [unfolded handle_file_list_def Let_def] assms(1)])
  let ?req = "request_id (header inp)"
  fix kvs and v :: "'a rt_world_scheme"
  let ?op = "usb_responder_file_list (Some (case kv_get kvs ''path'' of None \<Rightarrow> ''.'' | Some p \<Rightarrow> p)) v"
  let ?send = "\<lambda>fl dl u. send_kv_response rt MSG_STATUS ?req [kv_pair ''files'' fl, kv_pair ''dirs'' dl]
      (usb_responder_protocol_kv_free kvs u)"
  assume run: "(case ?op of
      (Inl e, w1) \<Rightarrow> send_last_error rt ?req ''list failed'' (usb_responder_protocol_kv_free kvs w1)
    | (Inr (fl, dl), w1) \<Rightarrow> (case ?send fl dl w1 of (ok, w2) \<Rightarrow> (ok, c_free True (c_free True w2)))) = (ok, w')"
    and full: "list_all kv_full kvs"
  obtain r v1 where op: "?op = (r, v1)" by (metis surj_pair)
  note R = file_list_reads [OF op]
  show "replied MSG_STATUS False (- 2 * int (length kvs)) (ep_in_fd rt) ?req (files rt) v (files rt) w' ok"
  proof (cases r)
    case (Inl e)
    then have "acted False 0 (files rt) v (files rt) v1" using R by (simp add: reads_only_acted)
    then show ?thesis using run Inl last_error_then_replied [OF _ full] unfolding op by simp
  next
    case (Inr ts)
    obtain fl dl where ts: "ts = (fl, dl)" by (cases ts)
    obtain b v2 where s: "?send fl dl v1 = (b, v2)" by (metis surj_pair)
    have "acted False 2 (files rt) v (files rt) v1" using R Inr by (simp add: reads_only_acted)
    from release_then [OF this full send_kv_replied [OF s]]
    have "replied MSG_STATUS False (2 - 2 * int (length kvs)) (ep_in_fd rt) ?req (files rt) v (files rt) v2 b" by simp
    from replied_free [OF replied_free [OF this, of True], of True] show ?thesis
      using run s unfolding op Inr ts by simp
  qed
qed

text \<open>Every file is small enough for the length field of a frame.\<close>

definition files_small :: "vfs \<Rightarrow> bool" where
  "files_small v \<longleftrightarrow> (\<forall>i. length (i_data (inodes v i)) + 24 < 2 ^ 32)"

lemma file_read_size:
  assumes "usb_responder_file_read (Some rel) w = (Some (data, nonnull), w')" and "files_small (vfs w)"
  shows "length data + 24 < 2 ^ 32"
proof (cases rule: build_path_request [of rel w])
  case (bad out w1)
  then show ?thesis using assms(1) by (simp add: usb_responder_file_read_def)
next
  case ok
  have "usb_responder_read_file_all (render (comps (c_str rel))) w = (Some (data, nonnull), w')"
    using assms(1) ok by (simp add: usb_responder_file_read_def)
  from read_file_all_spec(1) [OF this] obtain st p where st: "node_at (vfs w) p = Some st" "data = [] \<or> data = i_data st"
    by (auto simp: read_result_def split: if_splits)
  from st(1) have "\<exists>i. st = inodes (vfs w) i" by (auto simp: node_at_def split: sum.splits option.splits)
  then show ?thesis using st(2) assms(2) by (auto simp: files_small_def)
qed

lemma file_get_handled:
  assumes "frame_wf inp" "files_small (vfs w)" and "handle_file_get rt inp w = (ok, w')"
  shows "handled MSG_FILE_GET False rt inp w (files rt) w' ok"
proof (rule with_kvs_handled [OF assms(3) [unfolded handle_file_get_def Let_def] assms(1)])
  let ?req = "request_id (header inp)"
  fix kvs and v :: "'a rt_world_scheme"
  let ?fr = "\<lambda>data nonnull. reply_frame MSG_FILE_GET ?req (if nonnull then Some data else None) (length data)"
  assume run: "(case kv_get kvs ''path'' of
      None \<Rightarrow> send_error rt ?req ''missing path'' (usb_responder_protocol_kv_free kvs v)
    | Some path \<Rightarrow>
        (case usb_responder_file_read (Some path) v of
           (None, w1) \<Rightarrow> send_error rt ?req ''read file failed'' (usb_responder_protocol_kv_free kvs w1)
         | (Some (data, nonnull), w1) \<Rightarrow>
             if 2 ^ 32 \<le> length data then
               send_error rt ?req ''file too large'' (usb_responder_protocol_kv_free kvs (c_free nonnull w1))
             else
               (case usb_responder_protocol_write_frame (ep_in_fd rt) (?fr data nonnull)
                       (usb_responder_protocol_kv_free kvs w1) of
                  (ok, w2) \<Rightarrow> (ok, c_free nonnull w2)))) = (ok, w')"
    and full: "list_all kv_full kvs" and same: "vfs v = vfs w"
  show "replied MSG_FILE_GET False (- 2 * int (length kvs)) (ep_in_fd rt) ?req (files rt) v (files rt) w' ok"
  proof (cases "kv_get kvs ''path''")
    case None
    then show ?thesis using run error_then_replied [OF acted_refl full] by simp
  next
    case (Some path)
    obtain r v1 where rd: "usb_responder_file_read (Some path) v = (r, v1)" by (metis surj_pair)
    note R = file_read_reads [OF rd]
    show ?thesis
    proof (cases r)
      case None
      then have "acted False 0 (files rt) v (files rt) v1" using R by (simp add: reads_only_acted)
      then show ?thesis using run Some rd None error_then_replied [OF _ full] by simp
    next
      case r: (Some x)
      obtain data nonnull where x: "x = (data, nonnull)" by (cases x)
      have small: "length data + 24 < 2 ^ 32"
        using file_read_size [OF rd [unfolded r x]] assms(2) same by simp
      let ?d = "if nonnull then 1 else 0 :: int"
      have a: "acted False ?d (files rt) v (files rt) v1" and e: "\<not> nonnull \<Longrightarrow> data = []"
        using R r x reads_only_acted by (cases nonnull; fastforce)+
      have sized: "frame_sized (?fr data nonnull)"
        using reply_frame_sized [OF small] e by (cases nonnull) (simp_all add: frame_sized_def frame_body_def reply_frame_def)
      obtain b v2 where wf: "usb_responder_protocol_write_frame (ep_in_fd rt) (?fr data nonnull)
          (usb_responder_protocol_kv_free kvs v1) = (b, v2)" by (metis surj_pair)
      have "ok = b" "w' = c_free nonnull v2" using run Some rd r x small wf by simp_all
      moreover have "replied MSG_FILE_GET False (?d - 2 * int (length kvs)) (ep_in_fd rt) ?req (files rt) v (files rt) v2 b"
        using release_then [OF a full write_frame_replied [OF wf sized _ _, of MSG_FILE_GET]] by (simp add: reply_frame_def)
      ultimately show ?thesis using replied_free [of MSG_FILE_GET False "?d - 2 * int (length kvs)" _ _ _ _ _ v2 b nonnull]
        by (cases nonnull) simp_all
    qed
  qed
qed

text \<open>A complete frame with at least four bytes declared has them.\<close>

lemma upload_id_wf: "frame_wf inp \<Longrightarrow> \<exists>tid. upload_id inp = Some tid"
proof (cases "4 \<le> payload_len (header inp)")
  case True
  assume wf: "frame_wf inp"
  have "4 \<le> unat (payload_len (header inp))" using True by (simp add: word_le_nat_alt)
  moreover from this obtain p where "payload inp = Some p" using wf by (auto simp: frame_wf_def frame_sized_def frame_body_def split: option.splits)
  moreover have "length p = unat (payload_len (header inp))" using wf \<open>payload inp = Some p\<close>
    by (simp add: frame_wf_def frame_sized_def frame_body_def)
  ultimately show ?thesis using True read_le32_in [of 0 p] by (auto simp: upload_id_def)
qed (simp add: upload_id_def)

lemma upload_status_replied:
  assumes "upload_status rt req s (b, ops1, v) = (ok, rt', w')" and "acted True 0 ops w ops1 v"
  shows "replied MSG_STATUS True 0 (ep_in_fd rt) req ops w (files rt') w' ok" and "rt' = rt\<lparr>files := files rt'\<rparr>"
proof -
  have "\<exists>x. (if b then send_kv_response rt MSG_STATUS req status_ok v else send_last_error rt req s v) = x" by simp
  then obtain c u where run: "(if b then send_kv_response rt MSG_STATUS req status_ok v else send_last_error rt req s v) = (c, u)"
    by (metis surj_pair)
  then have eq: "ok = c" "rt' = rt\<lparr>files := ops1\<rparr>" "w' = u" using assms(1) by (cases b; simp add: upload_status_def)+
  have "replied MSG_STATUS True 0 (ep_in_fd rt) req ops1 v ops1 u c"
    using run send_kv_replied [of rt MSG_STATUS req status_ok v c u MSG_STATUS] send_last_error_replied [of rt req s v c u]
    by (cases b) (simp_all add: status_ok_def)
  from acted_replied [OF assms(2) this] show "replied MSG_STATUS True 0 (ep_in_fd rt) req ops w (files rt') w' ok" by (simp add: eq)
  show "rt' = rt\<lparr>files := files rt'\<rparr>" by (simp add: eq)
qed

lemma put_chunk_replied:
  assumes "frame_wf inp" and "handle_file_put_chunk rt inp w = (ok, rt', w')"
  shows "replied MSG_STATUS True 0 (ep_in_fd rt) (request_id (header inp)) (files rt) w (files rt') w' ok"
    and "rt' = rt\<lparr>files := files rt'\<rparr>"
proof -
  obtain tid where t: "upload_id inp = Some tid" using upload_id_wf [OF assms(1)] by blast
  define chunk where "chunk = (if 4 \<le> payload_len (header inp) then map_option (drop 4) (payload inp) else payload inp)"
  obtain b ops1 v where ap: "usb_responder_file_append_upload_chunk (files rt) tid chunk w = (b, ops1, v)" by (metis prod_cases3)
  have "upload_status rt (request_id (header inp)) ''append upload failed'' (b, ops1, v) = (ok, rt', w')"
    using assms(2) by (simp add: handle_file_put_chunk_def t ap [unfolded chunk_def])
  note this append_acted [OF ap]
  from upload_status_replied [OF this] show "replied MSG_STATUS True 0 (ep_in_fd rt) (request_id (header inp)) (files rt) w (files rt') w' ok"
    "rt' = rt\<lparr>files := files rt'\<rparr>" by blast+
qed

lemma put_end_replied:
  assumes "frame_wf inp" and "handle_file_put_end rt inp w = (ok, rt', w')"
  shows "replied MSG_STATUS True 0 (ep_in_fd rt) (request_id (header inp)) (files rt) w (files rt') w' ok"
    and "rt' = rt\<lparr>files := files rt'\<rparr>"
proof -
  obtain tid where t: "upload_id inp = Some tid" using upload_id_wf [OF assms(1)] by blast
  obtain b ops1 v where fi: "usb_responder_file_finish_upload (files rt) tid w = (b, ops1, v)" by (metis prod_cases3)
  have "upload_status rt (request_id (header inp)) ''finish upload failed'' (b, ops1, v) = (ok, rt', w')"
    using assms(2) by (simp add: handle_file_put_end_def t fi)
  note this finish_acted [OF fi]
  from upload_status_replied [OF this] show "replied MSG_STATUS True 0 (ep_in_fd rt) (request_id (header inp)) (files rt) w (files rt') w' ok"
    "rt' = rt\<lparr>files := files rt'\<rparr>" by blast+
qed

section \<open>Commands and device information\<close>

lemma result_free_acted: "acted c (- result_blocks r) ops w ops (snd (usb_responder_shell_exec_result_free r w))"
  using acted_then [OF free_acted [of c "sr_stdout r \<noteq> []" ops w] free_acted [of c "sr_stderr r \<noteq> []" ops]]
  by (simp add: usb_responder_shell_exec_result_free_def result_blocks_def holds_def split: if_splits)

lemma shell_acted:
  assumes "usb_responder_exec_shell command opts w = (Done r, w')"
  shows "acted c (case r of None \<Rightarrow> 0 | Some res \<Rightarrow> result_blocks res) ops w ops w' \<and>
    (\<forall>res. r = Some res \<longrightarrow> length (sr_stdout res) \<le> unat (opt_max_stdout opts) \<and> length (sr_stderr res) \<le> unat (opt_max_stderr opts))"
  using exec_shell_spec [OF assms] sh_keeps_acted [of w w' _ c ops] by (cases r) (auto simp: exec_finished_def)

lemma send_command_result_replied:
  assumes run: "send_command_result rt req r w = (ok, w')" and small: "length (sr_stdout r) + length (sr_stderr r) + 44 < 2 ^ 32"
  shows "replied MSG_COMMAND_RESULT c (- result_blocks r) (ep_in_fd rt) req ops w ops w' ok"
proof -
  let ?free = "\<lambda>v. snd (usb_responder_shell_exec_result_free r v)"
  let ?enc = "usb_responder_protocol_encode_command_result (result_of_shell r)"
  show ?thesis
  proof (cases rule: c_malloc_cases [of w])
    case (fail w1)
    then have "?enc w = (Inl NoMem, w1)" by (simp add: usb_responder_protocol_encode_command_result_def)
    then have se: "send_error rt req ''encode command result failed'' (?free w1) = (ok, w')"
      using run by (simp add: send_command_result_def)
    have "acted c (- result_blocks r) ops w ops (?free w1)"
      using acted_then [OF mem_only_acted [OF fail(2)] result_free_acted [of c r ops w1]] by simp
    from acted_replied [OF this send_error_replied [OF se]] show ?thesis by simp
  next
    case m: (ok w1)
    obtain data where enc: "?enc w = (Inr data, w1)" and len: "length data = 20 + length (sr_stdout r) + length (sr_stderr r)"
      using m(1) by (simp add: usb_responder_protocol_encode_command_result_def result_of_shell_def)
    let ?fr = "reply_frame MSG_COMMAND_RESULT req (Some data) (length data)"
    obtain b w2 where wf: "usb_responder_protocol_write_frame (ep_in_fd rt) ?fr w1 = (b, w2)" by (metis surj_pair)
    have eq: "ok = b" "w' = ?free (c_free True w2)" using run enc len small wf by (simp_all add: send_command_result_def)
    have sized: "frame_sized ?fr" using small len by (intro reply_frame_sized) simp
    have "replied MSG_COMMAND_RESULT c 0 (ep_in_fd rt) req ops w1 ops w2 b"
      by (rule write_frame_replied [OF wf sized, of MSG_COMMAND_RESULT]) (simp_all add: reply_frame_def)
    from replied_acted [OF replied_free [OF acted_replied [OF mem_only_acted [OF m(2)] this], of True] result_free_acted]
    show ?thesis by (simp add: eq)
  qed
qed

text \<open>The output limits of a request leave room for the frame around the two outputs.\<close>

definition limits_small :: "responder_runtime \<Rightarrow> frame \<Rightarrow> 'a io_world_scheme \<Rightarrow> bool" where
  "limits_small rt inp w \<longleftrightarrow>
     (case fst (usb_responder_protocol_decode_command_request (payload inp) (unat (payload_len (header inp))) w) of
        Inl e \<Rightarrow> True
      | Inr req \<Rightarrow> unat (opt_max_stdout (exec_options rt req)) + unat (opt_max_stderr (exec_options rt req)) + 44 < 2 ^ 32)"

lemma command_exec_replied:
  assumes "frame_wf inp" and lim: "limits_small rt inp w" and run: "handle_command_exec rt inp w = (Done ok, w')"
  shows "replied MSG_COMMAND_RESULT True 0 (ep_in_fd rt) (request_id (header inp)) (files rt) w (files rt) w' ok"
proof -
  let ?id = "request_id (header inp)"
  let ?dec = "usb_responder_protocol_decode_command_request (payload inp) (unat (payload_len (header inp))) w"
  have len: "\<And>p. payload inp = Some p \<Longrightarrow> unat (payload_len (header inp)) \<le> length p"
    using assms(1) by (simp add: frame_wf_def frame_sized_def frame_body_def)
  consider (reject) e w1 where "?dec = (Inl e, w1)" "e \<noteq> OutOfBounds" "mem_only w w1 0"
    | (accept) req cmd w1 where "?dec = (Inr req, w1)" "req_command req = Some cmd" "mem_only w w1 1"
    by (rule decode_request_cases [of "payload inp" "unat (payload_len (header inp))" w, OF len]) blast+
  then show ?thesis
  proof cases
    case reject
    obtain b w2 where se: "send_error rt ?id ''invalid command payload'' w1 = (b, w2)" by (metis surj_pair)
    have "ok = b" "w' = w2" using run reject(1) se by (simp_all add: handle_command_exec_def)
    then show ?thesis using acted_replied [OF mem_only_acted [OF reject(3)] send_error_replied [OF se]] by simp
  next
    case accept
    let ?opts = "exec_options rt req"
    obtain sr w2 where ex: "usb_responder_exec_shell (c_str (text_or_empty (req_command req))) ?opts w1 = (sr, w2)" by (metis surj_pair)
    obtain r where r: "sr = Done r" using run accept(1) ex by (cases sr) (simp_all add: handle_command_exec_def)
    note S = shell_acted [OF ex [unfolded r], of True "files rt"]
    let ?w3 = "usb_responder_protocol_command_request_free req w2"
    let ?d = "case r of None \<Rightarrow> 0 | Some res \<Rightarrow> result_blocks res"
    have "acted True (1 + ?d + - 1) (files rt) w (files rt) ?w3"
      using acted_then [OF acted_then [OF mem_only_acted [OF accept(3)] conjunct1 [OF S]] free_acted [of True True]]
      by (simp add: usb_responder_protocol_command_request_free_def accept(2))
    then have a: "acted True ?d (files rt) w (files rt) ?w3" by simp
    show ?thesis
    proof (cases r)
      case None
      obtain b w4 where se: "send_error rt ?id ''shell exec failed'' ?w3 = (b, w4)" by (metis surj_pair)
      have "ok = b" "w' = w4" using run accept(1) ex r None se by (simp_all add: handle_command_exec_def)
      then show ?thesis using acted_replied [OF a send_error_replied [OF se]] None by simp
    next
      case (Some res)
      obtain b w4 where sc: "send_command_result rt ?id res ?w3 = (b, w4)" by (metis surj_pair)
      have eq: "ok = b" "w' = w4" using run accept(1) ex r Some sc by (simp_all add: handle_command_exec_def)
      have "length (sr_stdout res) + length (sr_stderr res) + 44 < 2 ^ 32"
        using conjunct2 [OF S] Some lim accept(1) by (auto simp: limits_small_def)
      from acted_replied [OF a send_command_result_replied [OF sc this]] show ?thesis using Some by (simp add: eq)
    qed
  qed
qed

lemma fread_at_quiet: "quiet w (snd (c_fread_at f pos want w))"
proof -
  obtain flt w1 where nf: "next_fault w = (flt, w1)" by (metis surj_pair)
  have q: "quiet w w1" using next_fault_quiet [of w flt w1] nf by blast
  show ?thesis using q quiet_trans [OF q quiet_errno]
    by (cases flt) (auto simp: c_fread_at_def nf Let_def)
qed

lemma realloc_reads:
  fixes w w' :: "'a fs_world_scheme"
  shows "c_realloc True w = (ok, w') \<Longrightarrow> reads_only w w' 0"
  by (cases rule: c_realloc_cases [of True w]) (auto simp: mem_only_reads)

lemma text_loop_reads:
  "text_loop f mx cap buf w = (r, w') \<Longrightarrow> reads_only w w' (case r of None \<Rightarrow> - 1 | Some b \<Rightarrow> 0)"
proof (induction f mx cap buf w rule: text_loop.induct)
  case (1 f mx cap buf w)
  define full where "full = (cap \<le> length buf + 1)"
  define new_cap where "new_cap = (if full then min (cap * 2) (mx + 1) else cap)"
  define want where "want = new_cap - 1 - length buf"
  obtain ok w1 where al: "(if full then c_realloc True w else (True, w)) = (ok, w1)" by (metis surj_pair)
  have a1: "reads_only w w1 0" using al realloc_reads [of w ok w1] by (auto split: if_splits)
  define rd where "rd = c_fread_at f (length buf) want w1"
  have a2: "reads_only w (snd rd) 0"
    using reads_only_trans [OF a1 quiet_reads [OF fread_at_quiet]] by (simp add: rd_def)
  have eq: "text_loop f mx cap buf w =
     (if full \<and> new_cap = cap then (Some buf, w)
      else if \<not> ok then (None, c_free True w1)
      else if length (fst rd) < want \<or> mx \<le> length buf + length (fst rd) then (Some (buf @ fst rd), snd rd)
      else text_loop f mx new_cap (buf @ fst rd) (snd rd))"
    unfolding text_loop.simps [of f mx cap buf w] Let_def full_def [symmetric] new_cap_def [symmetric] al prod.case
      want_def [symmetric] rd_def [symmetric] by simp
  consider "full \<and> new_cap = cap" | "\<not> (full \<and> new_cap = cap)" "\<not> ok"
    | "\<not> (full \<and> new_cap = cap)" "ok" "length (fst rd) < want \<or> mx \<le> length buf + length (fst rd)"
    | "\<not> (full \<and> new_cap = cap)" "ok" "\<not> (length (fst rd) < want \<or> mx \<le> length buf + length (fst rd))" by blast
  then show ?case
  proof cases
    case 1
    then show ?thesis using "1.prems" eq by auto
  next
    case 2
    then show ?thesis using "1.prems" eq reads_only_trans [OF a1 mem_only_reads [OF c_free_mem [of w1 True]]] by auto
  next
    case 3
    then show ?thesis using "1.prems" eq a2 by auto
  next
    case 4
    have "text_loop f mx new_cap (buf @ fst rd) (snd rd) = (r, w')" using "1.prems" eq 4 by simp
    from "1.IH" [OF full_def new_cap_def 4(1) al [symmetric] _ want_def rd_def 4(3) this] 4(2)
    have "reads_only (snd rd) w' (case r of None \<Rightarrow> - 1 | Some b \<Rightarrow> 0)" by simp
    from reads_only_trans [OF a2 this] show ?thesis by simp
  qed
qed

lemma read_text_file_reads:
  "read_text_file path mx w = (r, w') \<Longrightarrow> reads_only w w' (case r of None \<Rightarrow> 0 | Some b \<Rightarrow> 1)"
proof -
  assume run: "read_text_file path mx w = (r, w')"
  obtain f w1 where op: "c_fopen_rb path w = (f, w1)" by (metis surj_pair)
  have q: "reads_only w w1 0" by (rule quiet_reads [OF stat_spec(1) [OF op [unfolded c_fopen_rb_def]]])
  show ?thesis
  proof (cases f)
    case None
    then show ?thesis using run op q by (auto simp: read_text_file_def)
  next
    case (Some i)
    show ?thesis
    proof (cases rule: c_malloc_cases [of w1])
      case (fail w2)
      then show ?thesis using run op Some reads_only_trans [OF q mem_only_reads [OF fail(2)]] by (auto simp: read_text_file_def)
    next
      case (ok w2)
      obtain b w3 where tl: "text_loop i mx 1024 [] w2 = (b, w3)" by (metis surj_pair)
      have "reads_only w w3 (1 + (case b of None \<Rightarrow> - 1 | Some b \<Rightarrow> 0))"
        using reads_only_trans [OF reads_only_trans [OF q mem_only_reads [OF ok(2)]] text_loop_reads [OF tl]] by simp
      then show ?thesis using run op Some ok(1) tl by (cases b) (auto simp: read_text_file_def)
    qed
  qed
qed

lemma or_strdup_acted:
  assumes "or_strdup t w = (s, w')"
  shows "acted c (holds (s \<noteq> None) - holds (t \<noteq> None)) ops w ops w'"
proof (cases t)
  case (Some x)
  then show ?thesis using assms by (simp add: or_strdup_def)
next
  case None
  then show ?thesis using assms
    by (cases rule: c_malloc_cases [of w]) (auto simp: or_strdup_def mem_only_acted)
qed

lemma storage_info_quiet: "usb_responder_storage_info_read w = (st, w') \<Longrightarrow> quiet w w'"
proof -
  assume run: "usb_responder_storage_info_read w = (st, w')"
  have sv: "quiet u v" if "storage_statvfs_or_zero p u = (x, v)" for p u x and v :: "'a fs_world_scheme"
  proof -
    obtain b u1 where "plain_call u = (b, u1)" by (metis surj_pair)
    then show ?thesis using that plain_call_quiet [of u b u1] by (cases b) (auto simp: storage_statvfs_or_zero_def)
  qed
  obtain x w1 where s1: "storage_statvfs_or_zero ''/'' w = (x, w1)" by (metis surj_pair)
  obtain sd w2 where s2: "is_sd_mounted w1 = (sd, w2)" by (metis surj_pair)
  obtain y w3 where s3: "(if sd then storage_statvfs_or_zero ''/sd'' w2 else ((0, 0), w2)) = (y, w3)" by (metis surj_pair)
  have "w' = w3" using run s1 s2 s3 by (auto simp: usb_responder_storage_info_read_def Let_def split: prod.splits)
  moreover have "quiet w2 w3" using s3 sv [of "''/sd''" w2 y w3] by (auto split: if_splits)
  moreover have "quiet w1 w2" using is_sd_mounted_present [of w1] s2 by simp
  ultimately show ?thesis using sv [OF s1] quiet_trans by blast
qed

lemma exec_capture_acted:
  assumes "exec_capture_trim cmd t w = (Done r, w')"
  shows "acted c (holds (r \<noteq> None)) ops w ops w'"
proof -
  let ?opts = "\<lparr>opt_timeout_ms = t, opt_max_stdout = 4096, opt_max_stderr = 4096\<rparr>"
  obtain s w1 where ex: "usb_responder_exec_shell cmd ?opts w = (s, w1)" by (metis surj_pair)
  obtain x where s: "s = Done x" using assms ex by (cases s) (simp_all add: exec_capture_trim_def)
  note A = conjunct1 [OF shell_acted [OF ex [unfolded s], of c ops]]
  show ?thesis
  proof (cases x)
    case None
    then show ?thesis using assms ex s A by (simp add: exec_capture_trim_def)
  next
    case (Some res)
    have fr: "acted c (result_blocks res + d - result_blocks res) ops w ops (snd (usb_responder_shell_exec_result_free res v))"
      if "acted c (result_blocks res + d) ops w ops v" for d v
      using acted_then [OF that result_free_acted [of c res]] by simp
    show ?thesis
    proof (cases "sr_timed_out res \<or> sr_exit_code res \<noteq> 0")
      case True
      then have "r = None" "w' = snd (usb_responder_shell_exec_result_free res w1)"
        using assms ex s Some by (simp_all add: exec_capture_trim_def)
      then show ?thesis using fr [of 0 w1] A Some by simp
    next
      case False
      obtain b w2 where m: "c_malloc w1 = (b, w2)" by (metis surj_pair)
      have "mem_only w1 w2 (holds b)" using m by (cases rule: c_malloc_cases [of w1]) auto
      then have "acted c (result_blocks res + holds b) ops w ops w2" using acted_then A Some mem_only_acted by fastforce
      from fr [OF this] show ?thesis using assms ex s Some False m by (cases b) (auto simp: exec_capture_trim_def)
    qed
  qed
qed

lemma plain_call_acted: "plain_call w = (b, w') \<Longrightarrow> acted c 0 ops w ops w'"
  by (rule quiet_acted) (use plain_call_quiet in blast)

lemma read_text_acted: "read_text_file path mx w = (r, w') \<Longrightarrow> acted c (holds (r \<noteq> None)) ops w ops w'"
  using reads_only_acted [OF read_text_file_reads [of path mx w r w']] by (cases r) simp_all

lemma devinfo_replied:
  assumes "handle_devinfo rt inp w = (Done ok, w')"
  shows "replied MSG_DEVINFO True 0 (ep_in_fd rt) (request_id (header inp)) (files rt) w (files rt) w' ok"
proof -
  obtain m w1 where s1: "read_text_file ''/proc/device-tree/model'' 4096 w = (m, w1)" by (metis surj_pair)
  obtain model w2 where s2: "or_strdup m w1 = (model, w2)" by (metis surj_pair)
  obtain named w3 where s3: "plain_call w2 = (named, w3)" by (metis surj_pair)
  obtain rf w4 where s4: "read_text_file ''/etc/os-release'' 8192 w3 = (rf, w4)" by (metis surj_pair)
  obtain rootfs w5 where s5: "or_strdup rf w4 = (rootfs, w5)" by (metis surj_pair)
  obtain ac w6 where s6: "exec_capture_trim ''/root/epass_drm_app version'' 3000 w5 = (ac, w6)" by (metis surj_pair)
  obtain a where a: "ac = Done a"
    using assms unfolding handle_devinfo_def s1 s2 s3 s4 s5 s6 prod.case by (cases ac) simp_all
  obtain app w7 where s7: "or_strdup a w6 = (app, w7)" by (metis surj_pair)
  obtain st w8 where s8: "usb_responder_storage_info_read w7 = (st, w8)" by (metis surj_pair)
  let ?its = "devinfo_items (text_or_empty model) (if named then un_release w8 else []) (text_or_empty rootfs) (text_or_empty app) st"
  obtain b w9 where s9: "send_kv_response rt MSG_DEVINFO (request_id (header inp)) ?its w8 = (b, w9)" by (metis surj_pair)
  have eq: "ok = b" "w' = c_free (app \<noteq> None) (c_free (rootfs \<noteq> None) (c_free (model \<noteq> None) w9))"
    using assms unfolding handle_devinfo_def s1 s2 s3 s4 s5 s6 a s7 s8 s9 prod.case io.case by simp_all
  let ?f = "files rt"
  note T = acted_then [of True]
  have A2: "acted True (holds (model \<noteq> None)) ?f w ?f w2"
    using T [OF read_text_acted [OF s1] or_strdup_acted [OF s2]] by simp
  have A4: "acted True (holds (model \<noteq> None) + holds (rf \<noteq> None)) ?f w ?f w4"
    using T [OF T [OF A2 plain_call_acted [OF s3]] read_text_acted [OF s4]] by simp
  have A5: "acted True (holds (model \<noteq> None) + holds (rootfs \<noteq> None)) ?f w ?f w5"
    using T [OF A4 or_strdup_acted [OF s5]] by simp
  have A7: "acted True (holds (model \<noteq> None) + holds (rootfs \<noteq> None) + holds (app \<noteq> None)) ?f w ?f w7"
    using T [OF T [OF A5 exec_capture_acted [OF s6 [unfolded a]]] or_strdup_acted [OF s7]] by (simp add: add.assoc)
  have A8: "acted True (holds (model \<noteq> None) + holds (rootfs \<noteq> None) + holds (app \<noteq> None)) ?f w ?f w8"
    using T [OF A7 quiet_acted [OF storage_info_quiet [OF s8]]] by simp
  have "replied MSG_DEVINFO True 0 (ep_in_fd rt) (request_id (header inp)) ?f w8 ?f w9 b"
    by (rule send_kv_replied [OF s9]) (simp_all add: devinfo_items_def)
  from replied_free [OF replied_free [OF replied_free [OF acted_replied [OF A8 this], of "model \<noteq> None"], of "rootfs \<noteq> None"], of "app \<noteq> None"]
  show ?thesis unfolding eq by (rule replied_mono) (simp_all add: holds_def)
qed

section \<open>The dispatcher\<close>

text \<open>The type of the answer to a request, and the requests that may change the tree.\<close>

definition answer_type :: "u16 \<Rightarrow> msg" where
  "answer_type c =
     (case msg_of c of
        Some MSG_FILE_GET \<Rightarrow> MSG_FILE_GET | Some MSG_COMMAND_EXEC \<Rightarrow> MSG_COMMAND_RESULT
      | Some MSG_DEVINFO \<Rightarrow> MSG_DEVINFO | Some MSG_STATUS \<Rightarrow> MSG_ERROR | Some MSG_ERROR \<Rightarrow> MSG_ERROR
      | Some MSG_COMMAND_RESULT \<Rightarrow> MSG_ERROR | None \<Rightarrow> MSG_ERROR | _ \<Rightarrow> MSG_STATUS)"

definition kv_requests :: "msg set" where
  "kv_requests = {MSG_FILE_PUT_BEGIN, MSG_FILE_GET, MSG_FILE_LIST, MSG_FILE_DELETE, MSG_FILE_RENAME, MSG_FILE_MKDIR, MSG_FILE_STAT}"

definition writing_requests :: "msg set" where
  "writing_requests = {MSG_FILE_PUT_BEGIN, MSG_FILE_PUT_CHUNK, MSG_FILE_PUT_END, MSG_FILE_DELETE, MSG_FILE_RENAME, MSG_FILE_MKDIR,
     MSG_COMMAND_EXEC, MSG_DEVINFO}"

definition undecodable :: "frame \<Rightarrow> 'a io_world_scheme \<Rightarrow> bool" where
  "undecodable inp w \<longleftrightarrow> msg_of (msg_type (header inp)) \<in> Some ` kv_requests \<and> malformed inp w"

definition may_write :: "frame \<Rightarrow> 'a io_world_scheme \<Rightarrow> bool" where
  "may_write inp w \<longleftrightarrow> msg_of (msg_type (header inp)) \<in> Some ` writing_requests \<and> \<not> undecodable inp w"

definition handled_frame ::
  "responder_runtime \<Rightarrow> frame \<Rightarrow> 'a rt_world_scheme \<Rightarrow> responder_runtime \<Rightarrow> 'a rt_world_scheme \<Rightarrow> bool \<Rightarrow> bool" where
  "handled_frame rt inp w rt' w' ok \<longleftrightarrow>
     (\<exists>d. (d = 0 \<or> undecodable inp w \<and> 0 < d \<and> d \<le> 64) \<and>
        replied (answer_type (msg_type (header inp))) (may_write inp w) d (ep_in_fd rt) (request_id (header inp)) (files rt) w
          (files rt') w' ok) \<and>
     rt' = rt\<lparr>files := files rt'\<rparr>"

lemma handled_kv_frame:
  assumes "handled ty c rt inp w (files rt') w' ok" and "rt' = rt\<lparr>files := files rt'\<rparr>"
    and "msg_of (msg_type (header inp)) = Some m" "m \<in> kv_requests" "ty = answer_type (msg_type (header inp))" "c \<longleftrightarrow> m \<in> writing_requests"
  shows "handled_frame rt inp w rt' w' ok"
proof -
  have "undecodable inp w = malformed inp w" "may_write inp w = (c \<and> \<not> malformed inp w)"
    using assms(3,4,6) by (auto simp: undecodable_def may_write_def)
  then show ?thesis using assms(1,2,5) by (simp only: handled_def handled_frame_def simp_thms)
qed

lemma handled_plain_frame:
  assumes "replied ty c 0 (ep_in_fd rt) (request_id (header inp)) (files rt) w (files rt') w' ok" and "rt' = rt\<lparr>files := files rt'\<rparr>"
    and "ty = answer_type (msg_type (header inp))"
    and "msg_of (msg_type (header inp)) \<notin> Some ` kv_requests" "c \<longleftrightarrow> msg_of (msg_type (header inp)) \<in> Some ` writing_requests"
  shows "handled_frame rt inp w rt' w' ok"
proof -
  have "\<not> undecodable inp w" "may_write inp w = c" using assms(4,5) by (auto simp: undecodable_def may_write_def)
  then show ?thesis using assms(1,2,3) unfolding handled_frame_def by blast
qed

end
