(* ===== verification/Dispatch.thy ===== *)
theory Dispatch
  imports Replies
begin

text \<open>
  The dispatcher \<open>handle_frame\<close> (\<open>src/responder.c\<close>): every request is answered by one frame with its id,
  the heap is balanced, the upload table stays consistent and only the requests that are meant to
  write reach the tree; and what the answer to a file request carries.
\<close>

section \<open>The contract of the dispatcher\<close>

text \<open>The answer fits a frame: the files are small enough, and so are the outputs a command may return.\<close>

definition answer_fits :: "responder_runtime \<Rightarrow> frame \<Rightarrow> 'a fs_world_scheme \<Rightarrow> bool" where
  "answer_fits rt inp w \<longleftrightarrow> files_small (vfs w) \<and>
     (msg_of (msg_type (header inp)) = Some MSG_COMMAND_EXEC \<longrightarrow> limits_small rt inp w)"

lemma io_reply_Done:
  assumes "io_reply rt r = (Done (ok, rt'), w')"
  shows "r = (Done ok, w')" "rt' = rt"
  using assms by (cases r; cases "fst r"; simp add: io_reply_def)+

lemma pure_reply_Done:
  assumes "pure_reply rt r = (Done (ok, rt'), w')"
  shows "r = (ok, w')" "rt' = rt"
  using assms by (cases r; simp add: pure_reply_def)+

lemma upload_reply_Done: "upload_reply r = (Done (ok, rt'), w') \<Longrightarrow> r = (ok, rt', w')"
  by (cases r) (simp add: upload_reply_def)

lemmas request_sets = kv_requests_def writing_requests_def answer_type_def

lemma handle_frame_contract:
  assumes wf: "frame_wf inp" and len: "length (files rt) = 16" and fits: "answer_fits rt inp w"
    and run: "handle_frame rt inp w = (Done (ok, rt'), w')"
  shows "handled_frame rt inp w rt' w' ok"
proof -
  let ?m = "msg_of (msg_type (header inp))" and ?req = "request_id (header inp)"
  have same: "rt = rt\<lparr>files := files rt\<rparr>" by simp
  have unsupported: "handled_frame rt inp w rt' w' ok"
    if "pure_reply rt (send_error rt ?req ''unsupported message type'' w) = (Done (ok, rt'), w')"
      "?m \<in> {None, Some MSG_STATUS, Some MSG_ERROR, Some MSG_COMMAND_RESULT}"
  proof -
    note P = pure_reply_Done [OF that(1)]
    show ?thesis unfolding P(2)
      by (rule handled_plain_frame [OF send_error_replied [OF P(1)] same])
        (use that(2) in \<open>auto simp: request_sets\<close>)
  qed
  show ?thesis
  proof (cases ?m)
    case None
    then show ?thesis using run unsupported by (simp add: handle_frame_def)
  next
    case m: (Some m)
    note run = run [unfolded handle_frame_def Let_def m option.case]
    show ?thesis
    proof (cases m)
      case MSG_HELLO
      note P = pure_reply_Done [OF run [unfolded MSG_HELLO msg.case]]
      show ?thesis unfolding P(2)
        by (rule handled_plain_frame [OF send_kv_replied [OF P(1), of MSG_STATUS] same])
          (use m MSG_HELLO in \<open>auto simp: request_sets\<close>)
    next
      case MSG_FILE_PUT_BEGIN
      note P = file_put_begin_handled [OF wf len upload_reply_Done [OF run [unfolded MSG_FILE_PUT_BEGIN msg.case]]]
      show ?thesis by (rule handled_kv_frame [OF P m]) (simp_all add: request_sets MSG_FILE_PUT_BEGIN m)
    next
      case MSG_FILE_PUT_CHUNK
      note P = put_chunk_replied [OF wf upload_reply_Done [OF run [unfolded MSG_FILE_PUT_CHUNK msg.case]]]
      show ?thesis by (rule handled_plain_frame [OF P]) (use m MSG_FILE_PUT_CHUNK in \<open>auto simp: request_sets\<close>)
    next
      case MSG_FILE_PUT_END
      note P = put_end_replied [OF wf upload_reply_Done [OF run [unfolded MSG_FILE_PUT_END msg.case]]]
      show ?thesis by (rule handled_plain_frame [OF P]) (use m MSG_FILE_PUT_END in \<open>auto simp: request_sets\<close>)
    next
      case MSG_FILE_GET
      note P = pure_reply_Done [OF run [unfolded MSG_FILE_GET msg.case]]
      have "files_small (vfs w)" using fits by (simp add: answer_fits_def)
      then show ?thesis unfolding P(2)
        by (rule handled_kv_frame [OF file_get_handled [OF wf _ P(1)] same m]) (simp_all add: request_sets MSG_FILE_GET m)
    next
      case MSG_FILE_LIST
      note P = pure_reply_Done [OF run [unfolded MSG_FILE_LIST msg.case]]
      show ?thesis unfolding P(2)
        by (rule handled_kv_frame [OF file_list_handled [OF wf P(1)] same m]) (simp_all add: request_sets MSG_FILE_LIST m)
    next
      case MSG_FILE_DELETE
      note P = pure_reply_Done [OF run [unfolded MSG_FILE_DELETE msg.case]]
      show ?thesis unfolding P(2)
        by (rule handled_kv_frame [OF file_delete_handled [OF wf P(1)] same m]) (simp_all add: request_sets MSG_FILE_DELETE m)
    next
      case MSG_FILE_RENAME
      note P = pure_reply_Done [OF run [unfolded MSG_FILE_RENAME msg.case]]
      show ?thesis unfolding P(2)
        by (rule handled_kv_frame [OF file_rename_handled [OF wf P(1)] same m]) (simp_all add: request_sets MSG_FILE_RENAME m)
    next
      case MSG_FILE_MKDIR
      note P = pure_reply_Done [OF run [unfolded MSG_FILE_MKDIR msg.case]]
      show ?thesis unfolding P(2)
        by (rule handled_kv_frame [OF file_mkdir_handled [OF wf P(1)] same m]) (simp_all add: request_sets MSG_FILE_MKDIR m)
    next
      case MSG_FILE_STAT
      note P = pure_reply_Done [OF run [unfolded MSG_FILE_STAT msg.case]]
      show ?thesis unfolding P(2)
        by (rule handled_kv_frame [OF file_stat_handled [OF wf P(1)] same m]) (simp_all add: request_sets MSG_FILE_STAT m)
    next
      case MSG_COMMAND_EXEC
      note P = io_reply_Done [OF run [unfolded MSG_COMMAND_EXEC msg.case]]
      have "limits_small rt inp w" using fits m MSG_COMMAND_EXEC by (simp add: answer_fits_def)
      then show ?thesis unfolding P(2)
        by (rule handled_plain_frame [OF command_exec_replied [OF wf _ P(1)] same])
          (use m MSG_COMMAND_EXEC in \<open>auto simp: request_sets\<close>)
    next
      case MSG_DEVINFO
      note P = io_reply_Done [OF run [unfolded MSG_DEVINFO msg.case]]
      show ?thesis unfolding P(2)
        by (rule handled_plain_frame [OF devinfo_replied [OF P(1)] same]) (use m MSG_DEVINFO in \<open>auto simp: request_sets\<close>)
    qed (use run m unsupported in simp_all)
  qed
qed

text \<open>What the host sees of an answer: the transfers sent since, put together and decoded, are one frame.\<close>

definition host_gets :: "int \<Rightarrow> 'a io_world_scheme \<Rightarrow> 'a io_world_scheme \<Rightarrow> frame \<Rightarrow> bool" where
  "host_gets fd w w' fr \<longleftrightarrow>
     (\<exists>ts. sent w' = sent w @ map (Pair fd) ts \<and> transfers_of (concat ts) ts \<and> frame_dec (concat ts) = Some fr)"

lemma frame_on_wire:
  assumes "frame_sized fr" and "transfers_of (frame_bytes fr) ts"
  shows "\<exists>fr'. frame_dec (concat ts) = Some fr' \<and> transfers_of (concat ts) ts \<and> msg_type (header fr') = msg_type (header fr) \<and>
    request_id (header fr') = request_id (header fr) \<and> frame_body fr' = frame_body fr"
proof -
  define fr' where "fr' = sealed (fr\<lparr>payload := (if payload_len (header fr) = 0 then None else Some (frame_body fr))\<rparr>)"
  have b: "frame_body fr' = frame_body fr"
    using assms(1) by (auto simp: fr'_def sealed_def frame_body_def frame_sized_def split: option.splits)
  have h: "msg_type (header fr') = msg_type (header fr)" "request_id (header fr') = request_id (header fr)"
    "payload_len (header fr') = payload_len (header fr)" "flags (header fr') = flags (header fr)"
    by (simp_all add: fr'_def sealed_def)
  have "frame_wf fr'" using assms(1) b by (auto simp: fr'_def frame_wf_def frame_sized_def sealed_def frame_body_def)
  moreover from this have "frame_enc fr' = frame_bytes fr'" by (simp add: frame_enc_eq frame_wf_sized)
  moreover have "frame_bytes fr' = frame_bytes fr" by (simp add: frame_bytes_def b h)
  ultimately have "frame_dec (frame_bytes fr) = Some fr'" using frame_codec.dec_enc [of fr'] by simp
  then show ?thesis using b h transfers_of_concat [OF assms(2)] assms(2) by auto
qed

lemma answers_host:
  assumes "answers fd m req w w' True"
  shows "\<exists>fr. host_gets fd w w' fr \<and> msg_type (header fr) = msg_code m \<and> request_id (header fr) = req"
proof -
  from assms obtain fr ts where fr: "msg_type (header fr) = msg_code m" "request_id (header fr) = req" "frame_sized fr"
    "sent w' = sent w @ map (Pair fd) ts" "transfers_of (frame_bytes fr) ts" by (auto simp: answers_def)
  then show ?thesis using frame_on_wire [OF fr(3,5)] unfolding host_gets_def by metis
qed

section \<open>What the answers carry\<close>

lemma kv_enc_decodes:
  assumes "kv_wf its" and "payload inp = Some (kv_enc its)" "unat (payload_len (header inp)) = length (kv_enc its)" "allocs w = []"
  shows "usb_responder_protocol_decode_kv (payload inp) (unat (payload_len (header inp))) 32 w
    = (Inr its, w\<lparr>live := live w + 2 * int (length its)\<rparr>)" and "list_all kv_full its"
proof -
  have "kv_enc its = kv_bytes its"
    by (rule encode_kv_cases [of its calm_world]) (use assms(1) in \<open>auto simp: kv_wf_def kv_enc_def\<close>)
  then show "usb_responder_protocol_decode_kv (payload inp) (unat (payload_len (header inp))) 32 w
    = (Inr its, w\<lparr>live := live w + 2 * int (length its)\<rparr>)"
    using decode_kv_bytes [of its 32 w "[]"] assms by (simp add: kv_wf_def map_kv_trunc_id)
  show "list_all kv_full its"
    using assms(1) by (auto simp: kv_wf_def kv_item_wf_def kv_full_def list_all_iff split: option.splits)
qed

lemma host_gets_frame:
  assumes "usb_responder_protocol_write_frame fd fr w = (True, w')" "frame_sized fr"
  shows "\<exists>fr'. host_gets fd w w' fr' \<and> msg_type (header fr') = msg_type (header fr) \<and>
    request_id (header fr') = request_id (header fr) \<and> frame_body fr' = frame_body fr"
proof -
  from write_frame_cases [OF assms(2,1)] obtain ts where
    ts: "sent w' = sent w @ map (Pair fd) ts" "transfers_of (frame_bytes fr) ts" by auto
  then show ?thesis using frame_on_wire [OF assms(2) ts(2)] unfolding host_gets_def by metis
qed

lemma host_gets_same:
  "sent v = sent w \<Longrightarrow> sent v' = sent w' \<Longrightarrow> host_gets fd v v' fr = host_gets fd w w' fr"
  by (simp add: host_gets_def)

lemma file_read_found:
  assumes wf: "fs_wf (vfs w)" and acc: "accepted_path rel" and st: "fs_get (vfs w) (comps (c_str rel)) = Some st" "i_kind st = Reg"
    and calm: "faults w = []" "allocs w = []"
  shows "\<exists>nonnull w'. usb_responder_file_read (Some rel) w = (Some (i_data st, nonnull), w')"
proof (cases rule: build_path_request [of rel w])
  case ok
  obtain r w' where rd: "usb_responder_read_file_all (render (comps (c_str rel))) w = (r, w')" by (metis surj_pair)
  have run: "usb_responder_file_read (Some rel) w = (r, w')" using ok(2) rd by (simp add: usb_responder_file_read_def)
  note R = read_file_all_spec(2) [OF rd, unfolded ok(3) node_at_get [OF wf]]
  show ?thesis using R [OF calm st(1)] st(2) run by auto
next
  case (bad out w1)
  then show ?thesis using acc by simp
qed

lemma file_get_answer:
  assumes wf: "frame_wf inp" and ty: "msg_type (header inp) = msg_code MSG_FILE_GET"
    and pl: "kv_wf its" "payload inp = Some (kv_enc its)" and path: "kv_get its ''path'' = Some path"
    and calm: "faults w = []" "allocs w = []" "wscript w = []"
    and rd: "usb_responder_file_read (Some path) (w\<lparr>live := live w + 2 * int (length its)\<rparr>) = (Some (data, nonnull), w1)"
    and size: "length data + 24 < 2 ^ 32"
  shows "\<exists>w' fr. handle_frame rt inp w = (Done (True, rt), w') \<and> host_gets (ep_in_fd rt) w w' fr \<and>
    msg_type (header fr) = msg_code MSG_FILE_GET \<and> request_id (header fr) = request_id (header inp) \<and> frame_body fr = data"
proof -
  let ?req = "request_id (header inp)"
  have len: "unat (payload_len (header inp)) = length (kv_enc its)"
    using wf pl(2) by (simp add: frame_wf_def frame_sized_def frame_body_def)
  note dec = kv_enc_decodes [OF pl len calm(2)]
  let ?w0 = "w\<lparr>live := live w + 2 * int (length its)\<rparr>"
  have R: "reads_only ?w0 w1 (if nonnull then 1 else 0)" "\<not> nonnull \<Longrightarrow> data = []"
    using file_read_reads [OF rd] by (auto split: if_splits)
  let ?w2 = "usb_responder_protocol_kv_free its w1"
  have m: "mem_only w1 ?w2 (- 2 * int (length its))" by (rule kv_free_mem [OF dec(2)])
  have c2: "allocs ?w2 = []" "wscript ?w2 = []" "sent ?w2 = sent w"
    using R(1) mem_only_keeps [OF m] mem_only_calm [OF m] calm by (simp_all add: reads_only_def)
  let ?fr = "reply_frame MSG_FILE_GET ?req (if nonnull then Some data else None) (length data)"
  have sized: "frame_sized ?fr"
    using reply_frame_sized [OF size] R(2) by (cases nonnull) (simp_all add: frame_sized_def frame_body_def reply_frame_def)
  obtain w3 where wfr: "usb_responder_protocol_write_frame (ep_in_fd rt) ?fr ?w2 = (True, w3)"
    using write_frame_calm [OF sized c2(1,2)] by blast
  obtain fr where fr: "host_gets (ep_in_fd rt) ?w2 w3 fr" "msg_type (header fr) = msg_type (header ?fr)"
    "request_id (header fr) = request_id (header ?fr)" "frame_body fr = frame_body ?fr"
    using host_gets_frame [OF wfr sized] by blast
  have "handle_file_get rt inp w = (True, c_free nonnull w3)"
    using dec(1) path rd size wfr by (simp add: handle_file_get_def with_kvs_def Let_def)
  moreover have "msg_of (msg_type (header inp)) = Some MSG_FILE_GET" unfolding ty by (rule msg_of_code)
  ultimately have "handle_frame rt inp w = (Done (True, rt), c_free nonnull w3)"
    by (simp add: handle_frame_def pure_reply_def)
  moreover have "host_gets (ep_in_fd rt) w (c_free nonnull w3) fr"
    using fr(1) host_gets_same [of ?w2 w w3 "c_free nonnull w3"] c2(3) by (simp add: c_free_def)
  moreover have "frame_body fr = data" using fr(4) R(2) by (cases nonnull) (simp_all add: frame_body_def reply_frame_def)
  ultimately show ?thesis using fr(2,3) by (auto simp: reply_frame_def)
qed

lemma request_enc_decodes:
  assumes "request_wf req" and "allocs w = []"
  shows "usb_responder_protocol_decode_command_request (Some (request_enc req)) (length (request_enc req)) w
    = (Inr req, w\<lparr>live := live w + 1\<rparr>)"
proof -
  obtain c where c: "req_command req = Some c" "nul_free c" "16 + length c < 2 ^ 32"
    using assms(1) by (auto simp: request_wf_def split: option.splits)
  have "unat (16 + of_nat (length c) :: u32) = 16 + length c"
    using c(3) by (simp add: unat_word_ariths unat_of_nat take_bit_eq_mod)
  moreover have "unat (of_nat (length c) :: u32) = length c"
    using c(3) by (simp add: unat_of_nat take_bit_eq_mod)
  ultimately show ?thesis
    using c assms(2) by (cases req) (simp add: request_enc_def c_malloc_succeeds codec_simps
        usb_responder_protocol_encode_command_request_def usb_responder_protocol_decode_command_request_def)
qed

lemma send_kv_answer:
  assumes "length its \<le> 32" "allocs w = []" "wscript w = []"
  shows "\<exists>w' fr. send_kv_response rt m req its w = (True, w') \<and> host_gets (ep_in_fd rt) w w' fr \<and>
    msg_type (header fr) = msg_code m \<and> request_id (header fr) = req \<and> frame_body fr = kv_bytes its"
  using assms(1)
proof (cases rule: encode_kv_cases [of its w])
  case (fail w1)
  then show ?thesis using assms(2) by simp
next
  case (ok w1)
  let ?fr = "reply_frame m req (Some (kv_bytes its)) (length (kv_bytes its))"
  have sized: "frame_sized ?fr" by (rule reply_frame_sized [OF kv_bytes_small [OF assms(1)]])
  have c1: "allocs w1 = []" "wscript w1 = []" "sent w1 = sent w"
    using mem_only_keeps [OF ok(2)] mem_only_calm [OF ok(2)] assms by simp_all
  obtain w2 where wf: "usb_responder_protocol_write_frame (ep_in_fd rt) ?fr w1 = (True, w2)"
    using write_frame_calm [OF sized c1(1,2)] by blast
  from host_gets_frame [OF wf sized] obtain fr where fr: "host_gets (ep_in_fd rt) w1 w2 fr"
    "msg_type (header fr) = msg_type (header ?fr)" "request_id (header fr) = request_id (header ?fr)" "frame_body fr = frame_body ?fr"
    by blast
  have "host_gets (ep_in_fd rt) w (c_free True w2) fr"
    using fr(1) host_gets_same [of w1 w w2 "c_free True w2"] c1(3) by (simp add: c_free_def)
  then show ?thesis using ok(1) wf fr(2,3,4)
    by (intro exI [of _ "c_free True w2"] exI [of _ fr]) (simp add: send_kv_response_def reply_frame_def frame_body_def)
qed

lemma send_command_result_answer:
  assumes "length (sr_stdout r) + length (sr_stderr r) + 44 < 2 ^ 32" "allocs w = []" "wscript w = []"
  shows "\<exists>w' fr. send_command_result rt req r w = (True, w') \<and> host_gets (ep_in_fd rt) w w' fr \<and>
    msg_type (header fr) = msg_code MSG_COMMAND_RESULT \<and> request_id (header fr) = req \<and>
    result_dec (frame_body fr) = Some (result_of_shell r)"
proof -
  let ?res = "result_of_shell r"
  let ?w1 = "w\<lparr>live := live w + 1\<rparr>"
  have enc: "usb_responder_protocol_encode_command_result ?res w = (Inr (result_enc ?res), ?w1)"
    using assms(2) by (simp add: usb_responder_protocol_encode_command_result_def result_enc_def c_malloc_succeeds)
  have len: "length (result_enc ?res) = 20 + length (sr_stdout r) + length (sr_stderr r)"
    by (simp add: usb_responder_protocol_encode_command_result_def result_enc_def c_malloc_succeeds result_of_shell_def)
  let ?fr = "reply_frame MSG_COMMAND_RESULT req (Some (result_enc ?res)) (length (result_enc ?res))"
  have sized: "frame_sized ?fr" using assms(1) len by (intro reply_frame_sized) simp
  obtain w2 where wf: "usb_responder_protocol_write_frame (ep_in_fd rt) ?fr ?w1 = (True, w2)"
    using write_frame_calm [OF sized, of ?w1] assms by auto
  from host_gets_frame [OF wf sized] obtain fr where fr: "host_gets (ep_in_fd rt) ?w1 w2 fr"
    "msg_type (header fr) = msg_type (header ?fr)" "request_id (header fr) = request_id (header ?fr)" "frame_body fr = frame_body ?fr"
    by blast
  let ?w3 = "snd (usb_responder_shell_exec_result_free r (c_free True w2))"
  have "host_gets (ep_in_fd rt) w ?w3 fr"
    using fr(1) host_gets_same [of ?w1 w w2 ?w3] by (simp add: usb_responder_shell_exec_result_free_def c_free_def)
  moreover have "result_dec (result_enc ?res) = Some ?res"
    by (rule result_codec.dec_enc) (use assms(1) in \<open>simp add: result_wf_def result_of_shell_def\<close>)
  ultimately show ?thesis using enc wf len assms(1) fr(2,3,4)
    by (intro exI [of _ ?w3] exI [of _ fr]) (simp add: send_command_result_def reply_frame_def frame_body_def)
qed

lemma command_answer:
  assumes wf: "frame_wf inp" and ty: "msg_type (header inp) = msg_code MSG_COMMAND_EXEC"
    and req: "request_wf req" "payload inp = Some (request_enc req)"
    and small: "unat (opt_max_stdout (exec_options rt req)) + unat (opt_max_stderr (exec_options rt req)) + 44 < 2 ^ 32"
    and calm: "allocs w = []" "wscript w = []"
    and ex: "usb_responder_exec_shell (c_str (text_or_empty (req_command req))) (exec_options rt req) (w\<lparr>live := live w + 1\<rparr>) = (Done s, w1)"
  shows "\<exists>w' fr. handle_frame rt inp w = (Done (True, rt), w') \<and> host_gets (ep_in_fd rt) w w' fr \<and>
    request_id (header fr) = request_id (header inp) \<and>
    (case s of
       None \<Rightarrow> msg_type (header fr) = msg_code MSG_ERROR
     | Some r \<Rightarrow> msg_type (header fr) = msg_code MSG_COMMAND_RESULT \<and> result_dec (frame_body fr) = Some (result_of_shell r))"
proof -
  let ?id = "request_id (header inp)"
  have len: "unat (payload_len (header inp)) = length (request_enc req)"
    using wf req(2) by (simp add: frame_wf_def frame_sized_def frame_body_def)
  have dec: "usb_responder_protocol_decode_command_request (payload inp) (unat (payload_len (header inp))) w = (Inr req, w\<lparr>live := live w + 1\<rparr>)"
    using request_enc_decodes [OF req(1) calm(1)] by (simp add: req(2) len)
  let ?w2 = "usb_responder_protocol_command_request_free req w1"
  note S = shell_acted [OF ex, of True "files rt"]
  have c2: "allocs ?w2 = []" "wscript ?w2 = []" "sent ?w2 = sent w"
    using conjunct1 [OF S] calm by (simp_all add: acted_def usb_responder_protocol_command_request_free_def c_free_def)
  have mo: "msg_of (msg_type (header inp)) = Some MSG_COMMAND_EXEC" unfolding ty by (rule msg_of_code)
  have disp: "handle_frame rt inp w = (Done (b, rt), v)" if "handle_command_exec rt inp w = (Done b, v)" for b v
    using that by (simp add: handle_frame_def mo io_reply_def)
  show ?thesis
  proof (cases s)
    case None
    from send_kv_answer [OF _ c2(1,2), of "[kv_pair ''message'' ''shell exec failed'']" rt MSG_ERROR ?id]
    obtain w' fr where A: "send_error rt ?id ''shell exec failed'' ?w2 = (True, w')" "host_gets (ep_in_fd rt) ?w2 w' fr"
      "msg_type (header fr) = msg_code MSG_ERROR" "request_id (header fr) = ?id" by (auto simp: send_error_def)
    have "handle_command_exec rt inp w = (Done True, w')" using dec ex None A(1) by (simp add: handle_command_exec_def)
    from disp [OF this] A None show ?thesis using host_gets_same [of ?w2 w w' w'] c2(3) by auto
  next
    case (Some r)
    have fit: "length (sr_stdout r) + length (sr_stderr r) + 44 < 2 ^ 32" using conjunct2 [OF S] Some small by auto
    from send_command_result_answer [OF fit c2(1,2), of rt ?id] obtain w' fr where
      A: "send_command_result rt ?id r ?w2 = (True, w')" "host_gets (ep_in_fd rt) ?w2 w' fr"
      "msg_type (header fr) = msg_code MSG_COMMAND_RESULT" "request_id (header fr) = ?id"
      "result_dec (frame_body fr) = Some (result_of_shell r)" by blast
    have "handle_command_exec rt inp w = (Done True, w')" using dec ex Some A(1) by (simp add: handle_command_exec_def)
    from disp [OF this] A Some show ?thesis using host_gets_same [of ?w2 w w' w'] c2(3) by auto
  qed
qed

section \<open>Properties\<close>

text \<open>A runtime in a small world, and requests as a host would send them.\<close>

definition responder_world :: "sh_round list \<Rightarrow> rt_world" where
  "responder_world rds = \<lparr>long_bits = 64, strerr = (\<lambda>_. []), last_error = [], errno_val = EINTR,
     allocs = [], live = 0, wscript = [], sent = [], rscript = [], pscript = [],
     vfs = small_tree, streams = (\<lambda>_. None), next_stream = 0, faults = [], umask = 0x12, dir_end = 4096, mountinfo = None,
     statvfs_of = (\<lambda>_. None), pw_name = (\<lambda>_. None), gr_name = (\<lambda>_. None),
     clock = 0, ticks = [], setups = [], rounds = rds, spawned = [], signals = [], timeouts = [],
     read_log = [], pipe_ends = 0, children = 0,
     un_release = ''5.4'', ep0_reads = [], opens = [], next_fd = 6, fds = [3, 4, 5]\<rparr>"

lemma responder_world_simps [simp]:
  "allocs (responder_world rds) = []" "wscript (responder_world rds) = []" "faults (responder_world rds) = []"
  "vfs (responder_world rds) = small_tree" "streams (responder_world rds) = (\<lambda>_. None)" "live (responder_world rds) = 0"
  "sent (responder_world rds) = []"
  by (simp_all add: responder_world_def)

definition host_request :: "msg \<Rightarrow> u32 \<Rightarrow> byte list option \<Rightarrow> frame" where
  "host_request m req p = sealed (reply_frame m req p (case p of None \<Rightarrow> 0 | Some d \<Rightarrow> length d))"

lemma host_request_wf: "(case p of None \<Rightarrow> True | Some d \<Rightarrow> d \<noteq> [] \<and> length d + 24 < 2 ^ 32) \<Longrightarrow> frame_wf (host_request m req p)"
  by (auto simp: host_request_def frame_wf_def frame_sized_def sealed_def frame_body_def reply_frame_def unat_of_nat take_bit_eq_mod
      unat_eq_zero [symmetric] split: option.splits)

lemma host_request_simps [simp]:
  "msg_type (header (host_request m req p)) = msg_code m" "request_id (header (host_request m req p)) = req"
  "payload (host_request m req p) = p"
  by (simp_all add: host_request_def sealed_def reply_frame_def)

lemma start_runtime_simps [simp]: "ep_in_fd start_runtime = 4" "files start_runtime = usb_responder_file_ops_init"
  by (simp_all add: start_runtime_def)

lemma small_files [simp]: "files_small small_tree"
  by (simp add: files_small_def small_tree_def)

lemma start_inv [simp]: "uploads_inv usb_responder_file_ops_init (responder_world rds)"
  by (rule init_inv) simp

lemma hello_run:
  "\<exists>ok w'. handle_frame start_runtime (host_request MSG_HELLO 9 None) (responder_world []) = (Done (ok, start_runtime), w')"
proof -
  obtain b v where "send_kv_response start_runtime MSG_STATUS 9 [kv_pair ''service'' ''usb_responder'', kv_pair ''version'' ''1''] (responder_world [])
    = (b, v)" by (metis surj_pair)
  moreover have "msg_of (msg_code MSG_HELLO) = Some MSG_HELLO" by (rule msg_of_code)
  ultimately show ?thesis by (simp add: handle_frame_def pure_reply_def del: msg_code.simps)
qed

lemma hello_fits: "answer_fits start_runtime (host_request MSG_HELLO 9 None) (responder_world [])"
  by (simp add: answer_fits_def del: msg_code.simps)

text \<open>
  C2. Every request is answered. Whatever the request, unless a process it starts never ends, exactly one
  frame goes to the host, with the id of the request and either the type that answers the request or
  the type of an error message; it reports success exactly if the whole frame was sent, otherwise at
  most a beginning of it was; and it succeeds whenever memory is available and the endpoint accepts data.
\<close>

theorem every_request_answered:
  assumes wf: "frame_wf inp" and inv: "uploads_inv (files rt) w" and fits: "answer_fits rt inp w"
    and run: "handle_frame rt inp w = (Done (ok, rt'), w')"
  shows "\<exists>m. m \<in> {answer_type (msg_type (header inp)), MSG_ERROR} \<and>
    (if ok then \<exists>fr. host_gets (ep_in_fd rt) w w' fr \<and> msg_type (header fr) = msg_code m \<and> request_id (header fr) = request_id (header inp)
     else \<exists>fr ts rest. msg_type (header fr) = msg_code m \<and> request_id (header fr) = request_id (header inp) \<and>
       sent w' = sent w @ map (Pair (ep_in_fd rt)) ts \<and> frame_bytes fr = concat ts @ rest) \<and>
    (allocs w = [] \<longrightarrow> wscript w = [] \<longrightarrow> ok)"
proof -
  note len = uploads_invD(2) [OF inv]
  from handle_frame_contract [OF wf len fits run] obtain m c d where
    m: "m \<in> {answer_type (msg_type (header inp)), MSG_ERROR}" "answers (ep_in_fd rt) m (request_id (header inp)) w w' ok"
    and ok: "allocs w = [] \<longrightarrow> wscript w = [] \<longrightarrow> ok"
    unfolding handled_frame_def replied_def by blast
  show ?thesis
  proof (cases ok)
    case True
    then show ?thesis using m(1) answers_host [of "ep_in_fd rt" m _ w w'] m(2) by (intro exI [of _ m]) simp
  next
    case False
    then show ?thesis using m ok by (intro exI [of _ m]) (auto simp: answers_def)
  qed
qed

theorem every_request_answered_witness:
  "\<exists>w' fr. handle_frame start_runtime (host_request MSG_HELLO 9 None) (responder_world []) = (Done (True, start_runtime), w') \<and>
     host_gets 4 (responder_world []) w' fr \<and> request_id (header fr) = 9"
proof -
  obtain ok w' where run: "handle_frame start_runtime (host_request MSG_HELLO 9 None) (responder_world []) = (Done (ok, start_runtime), w')"
    using hello_run by blast
  have "frame_wf (host_request MSG_HELLO 9 None)" by (rule host_request_wf) simp
  from every_request_answered [OF this _ hello_fits run] run show ?thesis by (cases ok) auto
qed



text \<open>
  C6. Who may write. Handling a request keeps the invariant of the upload table and its streams, and the tree
  stays as it was unless the request is one of the six that write files or one that runs a program; a
  request whose payload cannot be decoded never changes it.
\<close>

theorem requests_keep_invariant:
  assumes wf: "frame_wf inp" and inv: "uploads_inv (files rt) w" and fits: "answer_fits rt inp w"
    and run: "handle_frame rt inp w = (Done (ok, rt'), w')"
  shows "uploads_inv (files rt') w' \<and> (\<not> may_write inp w \<longrightarrow> vfs w' = vfs w)"
proof -
  from handle_frame_contract [OF wf uploads_invD(2) [OF inv] fits run] obtain d where
    "replied (answer_type (msg_type (header inp))) (may_write inp w) d (ep_in_fd rt) (request_id (header inp)) (files rt) w (files rt') w' ok"
    unfolding handled_frame_def by blast
  then show ?thesis using inv by (auto simp: replied_def)
qed

theorem requests_keep_invariant_witness:
  "\<exists>ok w'. handle_frame start_runtime (host_request MSG_HELLO 9 None) (responder_world []) = (Done (ok, start_runtime), w') \<and>
     uploads_inv usb_responder_file_ops_init w' \<and> vfs w' = small_tree"
proof -
  obtain ok w' where run: "handle_frame start_runtime (host_request MSG_HELLO 9 None) (responder_world []) = (Done (ok, start_runtime), w')"
    using hello_run by blast
  have "frame_wf (host_request MSG_HELLO 9 None)" by (rule host_request_wf) simp
  from requests_keep_invariant [OF this _ hello_fits run] have
    "uploads_inv usb_responder_file_ops_init w'" "may_write (host_request MSG_HELLO 9 None) (responder_world []) \<or> vfs w' = small_tree" by auto
  moreover have "\<not> may_write (host_request MSG_HELLO 9 None) (responder_world [])"
    by (simp add: may_write_def writing_requests_def del: msg_code.simps)
  ultimately show ?thesis using run by blast
qed

lemma handle_frame_done:
  assumes "msg_of (msg_type (header inp)) \<notin> {Some MSG_COMMAND_EXEC, Some MSG_DEVINFO}"
  shows "\<exists>ok rt' w'. handle_frame rt inp w = (Done (ok, rt'), w')"
proof -
  have pure: "\<exists>ok rt' w'. pure_reply rt r = (Done (ok, rt'), w')" for r :: "bool \<times> 'a rt_world_scheme"
    by (cases r) (simp add: pure_reply_def)
  have upload: "\<exists>ok rt' w'. upload_reply r = (Done (ok, rt'), w')" for r :: "bool \<times> responder_runtime \<times> 'a rt_world_scheme"
    by (cases r) (simp add: upload_reply_def)
  show ?thesis
  proof (cases "msg_of (msg_type (header inp))")
    case None
    then show ?thesis using pure by (simp add: handle_frame_def)
  next
    case (Some m)
    then show ?thesis using assms pure upload by (cases m) (simp_all add: handle_frame_def)
  qed
qed



text \<open>
  C3. Reading a file over the wire. The host sends the path of a regular file as one item; if no call fails, it
  receives one frame that its decoder accepts, with the id of its request and exactly the content of the
  file, and the tree is untouched.
\<close>

theorem get_returns_content:
  assumes wf: "frame_wf inp" and ty: "msg_type (header inp) = msg_code MSG_FILE_GET"
    and pl: "kv_wf its" "payload inp = Some (kv_enc its)" and path: "kv_get its ''path'' = Some path"
    and st: "fs_wf (vfs w)" "accepted_path path" "fs_get (vfs w) (comps (c_str path)) = Some st" "i_kind st = Reg"
    and size: "length (i_data st) + 24 < 2 ^ 32" and calm: "faults w = []" "allocs w = []" "wscript w = []"
  shows "\<exists>w' fr. handle_frame rt inp w = (Done (True, rt), w') \<and> host_gets (ep_in_fd rt) w w' fr \<and>
    msg_type (header fr) = msg_code MSG_FILE_GET \<and> request_id (header fr) = request_id (header inp) \<and> frame_body fr = i_data st"
proof -
  let ?w0 = "w\<lparr>live := live w + 2 * int (length its)\<rparr>"
  obtain nonnull w1 where "usb_responder_file_read (Some path) ?w0 = (Some (i_data st, nonnull), w1)"
    using file_read_found [of ?w0 path st] st calm by auto
  from file_get_answer [OF wf ty pl path calm this size] show ?thesis .
qed

definition get_items :: "kv list" where
  "get_items = [kv_pair ''path'' ''a'']"

lemma get_items_wf: "kv_wf get_items" "kv_get get_items ''path'' = Some ''a''"
  by (simp_all add: get_items_def kv_wf_def kv_item_wf_def kv_pair_def kv_text_def strcmp_eq_def c_str_def)

lemma kv_enc_bytes: "kv_wf its \<Longrightarrow> kv_enc its = kv_bytes its"
  by (rule encode_kv_cases [of its calm_world]) (auto simp: kv_wf_def kv_enc_def)

theorem get_returns_content_witness:
  "\<exists>w' fr. handle_frame start_runtime (host_request MSG_FILE_GET 7 (Some (kv_enc get_items))) (responder_world [])
      = (Done (True, start_runtime), w') \<and> host_gets 4 (responder_world []) w' fr \<and> frame_body fr = [1, 2, 3]"
proof -
  have "0 < length (kv_enc get_items)" "length (kv_enc get_items) + 24 < 2 ^ 32"
    using kv_bytes_small [of get_items] unfolding kv_enc_bytes [OF get_items_wf(1)] by (simp_all add: kv_bytes_def get_items_def)
  then have wf: "frame_wf (host_request MSG_FILE_GET 7 (Some (kv_enc get_items)))" by (intro host_request_wf) simp
  have st: "fs_get (vfs (responder_world [])) (comps (c_str ''a'')) = Some (inodes small_tree 11)"
    by (simp add: accepted_a small_tree_get)
  have "fs_wf (vfs (responder_world []))" using tree_okD(1) [OF small_tree_ok] by simp
  from get_returns_content [OF wf _ get_items_wf(1) _ get_items_wf(2) this accepted_a(1) st, where rt = start_runtime]
  show ?thesis by (auto simp: small_tree_get simp del: msg_code.simps)
qed


definition echo_request :: command_request where
  "echo_request = \<lparr>req_timeout_ms = 3000, req_max_stdout = 2, req_max_stderr = 2, req_command = Some ''echo hi''\<rparr>"

definition echo_world :: rt_world where
  "echo_world = responder_world [echo_round, closing_round (Exited 7)]"

lemma echo_example:
  "\<exists>w'. usb_responder_exec_shell ''echo hi'' short_opts (echo_world\<lparr>live := 1\<rparr>) =
     (Done (Some \<lparr>sr_exit_code = 7, sr_timed_out = False, sr_duration_ms = 0, sr_stdout = [104, 105], sr_stderr = []\<rparr>), w')"
  by (simp add: exec_eval responder_world_def echo_world_def echo_round_def closing_round_def short_opts_def exec_loop.simps upt_rec)

lemma echo_request_facts:
  "request_wf echo_request" "exec_options start_runtime echo_request = short_opts" "c_str (text_or_empty (req_command echo_request)) = ''echo hi''"
  "frame_wf (host_request MSG_COMMAND_EXEC 8 (Some (request_enc echo_request)))"
proof -
  show "request_wf echo_request" by (simp add: request_wf_def echo_request_def)
  show "exec_options start_runtime echo_request = short_opts" by (simp add: exec_options_def echo_request_def short_opts_def)
  show "c_str (text_or_empty (req_command echo_request)) = ''echo hi''" by (simp add: echo_request_def text_or_empty_def c_str_def)
  show "frame_wf (host_request MSG_COMMAND_EXEC 8 (Some (request_enc echo_request)))"
    by (rule host_request_wf) (simp add: request_enc_def echo_request_def usb_responder_protocol_encode_command_request_def
        c_malloc_succeeds codec_simps)
qed


end
