(* ===== verification/Descriptors.thy ===== *)
theory Descriptors
  imports Protocol
begin

text \<open>
  The USB descriptors (\<open>src/functionfs_descriptors.c\<close>): the two blobs that are written to \<open>ep0\<close> before the
  event loop starts. The structures and constants of the kernel headers are a parameter, the record
  \<open>usb_abi\<close>: the image of each structure as a function of the fields the code sets, the other
  fields being 0, its size, and the constants. The fields \<open>bCount\<close> and \<open>wCount\<close> of the header of an OS
  descriptor share their place. \<open>abi_ok\<close> states the documented layout the code relies on.
\<close>

section \<open>The interface of the kernel\<close>

record usb_abi =
  ffs_descriptors_magic :: u32
  ffs_has_fs_desc :: u32
  ffs_has_hs_desc :: u32
  ffs_has_ms_os_desc :: u32
  ffs_strings_magic :: u32
  usb_dt_interface :: byte
  usb_class_vendor_spec :: byte
  usb_dt_endpoint :: byte
  usb_xfer_bulk :: byte
  usb_dir_in :: byte
  usb_dir_out :: byte
  descs_head :: "u32 \<Rightarrow> u32 \<Rightarrow> u32 \<Rightarrow> byte list"
  interface_desc :: "byte \<Rightarrow> byte \<Rightarrow> byte \<Rightarrow> byte \<Rightarrow> byte \<Rightarrow> byte list"
  endpoint_desc :: "byte \<Rightarrow> byte \<Rightarrow> byte \<Rightarrow> byte \<Rightarrow> u16 \<Rightarrow> byte list"
  os_desc_header :: "u32 \<Rightarrow> u16 \<Rightarrow> u16 \<Rightarrow> u16 \<Rightarrow> byte list"
  ext_compat_desc :: "byte \<Rightarrow> byte list \<Rightarrow> byte list"
  ext_prop_desc :: "u32 \<Rightarrow> u32 \<Rightarrow> u16 \<Rightarrow> byte list"
  strings_head :: "u32 \<Rightarrow> u32 \<Rightarrow> u32 \<Rightarrow> u32 \<Rightarrow> byte list"
  sizeof_interface :: nat
  sizeof_endpoint :: nat
  sizeof_os_header :: nat
  sizeof_compat :: nat
  sizeof_prop :: nat
  sizeof_strings_head :: nat

definition abi_ok :: "usb_abi \<Rightarrow> bool" where
  "abi_ok abi \<longleftrightarrow>
     (\<forall>m l f. descs_head abi m l f = write_le32 m @ write_le32 l @ write_le32 f) \<and>
     (\<forall>a b c d e. length (interface_desc abi a b c d e) = sizeof_interface abi) \<and>
     (\<forall>a b c d e. length (endpoint_desc abi a b c d e) = sizeof_endpoint abi) \<and>
     (\<forall>l v i c. length (os_desc_header abi l v i c) = sizeof_os_header abi) \<and>
     (\<forall>r i. length (ext_compat_desc abi r i) = sizeof_compat abi) \<and>
     (\<forall>s t n. length (ext_prop_desc abi s t n) = sizeof_prop abi) \<and>
     (\<forall>m l s n. length (strings_head abi m l s n) = sizeof_strings_head abi) \<and>
     sizeof_interface abi < 2 ^ 8 \<and> sizeof_endpoint abi < 2 ^ 8 \<and> sizeof_os_header abi < 2 ^ 8 \<and>
     sizeof_compat abi < 2 ^ 8 \<and> sizeof_prop abi < 2 ^ 8 \<and> sizeof_strings_head abi < 2 ^ 8"

section \<open>The code\<close>

text \<open>A growing block: the bytes in use and the capacity, 0 for the null pointer.\<close>

type_synonym growbuf = "byte list \<times> nat"

definition append_blob ::
  "byte list \<Rightarrow> growbuf \<Rightarrow> 'a io_world_scheme \<Rightarrow> unit cres \<times> growbuf \<times> 'a io_world_scheme" where
  "append_blob src buf w =
     (let (b, cap) = buf; n = length b + length src
      in if cap < n then
           let new_cap = grow_cap (if cap = 0 then 256 else cap) n
           in case c_realloc (cap \<noteq> 0) w of
                (False, w1) \<Rightarrow> (Inl NoMem, buf, w1)
              | (True, w1) \<Rightarrow> if n \<le> new_cap then (Inr (), (b @ src, new_cap), w1) else (Inl OutOfBounds, (b, new_cap), w1)
         else (Inr (), (b @ src, cap), w))"

text \<open>The conjunction of two calls: the second is made only if the first succeeds.\<close>

definition and_then ::
  "unit cres \<times> growbuf \<times> 'a io_world_scheme \<Rightarrow> (growbuf \<Rightarrow> 'a io_world_scheme \<Rightarrow> unit cres \<times> growbuf \<times> 'a io_world_scheme) \<Rightarrow>
   unit cres \<times> growbuf \<times> 'a io_world_scheme" where
  "and_then r f = (case r of (Inl e, buf, w) \<Rightarrow> (Inl e, buf, w) | (Inr u, buf, w) \<Rightarrow> f buf w)"

definition interface_image :: "usb_abi \<Rightarrow> byte list" where
  "interface_image abi =
     interface_desc abi (of_nat (sizeof_interface abi)) (usb_dt_interface abi) 2 (usb_class_vendor_spec abi) 1"

definition append_usb_interface_desc ::
  "usb_abi \<Rightarrow> growbuf \<Rightarrow> 'a io_world_scheme \<Rightarrow> unit cres \<times> growbuf \<times> 'a io_world_scheme" where
  "append_usb_interface_desc abi = append_blob (interface_image abi)"

definition endpoint_image :: "usb_abi \<Rightarrow> byte \<Rightarrow> u16 \<Rightarrow> byte list" where
  "endpoint_image abi addr max_packet =
     endpoint_desc abi (of_nat (sizeof_endpoint abi)) (usb_dt_endpoint abi) addr (usb_xfer_bulk abi) max_packet"

definition append_usb_bulk_ep_desc ::
  "usb_abi \<Rightarrow> byte \<Rightarrow> u16 \<Rightarrow> growbuf \<Rightarrow> 'a io_world_scheme \<Rightarrow> unit cres \<times> growbuf \<times> 'a io_world_scheme" where
  "append_usb_bulk_ep_desc abi addr max_packet = append_blob (endpoint_image abi addr max_packet)"

definition compat_header :: "usb_abi \<Rightarrow> byte list" where
  "compat_header abi = os_desc_header abi (of_nat (sizeof_os_header abi + sizeof_compat abi)) 1 4 1"

definition compat_image :: "usb_abi \<Rightarrow> byte list" where
  "compat_image abi = ext_compat_desc abi 1 (bytes_of ''WINUSB'')"

definition append_os_desc_ext_compat ::
  "usb_abi \<Rightarrow> growbuf \<Rightarrow> 'a io_world_scheme \<Rightarrow> unit cres \<times> growbuf \<times> 'a io_world_scheme" where
  "append_os_desc_ext_compat abi buf w =
     and_then (append_blob (compat_header abi) buf w) (append_blob (compat_image abi))"

text \<open>ASCII text as UTF-16, low byte first; an array of the code has the final NUL, the value has one more.\<close>

definition utf16 :: "string \<Rightarrow> byte list" where
  "utf16 s = concat (map (\<lambda>c. [c, 0]) (bytes_of s))"

definition prop_name :: "byte list" where
  "prop_name = utf16 ''DeviceInterfaceGUIDs'' @ [0, 0]"

definition prop_value :: "byte list" where
  "prop_value = utf16 ''{0D8E9A49-5DB7-4D38-88A0-5A8C5A9A6401}'' @ [0, 0] @ [0, 0]"

definition prop_size :: "usb_abi \<Rightarrow> u32" where
  "prop_size abi = of_nat (sizeof_prop abi + length prop_name + 4 + length prop_value)"

definition prop_header :: "usb_abi \<Rightarrow> byte list" where
  "prop_header abi = os_desc_header abi (of_nat (sizeof_os_header abi) + prop_size abi) 1 5 1"

definition prop_image :: "usb_abi \<Rightarrow> byte list" where
  "prop_image abi = ext_prop_desc abi (prop_size abi) 7 (of_nat (length prop_name))"

definition append_os_desc_ext_prop ::
  "usb_abi \<Rightarrow> growbuf \<Rightarrow> 'a io_world_scheme \<Rightarrow> unit cres \<times> growbuf \<times> 'a io_world_scheme" where
  "append_os_desc_ext_prop abi buf w =
     and_then (append_blob (prop_header abi) buf w) (\<lambda>buf w.
     and_then (append_blob (prop_image abi) buf w) (\<lambda>buf w.
     and_then (append_blob prop_name buf w) (\<lambda>buf w.
     and_then (append_blob (write_le32 (of_nat (length prop_value))) buf w) (append_blob prop_value))))"

definition counts_image :: "byte list" where
  "counts_image = write_le32 3 @ write_le32 3 @ write_le32 2"

definition descs_flags :: "usb_abi \<Rightarrow> u32" where
  "descs_flags abi = ffs_has_fs_desc abi OR ffs_has_hs_desc abi OR ffs_has_ms_os_desc abi"

definition append_descriptors ::
  "usb_abi \<Rightarrow> 'a io_world_scheme \<Rightarrow> unit cres \<times> growbuf \<times> 'a io_world_scheme" where
  "append_descriptors abi w =
     and_then (append_blob (descs_head abi (ffs_descriptors_magic abi) 0 (descs_flags abi)) ([], 0) w) (\<lambda>buf w.
     and_then (append_blob counts_image buf w) (\<lambda>buf w.
     and_then (append_usb_interface_desc abi buf w) (\<lambda>buf w.
     and_then (append_usb_bulk_ep_desc abi (1 OR usb_dir_in abi) 64 buf w) (\<lambda>buf w.
     and_then (append_usb_bulk_ep_desc abi (2 OR usb_dir_out abi) 64 buf w) (\<lambda>buf w.
     and_then (append_usb_interface_desc abi buf w) (\<lambda>buf w.
     and_then (append_usb_bulk_ep_desc abi (1 OR usb_dir_in abi) 512 buf w) (\<lambda>buf w.
     and_then (append_usb_bulk_ep_desc abi (2 OR usb_dir_out abi) 512 buf w) (\<lambda>buf w.
     and_then (append_os_desc_ext_compat abi buf w) (append_os_desc_ext_prop abi)))))))))"

definition usb_responder_build_descriptors_blob ::
  "usb_abi \<Rightarrow> 'a io_world_scheme \<Rightarrow> byte list cres \<times> 'a io_world_scheme" where
  "usb_responder_build_descriptors_blob abi w =
     (case append_descriptors abi w of
        (Inl e, (b, cap), w1) \<Rightarrow> (Inl e, c_free (cap \<noteq> 0) w1)
      | (Inr u, (b, cap), w1) \<Rightarrow> (store b 4 (write_le32 (of_nat (length b))), w1))"

definition strings_text :: "byte list" where
  "strings_text = bytes_of ''ePass USB Responder'' @ [0]"

definition strings_total :: "usb_abi \<Rightarrow> nat" where
  "strings_total abi = sizeof_strings_head abi + 2 + length strings_text"

definition usb_responder_build_strings_blob ::
  "usb_abi \<Rightarrow> 'a io_world_scheme \<Rightarrow> byte list cres \<times> 'a io_world_scheme" where
  "usb_responder_build_strings_blob abi w =
     (case c_malloc w of
        (False, w1) \<Rightarrow> (Inl NoMem, w1)
      | (True, w1) \<Rightarrow>
          (bind_sum (store (replicate (strings_total abi) 0) 0
              (strings_head abi (ffs_strings_magic abi) (of_nat (strings_total abi)) 1 1)) (\<lambda>b1.
           bind_sum (store b1 (sizeof_strings_head abi) (write_le16 0x0409)) (\<lambda>b2.
           store b2 (sizeof_strings_head abi + 2) strings_text)), w1))"

section \<open>Appending\<close>

definition buf_ok :: "growbuf \<Rightarrow> bool" where
  "buf_ok buf \<longleftrightarrow> length (fst buf) \<le> snd buf"

definition buf_blocks :: "growbuf \<Rightarrow> int" where
  "buf_blocks buf = (if snd buf = 0 then 0 else 1)"

text \<open>The call appends \<open>bs\<close>, or memory ran out; in both cases the buffer is consistent and accounts for its block.\<close>

definition appends ::
  "byte list \<Rightarrow> growbuf \<Rightarrow> 'a io_world_scheme \<Rightarrow> unit cres \<times> growbuf \<times> 'a io_world_scheme \<Rightarrow> bool" where
  "appends bs buf w r \<longleftrightarrow>
     (case r of (x, buf', w') \<Rightarrow> buf_ok buf' \<and> mem_only w w' (buf_blocks buf' - buf_blocks buf) \<and>
        (case x of Inl e \<Rightarrow> e = NoMem \<and> allocs w \<noteq> [] | Inr u \<Rightarrow> fst buf' = fst buf @ bs))"

lemma append_blob_appends: "buf_ok buf \<Longrightarrow> appends src buf w (append_blob src buf w)"
proof -
  assume ok: "buf_ok buf"
  obtain b cap where buf: "buf = (b, cap)" by (cases buf)
  let ?n = "length b + length src"
  let ?new = "grow_cap (if cap = 0 then 256 else cap) ?n"
  show ?thesis
  proof (cases "cap < ?n")
    case False
    then show ?thesis by (simp add: append_blob_def appends_def buf buf_ok_def buf_blocks_def Let_def)
  next
    case True
    have new: "?n \<le> ?new" by (rule grow_cap_ge) simp
    then have pos: "0 < ?new" using True by linarith
    show ?thesis
    proof (cases rule: c_realloc_cases [of "cap \<noteq> 0" w])
      case r: (ok w1)
      then show ?thesis using True new pos by (auto simp: append_blob_def appends_def buf buf_ok_def buf_blocks_def Let_def)
    next
      case (fail w1)
      then show ?thesis using True ok by (auto simp: append_blob_def appends_def buf buf_ok_def buf_blocks_def Let_def)
    qed
  qed
qed

lemma and_then_appends:
  assumes "appends xs buf w r" and "\<And>buf1 w1. buf_ok buf1 \<Longrightarrow> appends ys buf1 w1 (f buf1 w1)"
  shows "appends (xs @ ys) buf w (and_then r f)"
proof -
  obtain x buf1 w1 where r: "r = (x, buf1, w1)" by (cases r)
  have a: "buf_ok buf1" "mem_only w w1 (buf_blocks buf1 - buf_blocks buf)" using assms(1) by (simp_all add: appends_def r)
  show ?thesis
  proof (cases x)
    case (Inl e)
    then show ?thesis using assms(1) by (simp add: appends_def and_then_def r)
  next
    case (Inr u)
    obtain y buf2 w2 where f: "f buf1 w1 = (y, buf2, w2)" by (cases "f buf1 w1")
    have "mem_only w w2 (buf_blocks buf2 - buf_blocks buf)" and "allocs w = [] \<longrightarrow> allocs w1 = []"
      using assms(2) [OF a(1), of w1] mem_only_trans [OF a(2), of w2 "buf_blocks buf2 - buf_blocks buf1"] mem_only_calm [OF a(2)]
      by (simp_all add: appends_def f)
    then show ?thesis using assms(1) assms(2) [OF a(1), of w1] Inr
      by (auto simp: appends_def and_then_def r f split: sum.splits)
  qed
qed

lemmas append_parts = append_usb_interface_desc_def append_usb_bulk_ep_desc_def append_os_desc_ext_compat_def append_os_desc_ext_prop_def

definition compat_part :: "usb_abi \<Rightarrow> byte list" where
  "compat_part abi = compat_header abi @ compat_image abi"

definition prop_part :: "usb_abi \<Rightarrow> byte list" where
  "prop_part abi = prop_header abi @ prop_image abi @ prop_name @ write_le32 (of_nat (length prop_value)) @ prop_value"

text \<open>The interface and its two endpoints with their packet size.\<close>

definition function_part :: "usb_abi \<Rightarrow> u16 \<Rightarrow> byte list" where
  "function_part abi packet = interface_image abi @ endpoint_image abi (1 OR usb_dir_in abi) packet @
     endpoint_image abi (2 OR usb_dir_out abi) packet"

definition blob_of :: "usb_abi \<Rightarrow> u32 \<Rightarrow> byte list" where
  "blob_of abi n = descs_head abi (ffs_descriptors_magic abi) n (descs_flags abi) @ counts_image @
     function_part abi 64 @ function_part abi 512 @ compat_part abi @ prop_part abi"

lemma append_descriptors_appends: "appends (blob_of abi 0) ([], 0) w (append_descriptors abi w)"
proof -
  have os: "appends (compat_part abi) buf v (append_os_desc_ext_compat abi buf v)"
    "appends (prop_part abi) buf v (append_os_desc_ext_prop abi buf v)" if "buf_ok buf" for buf and v :: "'a io_world_scheme"
    unfolding append_parts compat_part_def prop_part_def
    by (intro and_then_appends append_blob_appends that; assumption)+
  have "appends (descs_head abi (ffs_descriptors_magic abi) 0 (descs_flags abi) @ counts_image @ interface_image abi @
      endpoint_image abi (1 OR usb_dir_in abi) 64 @ endpoint_image abi (2 OR usb_dir_out abi) 64 @ interface_image abi @
      endpoint_image abi (1 OR usb_dir_in abi) 512 @ endpoint_image abi (2 OR usb_dir_out abi) 512 @
      compat_part abi @ prop_part abi) ([], 0) w (append_descriptors abi w)"
    unfolding append_descriptors_def append_usb_interface_desc_def append_usb_bulk_ep_desc_def
    by (intro and_then_appends append_blob_appends os) (simp_all add: buf_ok_def)
  then show ?thesis by (simp add: blob_of_def function_part_def)
qed

section \<open>Properties\<close>

lemma blob_length: "abi_ok abi \<Longrightarrow> length (blob_of abi m) = length (blob_of abi n)"
  by (simp add: blob_of_def abi_ok_def)

lemma store_length_field: "store (blob_of abi 0) 4 (write_le32 n) = Inr (blob_of abi n)" if "abi_ok abi"
  using that by (simp add: store_def blob_of_def abi_ok_def)

lemma build_descriptors_cases:
  assumes "abi_ok abi" and "usb_responder_build_descriptors_blob abi w = (r, w')"
  shows "case r of Inl e \<Rightarrow> e = NoMem \<and> allocs w \<noteq> [] \<and> mem_only w w' 0
    | Inr b \<Rightarrow> mem_only w w' 1 \<and> b = blob_of abi (of_nat (length b))"
proof -
  obtain x buf w1 where "append_descriptors abi w = (x, buf, w1)" by (metis prod_cases3)
  moreover obtain b cap where "buf = (b, cap)" by (cases buf)
  ultimately have ap: "append_descriptors abi w = (x, (b, cap), w1)" by simp
  note A = append_descriptors_appends [of abi w, unfolded ap appends_def, simplified]
  show ?thesis
  proof (cases x)
    case (Inl e)
    have "mem_only w (c_free (cap \<noteq> 0) w1) (buf_blocks (b, cap) + (if cap \<noteq> 0 then - 1 else 0))"
      using mem_only_trans [OF _ c_free_mem [of w1 "cap \<noteq> 0"]] A by (simp add: buf_blocks_def)
    then have "mem_only w (c_free (cap \<noteq> 0) w1) 0" by (auto simp: buf_blocks_def split: if_splits)
    then show ?thesis using A assms(2) Inl ap by (auto simp: usb_responder_build_descriptors_blob_def)
  next
    case (Inr u)
    then have b: "b = blob_of abi 0" using A by simp
    then have "4 \<le> length b" using assms(1) by (simp add: blob_of_def abi_ok_def)
    then have "buf_blocks (b, cap) = 1" using A by (auto simp: buf_ok_def buf_blocks_def)
    then have "mem_only w w1 1" using A by (simp add: buf_blocks_def)
    moreover have "r = Inr (blob_of abi (of_nat (length (blob_of abi 0))))" "w' = w1"
      using assms(2) Inr ap b store_length_field [OF assms(1)] by (auto simp: usb_responder_build_descriptors_blob_def)
    ultimately show ?thesis using blob_length [OF assms(1), of "of_nat (length (blob_of abi 0))" 0] by simp
  qed
qed

lemma build_strings_cases:
  assumes "abi_ok abi" and "usb_responder_build_strings_blob abi w = (r, w')"
  shows "case r of Inl e \<Rightarrow> e = NoMem \<and> allocs w \<noteq> [] \<and> mem_only w w' 0
    | Inr b \<Rightarrow> mem_only w w' 1 \<and>
        b = strings_head abi (ffs_strings_magic abi) (of_nat (length b)) 1 1 @ write_le16 0x0409 @ strings_text"
proof (cases rule: c_malloc_cases [of w])
  case (fail w1)
  then show ?thesis using assms(2) by (auto simp: usb_responder_build_strings_blob_def)
next
  case (ok w1)
  have h: "length (strings_head abi m l s n) = sizeof_strings_head abi" for m l s n
    using assms(1) by (simp add: abi_ok_def)
  then show ?thesis using assms(2) ok
    by (auto simp: usb_responder_build_strings_blob_def store_def strings_total_def h)
qed

text \<open>The layout of the structures on a little-endian machine, as the headers of the kernel give it.\<close>

definition linux_abi :: usb_abi where
  "linux_abi = \<lparr>ffs_descriptors_magic = 3, ffs_has_fs_desc = 1, ffs_has_hs_desc = 2, ffs_has_ms_os_desc = 8, ffs_strings_magic = 2,
     usb_dt_interface = 4, usb_class_vendor_spec = 255, usb_dt_endpoint = 5, usb_xfer_bulk = 2, usb_dir_in = 128, usb_dir_out = 0,
     descs_head = (\<lambda>m l f. write_le32 m @ write_le32 l @ write_le32 f),
     interface_desc = (\<lambda>a b c d e. [a, b, 0, 0, c, d, 0, 0, e]),
     endpoint_desc = (\<lambda>a b c d e. [a, b, c, d] @ write_le16 e @ [0]),
     os_desc_header = (\<lambda>l v i c. [0] @ write_le32 l @ write_le16 v @ write_le16 i @ write_le16 c),
     ext_compat_desc = (\<lambda>r i. [0, r] @ take 8 (i @ replicate 8 0) @ replicate 14 0),
     ext_prop_desc = (\<lambda>s t n. write_le32 s @ write_le32 t @ write_le16 n),
     strings_head = (\<lambda>m l s n. write_le32 m @ write_le32 l @ write_le32 s @ write_le32 n),
     sizeof_interface = 9, sizeof_endpoint = 7, sizeof_os_header = 11, sizeof_compat = 24, sizeof_prop = 10, sizeof_strings_head = 16\<rparr>"

lemma linux_abi_ok: "abi_ok linux_abi"
  by (simp add: abi_ok_def linux_abi_def min_def)

text \<open>
  C39. The descriptors. If the structures have their documented layout, each builder returns either one block or,
  only when memory runs out, none and nothing leaked. The descriptor blob is the header with the length
  of the whole blob, the counts, the interface and its two bulk endpoints for full and for high speed,
  and two OS descriptors whose headers announce exactly their own lengths; the string blob announces its own
  length too.
\<close>

theorem descriptors_exact:
  assumes ok: "abi_ok abi"
  shows "(case usb_responder_build_descriptors_blob abi w of
      (Inl e, w') \<Rightarrow> e = NoMem \<and> allocs w \<noteq> [] \<and> live w' = live w
    | (Inr b, w') \<Rightarrow> live w' = live w + 1 \<and>
        b = descs_head abi (ffs_descriptors_magic abi) (of_nat (length b)) (descs_flags abi) @ counts_image @
          function_part abi 64 @ function_part abi 512 @ compat_part abi @ prop_part abi) \<and>
    compat_header abi = os_desc_header abi (of_nat (length (compat_part abi))) 1 4 1 \<and>
    prop_header abi = os_desc_header abi (of_nat (length (prop_part abi))) 1 5 1 \<and>
    (case usb_responder_build_strings_blob abi w of
      (Inl e, w') \<Rightarrow> e = NoMem \<and> allocs w \<noteq> [] \<and> live w' = live w
    | (Inr b, w') \<Rightarrow> live w' = live w + 1 \<and>
        b = strings_head abi (ffs_strings_magic abi) (of_nat (length b)) 1 1 @ write_le16 0x0409 @ strings_text)"
proof -
  obtain r w' where d: "usb_responder_build_descriptors_blob abi w = (r, w')" by (metis surj_pair)
  obtain s v where t: "usb_responder_build_strings_blob abi w = (s, v)" by (metis surj_pair)
  have "case r of Inl e \<Rightarrow> e = NoMem \<and> allocs w \<noteq> [] \<and> live w' = live w
    | Inr b \<Rightarrow> live w' = live w + 1 \<and> b = blob_of abi (of_nat (length b))"
    using build_descriptors_cases [OF ok d] by (cases r) (auto dest: mem_only_live)
  moreover have "case s of Inl e \<Rightarrow> e = NoMem \<and> allocs w \<noteq> [] \<and> live v = live w
    | Inr b \<Rightarrow> live v = live w + 1 \<and>
        b = strings_head abi (ffs_strings_magic abi) (of_nat (length b)) 1 1 @ write_le16 0x0409 @ strings_text"
    using build_strings_cases [OF ok t] by (cases s) (auto dest: mem_only_live)
  moreover have "compat_header abi = os_desc_header abi (of_nat (length (compat_part abi))) 1 4 1"
    using ok by (simp add: compat_part_def compat_header_def compat_image_def abi_ok_def)
  moreover have "prop_header abi = os_desc_header abi (of_nat (length (prop_part abi))) 1 5 1"
    using ok by (simp add: prop_part_def prop_header_def prop_image_def abi_ok_def prop_size_def add.commute add.left_commute)
  ultimately show ?thesis unfolding d t prod.case blob_of_def by blast
qed

theorem descriptors_exact_witness:
  "case usb_responder_build_descriptors_blob linux_abi calm_world of (Inl e, w') \<Rightarrow> False | (Inr b, w') \<Rightarrow> live w' = live calm_world + 1"
  using descriptors_exact [OF linux_abi_ok, of calm_world] by (auto simp: calm_world_def split: sum.splits prod.splits)

end
