(* ===== verification/Event_Loop.thy ===== *)
theory Event_Loop
  imports Dispatch Descriptors "HOL-Library.Multiset"
begin

text \<open>
  The event loop (\<open>src/responder.c\<close>: \<open>open_ep\<close>, \<open>close_eps\<close>, \<open>process_ep0_events\<close>, \<open>handle_io_loop\<close>,
  \<open>usb_responder_run\<close>) and the entry point (\<open>src/main.c\<close>). What \<open>poll\<close> returns in each turn is a script;
  the turn is a function on the state of the loop, a relation gives the reachable states, and the
  invariant of the loop is proved by rule induction over it.
\<close>

section \<open>Endpoints\<close>

text \<open>\<open>open\<close> of an endpoint file: the script \<open>opens\<close> says which calls fail.\<close>

definition sys_open :: "'a rt_world_scheme \<Rightarrow> int option \<times> 'a rt_world_scheme" where
  "sys_open w =
     (if opens w \<noteq> [] \<and> \<not> hd (opens w) then (None, w\<lparr>opens := tl (opens w)\<rparr>)
      else (Some (int (next_fd w)), w\<lparr>opens := tl (opens w), next_fd := next_fd w + 1, fds := int (next_fd w) # fds w\<rparr>))"

definition sys_close :: "int \<Rightarrow> 'a rt_world_scheme \<Rightarrow> 'a rt_world_scheme" where
  "sys_close fd w = w\<lparr>fds := remove1 fd (fds w)\<rparr>"

definition open_ep :: "string \<Rightarrow> string \<Rightarrow> 'a rt_world_scheme \<Rightarrow> int option \<times> 'a rt_world_scheme" where
  "open_ep mount name w = (if 512 \<le> length (c_str mount @ ''/'' @ name) then (None, w) else sys_open w)"

definition close_eps :: "responder_runtime \<Rightarrow> 'a rt_world_scheme \<Rightarrow> responder_runtime \<times> 'a rt_world_scheme" where
  "close_eps rt w =
     (let (rt1, w1) = (if 0 \<le> ep_in_fd rt then (rt\<lparr>ep_in_fd := - 1\<rparr>, sys_close (ep_in_fd rt) w) else (rt, w));
          (rt2, w2) = (if 0 \<le> ep_out_fd rt1 then (rt1\<lparr>ep_out_fd := - 1\<rparr>, sys_close (ep_out_fd rt1) w1) else (rt1, w1))
      in (rt2\<lparr>rx_buf := [], ep_shutdown := False\<rparr>, w2))"

text \<open>
  The part of a turn that opens the endpoints after the events: the result says whether the function
  is still enabled.
\<close>

definition mount_text :: "responder_runtime \<Rightarrow> string" where
  "mount_text rt = text_or_empty (ffs_mount (cfg rt))"

definition open_endpoints ::
  "bool \<Rightarrow> responder_runtime \<Rightarrow> 'a rt_world_scheme \<Rightarrow> bool \<times> responder_runtime \<times> 'a rt_world_scheme" where
  "open_endpoints enabled rt w =
     (if enabled \<and> ep_in_fd rt < 0 then
        (case open_ep (mount_text rt) ''ep1'' w of
           (None, w1) \<Rightarrow> (case close_eps rt w1 of (rt1, w2) \<Rightarrow> (False, rt1, w2))
         | (Some fi, w1) \<Rightarrow>
             (case open_ep (mount_text rt) ''ep2'' w1 of
                (None, w2) \<Rightarrow> (case close_eps (rt\<lparr>ep_in_fd := fi\<rparr>) w2 of (rt1, w3) \<Rightarrow> (False, rt1, w3))
              | (Some fo, w2) \<Rightarrow> (True, rt\<lparr>ep_in_fd := fi, ep_out_fd := fo\<rparr>, w2)))
      else (enabled, rt, w))"

section \<open>Events\<close>

definition ep0_event_step ::
  "ep0_event \<Rightarrow> bool \<times> responder_runtime \<times> 'a rt_world_scheme \<Rightarrow> bool \<times> responder_runtime \<times> 'a rt_world_scheme" where
  "ep0_event_step ev s =
     (case s of (enabled, rt, w) \<Rightarrow>
        (case ev of
           ENABLE \<Rightarrow> (True, rt, w)
         | DISABLE \<Rightarrow> (case close_eps rt w of (rt1, w1) \<Rightarrow> (False, rt1, w1))
         | UNBIND \<Rightarrow> (case close_eps rt w of (rt1, w1) \<Rightarrow> (False, rt1, w1))
         | _ \<Rightarrow> (enabled, rt, w)))"

text \<open>One \<open>read\<close> of \<open>ep0\<close>, which delivers at most four events. \<open>None\<close> is the return value false.\<close>

definition process_ep0_events ::
  "bool \<Rightarrow> responder_runtime \<Rightarrow> 'a rt_world_scheme \<Rightarrow> ((bool \<times> responder_runtime) option) io \<times> 'a rt_world_scheme" where
  "process_ep0_events enabled rt w =
     (case ep0_reads w of
        [] \<Rightarrow> (Blocked, w)
      | r # rest \<Rightarrow>
          let w1 = w\<lparr>ep0_reads := rest\<rparr>
          in (case r of
                Ep0Fail e \<Rightarrow> (Done (if e = EINTR \<or> e = EAGAIN then Some (enabled, rt) else None), w1)
              | Ep0Odd \<Rightarrow> (Done None, w1)
              | Ep0Events evs \<Rightarrow>
                  (case fold ep0_event_step (take 4 evs) (enabled, rt, w1) of
                     (en, rt1, w2) \<Rightarrow> (Done (Some (en, rt1)), w2))))"

section \<open>The loop\<close>

text \<open>The first half of a turn: the events on \<open>ep0\<close>, if there are any.\<close>

definition turn_events ::
  "revents list \<Rightarrow> bool \<Rightarrow> responder_runtime \<Rightarrow> 'a rt_world_scheme \<Rightarrow> ((bool \<times> responder_runtime) option) io \<times> 'a rt_world_scheme" where
  "turn_events rs enabled rt w =
     (if pollin (revents_at rs 0) then
        (case process_ep0_events enabled rt w of
           (Done (Some (en, rt1)), w1) \<Rightarrow>
             (case open_endpoints en rt1 w1 of (en2, rt2, w2) \<Rightarrow> (Done (Some (en2, rt2)), w2))
         | r \<Rightarrow> r)
      else (Done (Some (enabled, rt)), w))"

text \<open>The second half: a frame, or the end of the endpoint. The endpoint was watched in this turn if \<open>watched\<close>.\<close>

definition serve_frame ::
  "responder_runtime \<Rightarrow> 'a rt_world_scheme \<Rightarrow> (bool \<times> responder_runtime) io \<times> 'a rt_world_scheme" where
  "serve_frame rt w =
     (case read_frame_buffered rt w of
        (Blocked, w1) \<Rightarrow> (Blocked, w1)
      | (Done (Inl e, rt1), w1) \<Rightarrow> (case close_eps rt1 w1 of (rt2, w2) \<Rightarrow> (Done (False, rt2), w2))
      | (Done (Inr fr, rt1), w1) \<Rightarrow>
          (case handle_frame rt1 fr w1 of
             (Blocked, w2) \<Rightarrow> (Blocked, w2)
           | (Done (ok, rt2), w2) \<Rightarrow> (Done (True, rt2), snd (usb_responder_protocol_frame_free fr w2))))"

definition turn_io ::
  "revents list \<Rightarrow> bool \<Rightarrow> bool \<Rightarrow> responder_runtime \<Rightarrow> 'a rt_world_scheme \<Rightarrow> (bool \<times> responder_runtime) io \<times> 'a rt_world_scheme" where
  "turn_io rs watched enabled rt w =
     (let r = revents_at rs 1
      in if enabled \<and> watched \<and> pollin r then serve_frame rt w
         else if enabled \<and> watched \<and> (pollhup r \<or> pollerr r \<or> pollnval r) then
           (case close_eps rt w of (rt1, w1) \<Rightarrow> (Done (False, rt1), w1))
         else (Done (enabled, rt), w))"

text \<open>
  One turn; \<open>None\<close> is the return of the function with false, the only one there is: nothing sets
  \<open>should_stop\<close>.
\<close>

definition io_turn ::
  "pout \<Rightarrow> bool \<Rightarrow> responder_runtime \<Rightarrow> 'a rt_world_scheme \<Rightarrow> ((bool \<times> responder_runtime) option) io \<times> 'a rt_world_scheme" where
  "io_turn p enabled rt w =
     (case p of
        PollFail e \<Rightarrow> (Done (if e = EINTR then Some (enabled, rt) else None), w)
      | PollRevents rs \<Rightarrow>
          (case turn_events rs enabled rt w of
             (Blocked, w1) \<Rightarrow> (Blocked, w1)
           | (Done None, w1) \<Rightarrow> (Done None, w1)
           | (Done (Some (en, rt1)), w1) \<Rightarrow>
               (case turn_io rs (enabled \<and> 0 \<le> ep_out_fd rt) en rt1 w1 of
                  (Blocked, w2) \<Rightarrow> (Blocked, w2)
                | (Done x, w2) \<Rightarrow> (Done (Some x), w2))))"

fun handle_io_loop ::
  "pout list \<Rightarrow> bool \<Rightarrow> responder_runtime \<Rightarrow> 'a rt_world_scheme \<Rightarrow> (bool \<times> responder_runtime) io \<times> 'a rt_world_scheme" where
  "handle_io_loop [] enabled rt w = (Blocked, w)"
| "handle_io_loop (p # ps) enabled rt w =
     (case io_turn p enabled rt w of
        (Blocked, w1) \<Rightarrow> (Blocked, w1)
      | (Done None, w1) \<Rightarrow> (Done (False, rt), w1)
      | (Done (Some (en, rt1)), w1) \<Rightarrow> handle_io_loop ps en rt1 w1)"

section \<open>Running the responder\<close>

text \<open>The end of \<open>usb_responder_run\<close>; \<open>blocks\<close> says which of the two blobs there are.\<close>

definition run_out :: "bool \<times> bool \<Rightarrow> responder_runtime \<Rightarrow> 'a rt_world_scheme \<Rightarrow> 'a rt_world_scheme" where
  "run_out blobs rt w =
     (let (rt1, w1) = close_eps rt w;
          w2 = (if 0 \<le> ep0_fd rt1 then sys_close (ep0_fd rt1) w1 else w1);
          w3 = snd (usb_responder_file_ops_shutdown (files rt1) w2)
      in c_free (rx_cap rt1 \<noteq> 0) (c_free (snd blobs) (c_free (fst blobs) w3)))"

definition default_config :: "usb_responder_config \<Rightarrow> usb_responder_config" where
  "default_config c = c\<lparr>default_timeout_ms := (if default_timeout_ms c = 0 then 8000 else default_timeout_ms c),
     cfg_max_stdout := (if cfg_max_stdout c = 0 then 64 * 1024 else cfg_max_stdout c),
     cfg_max_stderr := (if cfg_max_stderr c = 0 then 64 * 1024 else cfg_max_stderr c)\<rparr>"

definition initial_runtime :: "usb_responder_config \<Rightarrow> responder_runtime" where
  "initial_runtime c = \<lparr>cfg = default_config c, files = usb_responder_file_ops_init, ep0_fd = - 1, ep_in_fd = - 1, ep_out_fd = - 1,
     rx_buf = [], rx_cap = 0, ep_shutdown = False\<rparr>"

text \<open>Both blobs are built and written to \<open>ep0\<close>: which of them there are, and whether all went well.\<close>

definition run_start ::
  "usb_abi \<Rightarrow> int \<Rightarrow> 'a rt_world_scheme \<Rightarrow> ((bool \<times> bool) \<times> bool) \<times> 'a rt_world_scheme" where
  "run_start abi ep0 w =
     (case usb_responder_build_descriptors_blob abi w of
        (Inl e, w1) \<Rightarrow> (((False, False), False), w1)
      | (Inr desc, w1) \<Rightarrow>
          (case usb_responder_build_strings_blob abi w1 of
             (Inl e, w2) \<Rightarrow> (((True, False), False), w2)
           | (Inr strs, w2) \<Rightarrow>
               (case usb_responder_write_full ep0 desc w2 of
                  (False, w3) \<Rightarrow> (((True, True), False), w3)
                | (True, w3) \<Rightarrow>
                    (case usb_responder_write_full ep0 strs w3 of (ok, w4) \<Rightarrow> (((True, True), ok), w4)))))"

text \<open>The part behind the opening of \<open>ep0\<close>.\<close>

definition run_with_ep0 ::
  "usb_abi \<Rightarrow> pout list \<Rightarrow> responder_runtime \<Rightarrow> 'a rt_world_scheme \<Rightarrow> bool io \<times> 'a rt_world_scheme" where
  "run_with_ep0 abi polls rt w =
     (case run_start abi (ep0_fd rt) w of
        ((blobs, False), w1) \<Rightarrow> (Done False, run_out blobs rt w1)
      | ((blobs, True), w1) \<Rightarrow>
          (case handle_io_loop polls False rt w1 of
             (Blocked, w2) \<Rightarrow> (Blocked, w2)
           | (Done (ok, rt1), w2) \<Rightarrow> (Done ok, run_out blobs rt1 w2)))"

definition usb_responder_run ::
  "usb_abi \<Rightarrow> pout list \<Rightarrow> usb_responder_config option \<Rightarrow> 'a rt_world_scheme \<Rightarrow> bool io \<times> 'a rt_world_scheme" where
  "usb_responder_run abi polls config w =
     (case config of
        None \<Rightarrow> (Done False, w)
      | Some c \<Rightarrow>
          (case ffs_mount c of
             None \<Rightarrow> (Done False, w)
           | Some mount \<Rightarrow>
               (case open_ep mount ''ep0'' w of
                  (None, w1) \<Rightarrow> (Done False, run_out (False, False) (initial_runtime c) w1)
                | (Some fd, w1) \<Rightarrow> run_with_ep0 abi polls ((initial_runtime c)\<lparr>ep0_fd := fd\<rparr>) w1)))"

section \<open>The command line\<close>

definition strtoul_u32 :: "nat \<Rightarrow> string \<Rightarrow> u32" where
  "strtoul_u32 W s = of_nat (fst (c_strtoul W 10 (c_str s)))"

text \<open>The loop over \<open>argv\<close>; \<open>W\<close> is the width of \<open>unsigned long\<close>, \<open>None\<close> leads to the usage message.\<close>

function parse_args :: "nat \<Rightarrow> string list \<Rightarrow> usb_responder_config \<Rightarrow> usb_responder_config option" where
  "parse_args W [] c = Some c"
| "parse_args W (a # args) c =
     (if strcmp_eq a ''--ffs'' \<and> args \<noteq> [] then parse_args W (tl args) (c\<lparr>ffs_mount := Some (hd args)\<rparr>)
      else if strcmp_eq a ''-v'' \<or> strcmp_eq a ''--verbose'' then parse_args W args (c\<lparr>verbose := True\<rparr>)
      else if strcmp_eq a ''--timeout-ms'' \<and> args \<noteq> [] then
        parse_args W (tl args) (c\<lparr>default_timeout_ms := strtoul_u32 W (hd args)\<rparr>)
      else if strcmp_eq a ''--max-stdout'' \<and> args \<noteq> [] then
        parse_args W (tl args) (c\<lparr>cfg_max_stdout := strtoul_u32 W (hd args)\<rparr>)
      else if strcmp_eq a ''--max-stderr'' \<and> args \<noteq> [] then
        parse_args W (tl args) (c\<lparr>cfg_max_stderr := strtoul_u32 W (hd args)\<rparr>)
      else None)"
  by pat_completeness auto
termination
  by (relation "measure (\<lambda>(W, args, c). length args)") (auto simp: less_Suc_eq_le)

definition zero_config :: usb_responder_config where
  "zero_config = \<lparr>ffs_mount = None, default_timeout_ms = 0, cfg_max_stdout = 0, cfg_max_stderr = 0, verbose = False\<rparr>"

definition main_config :: "nat \<Rightarrow> string list \<Rightarrow> usb_responder_config option" where
  "main_config W args =
     (case parse_args W args zero_config of None \<Rightarrow> None | Some c \<Rightarrow> if ffs_mount c = None then None else Some c)"

text \<open>The exit status of the program for the arguments behind its name.\<close>

definition main_program ::
  "usb_abi \<Rightarrow> pout list \<Rightarrow> string list \<Rightarrow> 'a rt_world_scheme \<Rightarrow> nat io \<times> 'a rt_world_scheme" where
  "main_program abi polls args w =
     (case main_config (long_bits w) args of
        None \<Rightarrow> (Done 1, w)
      | Some c \<Rightarrow>
          (case usb_responder_run abi polls (Some c) w of
             (Blocked, w1) \<Rightarrow> (Blocked, w1)
           | (Done ok, w1) \<Rightarrow> (Done (if ok then 0 else 2), w1)))"

section \<open>The endpoints of a turn\<close>

text \<open>
  The endpoint descriptors are both open or both closed, the process has no other descriptors than
  these and \<open>base\<close>, and nothing stays buffered when they are closed.
\<close>

definition eps_closed :: "int multiset \<Rightarrow> responder_runtime \<Rightarrow> 'a rt_world_scheme \<Rightarrow> bool" where
  "eps_closed base rt w \<longleftrightarrow> ep_in_fd rt = - 1 \<and> ep_out_fd rt = - 1 \<and> mset (fds w) = base \<and> rx_buf rt = []"

definition eps_open :: "int multiset \<Rightarrow> responder_runtime \<Rightarrow> 'a rt_world_scheme \<Rightarrow> bool" where
  "eps_open base rt w \<longleftrightarrow> 0 \<le> ep_in_fd rt \<and> 0 \<le> ep_out_fd rt \<and> mset (fds w) = base + {#ep_in_fd rt, ep_out_fd rt#}"

text \<open>What the endpoints and the events leave alone: the files, the buffer block, the other state.\<close>

definition ep_step :: "responder_runtime \<Rightarrow> 'a rt_world_scheme \<Rightarrow> responder_runtime \<Rightarrow> 'a rt_world_scheme \<Rightarrow> bool" where
  "ep_step rt w rt' w' \<longleftrightarrow> cfg rt' = cfg rt \<and> files rt' = files rt \<and> ep0_fd rt' = ep0_fd rt \<and> rx_cap rt' = rx_cap rt \<and>
     (rx_buf rt' = rx_buf rt \<or> rx_buf rt' = []) \<and>
     w' = w\<lparr>opens := opens w', next_fd := next_fd w', fds := fds w', ep0_reads := ep0_reads w'\<rparr>"

lemma ep_step_refl [simp, intro]: "ep_step rt w rt w"
  by (simp add: ep_step_def)

lemma ep_step_trans: "ep_step a u b v \<Longrightarrow> ep_step b v c w \<Longrightarrow> ep_step a u c w"
  by (cases u; cases v; cases w; auto simp: ep_step_def)

lemma ep_step_world:
  assumes "ep_step rt w rt' w'"
  shows "streams w' = streams w" "live w' = live w" "sent w' = sent w" "vfs w' = vfs w"
proof -
  have eq: "w' = w\<lparr>opens := opens w', next_fd := next_fd w', fds := fds w', ep0_reads := ep0_reads w'\<rparr>"
    using assms by (simp add: ep_step_def)
  show "streams w' = streams w" "live w' = live w" "sent w' = sent w" "vfs w' = vfs w"
    using arg_cong [OF eq, of streams] arg_cong [OF eq, of live] arg_cong [OF eq, of sent] arg_cong [OF eq, of vfs] by simp_all
qed

lemma sys_open_step: "sys_open w = (r, w') \<Longrightarrow> ep_step rt w rt w' \<and>
    (case r of None \<Rightarrow> fds w' = fds w | Some fd \<Rightarrow> 0 \<le> fd \<and> fds w' = fd # fds w)"
  by (auto simp: sys_open_def ep_step_def split: if_splits)

lemma open_ep_step: "open_ep m n w = (r, w') \<Longrightarrow> ep_step rt w rt w' \<and>
    (case r of None \<Rightarrow> fds w' = fds w | Some fd \<Rightarrow> 0 \<le> fd \<and> fds w' = fd # fds w)"
  by (auto simp: open_ep_def sys_open_step split: if_splits)

lemma close_eps_step:
  assumes "close_eps rt w = (rt', w')"
  shows "ep_step rt w rt' w'" and "eps_closed base rt w \<or> eps_open base rt w \<Longrightarrow> eps_closed base rt' w'"
  using assms by (auto simp: close_eps_def ep_step_def eps_closed_def eps_open_def sys_close_def Let_def split: if_splits)

lemma open_endpoints_step:
  assumes "open_endpoints en rt w = (en', rt', w')"
  shows "ep_step rt w rt' w'"
    and "eps_closed base rt w \<or> en \<and> eps_open base rt w \<Longrightarrow> if en' then eps_open base rt' w' else eps_closed base rt' w'"
proof -
  have "ep_step rt w rt' w' \<and>
    (eps_closed base rt w \<or> en \<and> eps_open base rt w \<longrightarrow> (if en' then eps_open base rt' w' else eps_closed base rt' w'))"
  proof (cases "en \<and> ep_in_fd rt < 0")
    case False
    then show ?thesis using assms by (auto simp: open_endpoints_def eps_closed_def eps_open_def)
  next
    case go: True
    obtain a w1 where o1: "open_ep (mount_text rt) ''ep1'' w = (a, w1)" by (metis surj_pair)
    note S1 = open_ep_step [OF o1, of rt]
    show ?thesis
    proof (cases a)
      case None
      obtain rt2 w2 where c: "close_eps rt w1 = (rt2, w2)" by (metis surj_pair)
      have "en' = False" "rt' = rt2" "w' = w2" using assms go o1 None c by (simp_all add: open_endpoints_def)
      moreover have "eps_closed base rt w \<longrightarrow> eps_closed base rt w1" using S1 None by (simp add: eps_closed_def)
      moreover have "\<not> eps_open base rt w" using go by (simp add: eps_open_def)
      ultimately show ?thesis using close_eps_step(1) [OF c] close_eps_step(2) [OF c, of base] ep_step_trans [OF conjunct1 [OF S1]] by auto
    next
      case (Some fi)
      let ?rt1 = "rt\<lparr>ep_in_fd := fi\<rparr>"
      have s1: "ep_step rt w ?rt1 w1" "0 \<le> fi" "fds w1 = fi # fds w" using S1 Some by (auto simp: ep_step_def)
      obtain b w2 where o2: "open_ep (mount_text rt) ''ep2'' w1 = (b, w2)" by (metis surj_pair)
      note S2 = open_ep_step [OF o2, of ?rt1]
      show ?thesis
      proof (cases b)
        case None
        obtain rt3 w3 where c: "close_eps ?rt1 w2 = (rt3, w3)" by (metis surj_pair)
        have eq: "en' = False" "rt' = rt3" "w' = w3" using assms go o1 Some o2 None c by (simp_all add: open_endpoints_def)
        have st: "ep_step rt w rt3 w3"
          using ep_step_trans [OF ep_step_trans [OF s1(1) conjunct1 [OF S2]] close_eps_step(1) [OF c]] .
        have "eps_closed base rt3 w3" if "eps_closed base rt w"
        proof -
          have "ep_out_fd rt = - 1" "mset (fds w2) = add_mset fi base" "rx_buf rt = []"
            using that S2 None s1(3) by (simp_all add: eps_closed_def)
          then show ?thesis using c s1(2) by (auto simp: close_eps_def sys_close_def Let_def eps_closed_def)
        qed
        then show ?thesis using go st by (auto simp: eq eps_open_def)
      next
        case o: (Some fo)
        have eq: "en' = True" "rt' = ?rt1\<lparr>ep_out_fd := fo\<rparr>" "w' = w2" using assms go o1 Some o2 o by (simp_all add: open_endpoints_def)
        have "0 \<le> fo" "fds w2 = fo # fi # fds w" using S2 o s1(3) by simp_all
        then have "eps_closed base rt w \<longrightarrow> eps_open base rt' w'" using s1(2) by (simp add: eq eps_closed_def eps_open_def)
        moreover have "ep_step ?rt1 w1 rt' w'" using S2 by (auto simp: eq ep_step_def)
        ultimately show ?thesis using go s1(1) ep_step_trans by (auto simp: eq eps_open_def)
      qed
    qed
  qed
  then show "ep_step rt w rt' w'"
    "eps_closed base rt w \<or> en \<and> eps_open base rt w \<Longrightarrow> if en' then eps_open base rt' w' else eps_closed base rt' w'" by blast+
qed

text \<open>Between the events and the opening the endpoints may be closed although the function is enabled.\<close>

definition eps_state :: "int multiset \<Rightarrow> bool \<Rightarrow> responder_runtime \<Rightarrow> 'a rt_world_scheme \<Rightarrow> bool" where
  "eps_state base en rt w \<longleftrightarrow> eps_closed base rt w \<or> en \<and> eps_open base rt w"

lemma event_step:
  assumes "ep0_event_step ev (en, rt, w) = (en', rt', w')"
  shows "ep_step rt w rt' w' \<and> (eps_state base en rt w \<longrightarrow> eps_state base en' rt' w')"
proof -
  obtain rt1 w1 where c: "close_eps rt w = (rt1, w1)" by (metis surj_pair)
  show ?thesis using assms close_eps_step(1) [OF c] close_eps_step(2) [OF c, of base] c
    by (cases ev) (auto simp: ep0_event_step_def eps_state_def)
qed

lemma events_fold:
  "fold ep0_event_step evs (en, rt, w) = (en', rt', w') \<Longrightarrow>
   ep_step rt w rt' w' \<and> (eps_state base en rt w \<longrightarrow> eps_state base en' rt' w')"
proof (induction evs arbitrary: en rt w)
  case (Cons ev evs)
  obtain en1 rt1 w1 where s: "ep0_event_step ev (en, rt, w) = (en1, rt1, w1)" by (metis prod_cases3)
  then have "fold ep0_event_step evs (en1, rt1, w1) = (en', rt', w')" using Cons.prems by simp
  from Cons.IH [OF this] event_step [OF s, of base] show ?case using ep_step_trans by blast
qed simp

lemma turn_events_step:
  assumes "turn_events rs en rt w = (Done (Some (en', rt')), w')"
  shows "ep_step rt w rt' w'"
    and "(if en then eps_open base rt w else eps_closed base rt w) \<Longrightarrow> if en' then eps_open base rt' w' else eps_closed base rt' w'"
proof -
  have "ep_step rt w rt' w' \<and> ((if en then eps_open base rt w else eps_closed base rt w) \<longrightarrow>
    (if en' then eps_open base rt' w' else eps_closed base rt' w'))"
  proof (cases "pollin (revents_at rs 0)")
    case False
    then show ?thesis using assms by (auto simp: turn_events_def)
  next
    case True
    obtain x w1 where p: "process_ep0_events en rt w = (x, w1)" by (metis surj_pair)
    then obtain en1 rt1 where x: "x = Done (Some (en1, rt1))"
      using assms True by (auto simp: turn_events_def split: io.splits option.splits)
    have op: "open_endpoints en1 rt1 w1 = (en', rt', w')"
      using assms True p x by (auto simp: turn_events_def split: prod.splits)
    have ev: "ep_step rt w rt1 w1 \<and> (eps_state base en rt w \<longrightarrow> eps_state base en1 rt1 w1)"
    proof (cases "ep0_reads w")
      case Nil
      then show ?thesis using p x by (simp add: process_ep0_events_def)
    next
      case (Cons r rest)
      let ?w = "w\<lparr>ep0_reads := rest\<rparr>"
      have s0: "ep_step rt w rt ?w" "eps_state base en rt ?w = eps_state base en rt w"
        by (simp_all add: ep_step_def eps_state_def eps_closed_def eps_open_def)
      show ?thesis
      proof (cases r)
        case (Ep0Events evs)
        then have "fold ep0_event_step (take 4 evs) (en, rt, ?w) = (en1, rt1, w1)"
          using p x Cons by (auto simp: process_ep0_events_def Let_def split: prod.splits)
        from events_fold [OF this, of base] show ?thesis using s0 ep_step_trans by blast
      qed (use p x Cons s0 in \<open>auto simp: process_ep0_events_def Let_def split: if_splits\<close>)
    qed
    have "(if en then eps_open base rt w else eps_closed base rt w) \<longrightarrow> eps_state base en rt w" by (simp add: eps_state_def)
    then show ?thesis using ev open_endpoints_step(1) [OF op] open_endpoints_step(2) [OF op, of base] ep_step_trans unfolding eps_state_def by blast
  qed
  then show "ep_step rt w rt' w'"
    "(if en then eps_open base rt w else eps_closed base rt w) \<Longrightarrow> if en' then eps_open base rt' w' else eps_closed base rt' w'"
    by blast+
qed

section \<open>The invariant of the loop\<close>

text \<open>
  \<open>k\<close> is the number of blocks in use apart from the receive buffer when the loop started; each turn may
  lose up to 64 to an undecodable payload.
\<close>

definition loop_inv ::
  "int multiset \<Rightarrow> int \<Rightarrow> usb_responder_config \<times> int \<Rightarrow> nat \<Rightarrow> bool \<Rightarrow> responder_runtime \<Rightarrow> 'a rt_world_scheme \<Rightarrow> bool" where
  "loop_inv base k fixed n en rt w \<longleftrightarrow>
     (if en then eps_open base rt w else eps_closed base rt w) \<and> (cfg rt, ep0_fd rt) = fixed \<and>
     rx_ok rt \<and> rx_size rt \<le> rx_limit \<and> uploads_inv (files rt) w \<and>
     k \<le> live w - rx_block rt \<and> live w - rx_block rt \<le> k + 64 * int n"

lemma uploads_inv_fds [simp]: "uploads_inv ops (w\<lparr>opens := a, next_fd := b, fds := c, ep0_reads := d\<rparr>) = uploads_inv ops w"
  by (simp add: uploads_inv_def)

lemma ep_step_keeps:
  assumes "ep_step rt w rt' w'"
  shows "cfg rt' = cfg rt" "ep0_fd rt' = ep0_fd rt" "rx_block rt' = rx_block rt" "rx_ok rt \<Longrightarrow> rx_ok rt'"
    "rx_size rt' \<le> rx_size rt" "uploads_inv (files rt') w' = uploads_inv (files rt) w" "live w' = live w"
proof -
  have w: "w' = w\<lparr>opens := opens w', next_fd := next_fd w', fds := fds w', ep0_reads := ep0_reads w'\<rparr>"
    using assms by (simp add: ep_step_def)
  have "live (w\<lparr>opens := opens w', next_fd := next_fd w', fds := fds w', ep0_reads := ep0_reads w'\<rparr>) = live w" by simp
  then show "live w' = live w" using w by argo
  have "files rt' = files rt" using assms by (simp add: ep_step_def)
  moreover have "uploads_inv (files rt) w' = uploads_inv (files rt) w"
    by (rule trans [OF arg_cong [OF w, of "uploads_inv (files rt)"] uploads_inv_fds])
  ultimately show "uploads_inv (files rt') w' = uploads_inv (files rt) w" by simp
  show "cfg rt' = cfg rt" "ep0_fd rt' = ep0_fd rt" "rx_block rt' = rx_block rt" "rx_ok rt \<Longrightarrow> rx_ok rt'" "rx_size rt' \<le> rx_size rt"
    using assms by (auto simp: ep_step_def rx_block_def rx_ok_def rx_size_def)
qed

lemma loop_inv_ep_step:
  assumes "loop_inv base k fixed n en rt w" and "ep_step rt w rt' w'" and "if en' then eps_open base rt' w' else eps_closed base rt' w'"
  shows "loop_inv base k fixed n en' rt' w'"
  using assms(1,3) ep_step_keeps [OF assms(2)] by (simp add: loop_inv_def)

lemma loop_inv_more: "loop_inv base k fixed n en rt w \<Longrightarrow> n \<le> m \<Longrightarrow> loop_inv base k fixed m en rt w"
  by (auto simp: loop_inv_def)

text \<open>The frame a turn handles fits its answer.\<close>

definition serve_fits :: "responder_runtime \<Rightarrow> 'a rt_world_scheme \<Rightarrow> bool" where
  "serve_fits rt w =
     (case read_frame_buffered rt w of (Done (Inr fr, rt1), w1) \<Rightarrow> answer_fits rt1 fr w1 | _ \<Rightarrow> True)"

lemma loop_inv_read:
  assumes inv: "loop_inv base k fixed n True rt w" and rd: "read_frame_buffered rt w = (Done (r, rt1), w1)"
  shows "case r of Inl e \<Rightarrow> loop_inv base k fixed n True rt1 w1
    | Inr fr \<Rightarrow> frame_wf fr \<and> loop_inv base (k + (if payload fr = None then 0 else 1)) fixed n True rt1 w1"
proof -
  have rt: "rx_ok rt" "rx_size rt \<le> rx_limit" using inv by (simp_all add: loop_inv_def)
  note S = read_frame_buffered_spec [OF rd rt]
  have keep: "loop_inv base (k + d) fixed n True rt1 w1" if "rx_moves con (rx_block rt1 - rx_block rt + d) w w1" for con d
  proof -
    have m: "io_world.more w1 = io_world.more w" "live w1 = live w + (rx_block rt1 - rx_block rt + d)"
      using that by (simp_all add: rx_moves_def)
    note M = more_fields(1) [OF m(1)]
    have "uploads_inv (files rt) w1" using inv M inv_same_streams [of "files rt" w w1] by (simp add: loop_inv_def)
    then show ?thesis using inv S M m(2) by (auto simp: loop_inv_def eps_open_def rx_same_def)
  qed
  show ?thesis
  proof (cases r)
    case (Inl e)
    then show ?thesis using S keep [of _ 0] by auto
  next
    case (Inr fr)
    then obtain con where "rx_moves con (rx_block rt1 - rx_block rt + (if payload fr = None then 0 else 1)) w w1" "frame_wf fr"
      using S by (auto simp: rx_next_def)
    then show ?thesis using keep [of con "if payload fr = None then 0 else 1"] Inr by simp
  qed
qed

lemma loop_inv_handle:
  assumes inv: "loop_inv base k fixed n True rt w" and wf: "frame_wf fr" and fits: "answer_fits rt fr w"
    and run: "handle_frame rt fr w = (Done (ok, rt'), w')"
  shows "loop_inv base k fixed (Suc n) True rt' w'"
proof -
  have up: "uploads_inv (files rt) w" using inv by (simp add: loop_inv_def)
  from handle_frame_contract [OF wf uploads_invD(2) [OF up] fits run] obtain d where
    d: "d = 0 \<or> 0 < d \<and> d \<le> 64" and rt': "rt' = rt\<lparr>files := files rt'\<rparr>"
    and R: "replied (answer_type (msg_type (header fr))) (may_write fr w) d (ep_in_fd rt) (request_id (header fr)) (files rt) w (files rt') w' ok"
    unfolding handled_frame_def by blast
  have "cfg rt' = cfg rt" "ep0_fd rt' = ep0_fd rt" "ep_in_fd rt' = ep_in_fd rt" "ep_out_fd rt' = ep_out_fd rt"
    "rx_buf rt' = rx_buf rt" "rx_cap rt' = rx_cap rt"
    by (subst rt', simp)+
  moreover have "live w' = live w + d" "uploads_inv (files rt') w'" "fds w' = fds w" using R up unfolding replied_def by blast+
  moreover have "0 \<le> d" "d \<le> 64" using d by linarith+
  ultimately show ?thesis using inv by (simp add: loop_inv_def eps_open_def rx_ok_def rx_size_def rx_block_def)
qed

lemma frame_free_step: "snd (usb_responder_protocol_frame_free fr w) = c_free (payload fr \<noteq> None) w"
  by (simp add: usb_responder_protocol_frame_free_def)

lemma loop_inv_free:
  assumes "loop_inv base (k + (if b then 1 else 0)) fixed n True rt w"
  shows "loop_inv base k fixed n True rt (c_free b w)"
proof -
  have "uploads_inv (files rt) (c_free b w)"
    using assms inv_same_streams [of "files rt" w "c_free b w"] by (simp add: loop_inv_def same_streams_def c_free_def)
  then show ?thesis using assms by (auto simp: loop_inv_def eps_open_def c_free_def)
qed

lemma loop_inv_serve:
  assumes inv: "loop_inv base k fixed n True rt w" and fits: "serve_fits rt w"
    and run: "serve_frame rt w = (Done (en', rt'), w')"
  shows "loop_inv base k fixed (Suc n) en' rt' w'"
proof -
  obtain x w1 where rd: "read_frame_buffered rt w = (x, w1)" by (metis surj_pair)
  then obtain r rt1 where x: "x = Done (r, rt1)" using run by (cases x) (auto simp: serve_frame_def)
  note R = loop_inv_read [OF inv rd [unfolded x]]
  show ?thesis
  proof (cases r)
    case (Inl e)
    obtain rt2 w2 where c: "close_eps rt1 w1 = (rt2, w2)" by (metis surj_pair)
    have eq: "en' = False" "rt' = rt2" "w' = w2" using run rd x Inl c by (simp_all add: serve_frame_def)
    have i1: "loop_inv base k fixed n True rt1 w1" using R Inl by simp
    then have "eps_open base rt1 w1" by (simp add: loop_inv_def)
    then have "eps_closed base rt2 w2" using close_eps_step(2) [OF c, of base] by blast
    then have "loop_inv base k fixed n False rt2 w2" using loop_inv_ep_step [OF i1 close_eps_step(1) [OF c], of False] by simp
    then show ?thesis using loop_inv_more [of base k fixed n False rt2 w2 "Suc n"] by (simp add: eq)
  next
    case (Inr fr)
    obtain y w2 where h: "handle_frame rt1 fr w1 = (y, w2)" by (metis surj_pair)
    then obtain ok rt2 where y: "y = Done (ok, rt2)" using run rd x Inr by (cases y) (auto simp: serve_frame_def)
    have eq: "en' = True" "rt' = rt2" "w' = c_free (payload fr \<noteq> None) w2"
      using run rd x Inr h y by (simp_all add: serve_frame_def frame_free_step)
    have "answer_fits rt1 fr w1" using fits rd x Inr by (simp add: serve_fits_def)
    from loop_inv_handle [OF _ _ this h [unfolded y]] R Inr
    have "loop_inv base (k + (if payload fr \<noteq> None then 1 else 0)) fixed (Suc n) True rt2 w2" by (auto split: if_splits)
    from loop_inv_free [OF this] show ?thesis by (simp add: eq)
  qed
qed

text \<open>The frame of a turn, if it handles one, fits its answer.\<close>

definition turn_fits :: "pout \<Rightarrow> bool \<Rightarrow> responder_runtime \<Rightarrow> 'a rt_world_scheme \<Rightarrow> bool" where
  "turn_fits p enabled rt w =
     (case p of
        PollFail e \<Rightarrow> True
      | PollRevents rs \<Rightarrow>
          (case turn_events rs enabled rt w of
             (Done (Some (en, rt1)), w1) \<Rightarrow>
               en \<and> enabled \<and> 0 \<le> ep_out_fd rt \<and> pollin (revents_at rs 1) \<longrightarrow> serve_fits rt1 w1
           | _ \<Rightarrow> True))"

lemma io_turn_cases:
  assumes "io_turn p en rt w = (Done (Some (en', rt')), w')"
  obtains (interrupted) "p = PollFail EINTR" "en' = en" "rt' = rt" "w' = w"
  | (events) rs en1 rt1 w1 where "p = PollRevents rs" "turn_events rs en rt w = (Done (Some (en1, rt1)), w1)"
      "turn_io rs (en \<and> 0 \<le> ep_out_fd rt) en1 rt1 w1 = (Done (en', rt'), w')"
proof (cases p)
  case (PollFail e)
  then show ?thesis using assms interrupted by (auto simp: io_turn_def split: if_splits)
next
  case (PollRevents rs)
  obtain x w1 where te: "turn_events rs en rt w = (x, w1)" by (metis surj_pair)
  then obtain en1 rt1 where x: "x = Done (Some (en1, rt1))"
    using assms PollRevents by (auto simp: io_turn_def split: io.splits option.splits)
  obtain y w2 where ti: "turn_io rs (en \<and> 0 \<le> ep_out_fd rt) en1 rt1 w1 = (y, w2)" by (metis surj_pair)
  then have "y = Done (en', rt')" "w2 = w'" using assms PollRevents te x by (cases y; simp add: io_turn_def)+
  then show ?thesis using events PollRevents te x ti by blast
qed

lemma loop_inv_turn:
  assumes inv: "loop_inv base k fixed n en rt w" and fits: "turn_fits p en rt w"
    and run: "io_turn p en rt w = (Done (Some (en', rt')), w')"
  shows "loop_inv base k fixed (Suc n) en' rt' w'"
  using run
proof (cases rule: io_turn_cases)
  case interrupted
  then show ?thesis using inv loop_inv_more [OF inv, of "Suc n"] by simp
next
  case (events rs en1 rt1 w1)
  have e: "if en then eps_open base rt w else eps_closed base rt w" using inv by (simp add: loop_inv_def)
  have i1: "loop_inv base k fixed n en1 rt1 w1"
    by (rule loop_inv_ep_step [OF inv turn_events_step(1) [OF events(2)] turn_events_step(2) [OF events(2) e]])
  have up: "loop_inv base k fixed (Suc n) en' rt' w'" if "loop_inv base k fixed n en' rt' w'"
    using loop_inv_more [OF that] by simp
  let ?watched = "en \<and> 0 \<le> ep_out_fd rt" and ?r = "revents_at rs 1"
  consider "en1 \<and> ?watched \<and> pollin ?r" | "\<not> (en1 \<and> ?watched \<and> pollin ?r)" "en1 \<and> ?watched \<and> (pollhup ?r \<or> pollerr ?r \<or> pollnval ?r)"
    | "\<not> (en1 \<and> ?watched \<and> pollin ?r)" "\<not> (en1 \<and> ?watched \<and> (pollhup ?r \<or> pollerr ?r \<or> pollnval ?r))" by blast
  then show ?thesis
  proof cases
    case 1
    then have "serve_frame rt1 w1 = (Done (en', rt'), w')" using events(3) by (simp add: turn_io_def)
    moreover have "serve_fits rt1 w1" using fits events 1 by (simp add: turn_fits_def)
    moreover have "loop_inv base k fixed n True rt1 w1" using i1 1 by simp
    ultimately show ?thesis using loop_inv_serve by blast
  next
    case 2
    obtain rt2 w2 where c: "close_eps rt1 w1 = (rt2, w2)" by (metis surj_pair)
    have eq: "en' = False" "rt' = rt2" "w' = w2" using events(3) 2 c by (auto simp: turn_io_def Let_def)
    have "eps_open base rt1 w1" using i1 2 by (simp add: loop_inv_def)
    then have "eps_closed base rt2 w2" using close_eps_step(2) [OF c, of base] by blast
    then have "loop_inv base k fixed n False rt2 w2" using loop_inv_ep_step [OF i1 close_eps_step(1) [OF c], of False] by simp
    then show ?thesis using up by (simp add: eq)
  next
    case 3
    then have "en' = en1" "rt' = rt1" "w' = w1" using events(3) by (auto simp: turn_io_def Let_def)
    then show ?thesis using up i1 by simp
  qed
qed

section \<open>The reachable states\<close>

text \<open>The states of the loop that a sequence of polls can lead to.\<close>

inductive loop_reaches ::
  "bool \<times> responder_runtime \<times> 'a rt_world_scheme \<Rightarrow> pout list \<Rightarrow> bool \<times> responder_runtime \<times> 'a rt_world_scheme \<Rightarrow> bool" where
  reach_start: "loop_reaches s [] s"
| reach_turn: "loop_reaches s ps (en, rt, w) \<Longrightarrow> turn_fits p en rt w \<Longrightarrow>
    io_turn p en rt w = (Done (Some (en', rt')), w') \<Longrightarrow> loop_reaches s (ps @ [p]) (en', rt', w')"

inductive_cases reach_snocE: "loop_reaches s (ps @ [p]) t"

lemma reaches_inv:
  assumes "loop_reaches (en0, rt0, w0) ps (en, rt, w)" and "loop_inv base k fixed n en0 rt0 w0"
  shows "loop_inv base k fixed (n + length ps) en rt w"
  using assms
proof (induction "(en0, rt0, w0)" ps "(en, rt, w)" arbitrary: en rt w rule: loop_reaches.induct)
  case reach_start
  then show ?case by simp
next
  case (reach_turn ps en1 rt1 w1 p en' rt' w')
  from loop_inv_turn [OF reach_turn.hyps(2) [OF reach_turn.prems] reach_turn.hyps(3,4)] show ?case by simp
qed

text \<open>All turns of a run fit.\<close>

fun turns_fit :: "pout list \<Rightarrow> bool \<Rightarrow> responder_runtime \<Rightarrow> 'a rt_world_scheme \<Rightarrow> bool" where
  "turns_fit [] en rt w = True"
| "turns_fit (p # ps) en rt w =
     (turn_fits p en rt w \<and>
      (case io_turn p en rt w of (Done (Some (en', rt')), w') \<Rightarrow> turns_fit ps en' rt' w' | _ \<Rightarrow> True))"

lemma loop_reaches_trans:
  "loop_reaches t qs u \<Longrightarrow> loop_reaches s ps t \<Longrightarrow> loop_reaches s (ps @ qs) u"
proof (induction t qs u rule: loop_reaches.induct)
  case (reach_turn t qs en rt w p en' rt' w')
  from loop_reaches.reach_turn [OF reach_turn.IH [OF reach_turn.prems] reach_turn.hyps(2,3)] show ?case by simp
qed simp

lemma loop_reaches_Cons:
  assumes "turn_fits p en rt w" and "io_turn p en rt w = (Done (Some (en1, rt1)), w1)" and "loop_reaches (en1, rt1, w1) ps t"
  shows "loop_reaches (en, rt, w) (p # ps) t"
  using loop_reaches_trans [OF assms(3) reach_turn [OF reach_start assms(1,2)]] by simp

text \<open>A loop that returns does so with false, from a reachable state and without touching it except for the script.\<close>

lemma io_turn_stops:
  assumes "io_turn p en rt w = (Done None, w')"
  shows "w' = w \<or> w' = w\<lparr>ep0_reads := tl (ep0_reads w)\<rparr>"
proof (cases p)
  case (PollFail e)
  then show ?thesis using assms by (simp add: io_turn_def split: if_splits)
next
  case (PollRevents rs)
  obtain x w1 where te: "turn_events rs en rt w = (x, w1)" by (metis surj_pair)
  have x: "x = Done None" "w' = w1" using assms PollRevents te by (auto simp: io_turn_def split: io.splits option.splits prod.splits)
  obtain y w2 where p: "process_ep0_events en rt w = (y, w2)" by (metis surj_pair)
  have "y = Done None" "w1 = w2" using te x p
    by (auto simp: turn_events_def split: if_splits io.splits option.splits prod.splits)
  then show ?thesis using p x by (auto simp: process_ep0_events_def Let_def split: list.splits ep0_read.splits if_splits prod.splits)
qed

lemma handle_io_loop_stops:
  assumes "handle_io_loop ps en rt w = (Done (ok, rt'), w')" and "turns_fit ps en rt w"
  shows "\<not> ok \<and> (\<exists>qs en' v. loop_reaches (en, rt, w) qs (en', rt', v) \<and> length qs < length ps \<and>
    (w' = v \<or> w' = v\<lparr>ep0_reads := tl (ep0_reads v)\<rparr>))"
  using assms
proof (induction ps en rt w rule: handle_io_loop.induct)
  case (1 en rt w)
  then show ?case by simp
next
  case (2 p ps en rt w)
  obtain x w1 where t: "io_turn p en rt w = (x, w1)" by (metis surj_pair)
  obtain y where x: "x = Done y" using 2(2) t by (cases x) simp_all
  show ?case
  proof (cases y)
    case None
    then have "\<not> ok" "rt' = rt" "w' = w1" using 2(2) t x by simp_all
    then show ?thesis using io_turn_stops [OF t [unfolded x None]]
      by (intro conjI exI [of _ "[]"] exI [of _ en] exI [of _ w]) (auto intro: reach_start)
  next
    case (Some s)
    obtain en1 rt1 where s: "s = (en1, rt1)" by (cases s)
    have run: "handle_io_loop ps en1 rt1 w1 = (Done (ok, rt'), w')" "turns_fit ps en1 rt1 w1" "turn_fits p en rt w"
      using 2(2,3) t x Some s by simp_all
    from "2.IH" [OF t [symmetric] x Some s [symmetric] run(1,2)] obtain qs en' v where
      q: "\<not> ok" "loop_reaches (en1, rt1, w1) qs (en', rt', v)" "length qs < length ps"
        "w' = v \<or> w' = v\<lparr>ep0_reads := tl (ep0_reads v)\<rparr>" by blast
    have "loop_reaches (en, rt, w) (p # qs) (en', rt', v)"
      by (rule loop_reaches_Cons [OF run(3) _ q(2)]) (simp add: t x Some s)
    then show ?thesis using q by (intro conjI exI [of _ "p # qs"] exI [of _ en'] exI [of _ v]) simp_all
  qed
qed

section \<open>The whole run\<close>

lemma uploads_inv_close [simp]: "uploads_inv ops (w\<lparr>fds := x\<rparr>) = uploads_inv ops w"
  "uploads_inv ops (w\<lparr>ep0_reads := y\<rparr>) = uploads_inv ops w" "uploads_inv ops (w\<lparr>live := z\<rparr>) = uploads_inv ops w"
  by (simp_all add: uploads_inv_def)

lemma shutdown_disk: "disk_only w (snd (usb_responder_file_ops_shutdown ops w))"
proof -
  have "disk_only w (shutdown_sessions ss w)" for ss
  proof (induction ss arbitrary: w)
    case (Cons s ss)
    let ?w1 = "if used s then snd (c_unlink (temp_path s) (case fp s of None \<Rightarrow> w | Some f \<Rightarrow> snd (c_fclose f w))) else w"
    have "disk_only w (snd (c_unlink (temp_path s) (case fp s of None \<Rightarrow> w | Some f \<Rightarrow> snd (c_fclose f w))))"
      by (rule disk_only_trans [OF close_disk tree_only_disk [OF tree_only_snd(1)]])
    then have "disk_only w ?w1" by (cases "used s") simp_all
    from disk_only_trans [OF this Cons.IH] show ?case by simp
  qed simp
  then show ?thesis by (simp add: usb_responder_file_ops_shutdown_def)
qed

lemma shutdown_closes:
  assumes "uploads_inv ops w"
  shows "streams (snd (usb_responder_file_ops_shutdown ops w)) = (\<lambda>_. None)"
proof -
  have len: "length ops = 16" by (rule uploads_invD(2) [OF assms])
  have "dom (streams (shutdown_sessions ops w)) = {}"
  proof -
    have "\<exists>s\<in>set ops. used s \<and> fp s = Some f" if "f \<in> dom (streams w)" for f
    proof -
      from that assms obtain i where i: "i < 16" "fp (ops ! i) = Some f" by (auto simp: uploads_inv_def)
      then have "used (ops ! i)" using assms by (auto simp: uploads_inv_def)
      then show ?thesis using i len by (intro bexI [of _ "ops ! i"]) simp_all
    qed
    then show ?thesis unfolding shutdown_streams by blast
  qed
  then show ?thesis using len by (simp add: usb_responder_file_ops_shutdown_def)
qed

definition blob_blocks :: "bool \<times> bool \<Rightarrow> int" where
  "blob_blocks blobs = holds (fst blobs) + holds (snd blobs)"

text \<open>At the end every descriptor, stream and block of the run is given back.\<close>

lemma run_out_spec:
  assumes inv: "loop_inv (base + {#ep0_fd rt#}) k fixed n en rt w" and ep0: "0 \<le> ep0_fd rt"
  shows "mset (fds (run_out blobs rt w)) = base" and "streams (run_out blobs rt w) = (\<lambda>_. None)"
    and "k - blob_blocks blobs \<le> live (run_out blobs rt w)" and "live (run_out blobs rt w) \<le> k + 64 * int n - blob_blocks blobs"
proof -
  obtain rt1 w1 where c: "close_eps rt w = (rt1, w1)" by (metis surj_pair)
  note C = close_eps_step(1) [OF c] ep_step_keeps [OF close_eps_step(1) [OF c]]
  have closed: "eps_closed (base + {#ep0_fd rt#}) rt1 w1"
    using close_eps_step(2) [OF c, of "base + {#ep0_fd rt#}"] inv by (auto simp: loop_inv_def split: if_splits)
  let ?w2 = "sys_close (ep0_fd rt) w1"
  let ?w3 = "snd (usb_responder_file_ops_shutdown (files rt1) ?w2)"
  have eq: "run_out blobs rt w = c_free (rx_cap rt1 \<noteq> 0) (c_free (snd blobs) (c_free (fst blobs) ?w3))"
    using c ep0 C(3) by (simp add: run_out_def Let_def)
  have up: "uploads_inv (files rt1) ?w2" using C(7) inv by (simp add: sys_close_def loop_inv_def)
  have d: "live ?w3 = live w" "fds ?w3 = fds ?w2"
    using shutdown_disk [of ?w2 "files rt1"] more_fields(2) [of ?w3 ?w2] C(8) by (simp_all add: disk_only_def sys_close_def)
  show "streams (run_out blobs rt w) = (\<lambda>_. None)" using shutdown_closes [OF up] by (simp add: eq c_free_def)
  have "mset (fds ?w2) = base" using closed by (simp add: eps_closed_def sys_close_def)
  then show "mset (fds (run_out blobs rt w)) = base" using d(2) by (simp add: eq c_free_def)
  have "live (run_out blobs rt w) = live w - rx_block rt - blob_blocks blobs"
    using d(1) C(1) by (simp add: eq c_free_def blob_blocks_def rx_block_def ep_step_def)
  then show "k - blob_blocks blobs \<le> live (run_out blobs rt w)" "live (run_out blobs rt w) \<le> k + 64 * int n - blob_blocks blobs"
    using inv by (simp_all add: loop_inv_def)
qed

lemma handle_io_loop_false: "handle_io_loop ps en rt w = (Done (ok, rt'), w') \<Longrightarrow> \<not> ok"
proof (induction ps en rt w rule: handle_io_loop.induct)
  case (2 p ps en rt w)
  obtain x w1 where t: "io_turn p en rt w = (x, w1)" by (metis surj_pair)
  obtain y where x: "x = Done y" using 2(2) t by (cases x) simp_all
  show ?case
  proof (cases y)
    case None
    then show ?thesis using 2(2) t x by simp
  next
    case (Some s)
    obtain en1 rt1 where s: "s = (en1, rt1)" by (cases s)
    have "handle_io_loop ps en1 rt1 w1 = (Done (ok, rt'), w')" using 2(2) t x Some s by simp
    from "2.IH" [OF t [symmetric] x Some s [symmetric] this] show ?thesis .
  qed
qed simp

lemma run_false:
  assumes "usb_responder_run abi polls config w = (Done ok, w')"
  shows "\<not> ok"
proof -
  have ep0: "\<not> ok" if run: "run_with_ep0 abi polls rt v = (Done ok, w')" for rt v
  proof -
    obtain blobs b v1 where s: "run_start abi (ep0_fd rt) v = ((blobs, b), v1)" by (metis surj_pair)
    show ?thesis
    proof (cases b)
      case True
      obtain x v2 where l: "handle_io_loop polls False rt v1 = (x, v2)" by (metis surj_pair)
      then obtain ok1 rt1 where "x = Done (ok1, rt1)" using run s True by (cases x) (auto simp: run_with_ep0_def)
      then show ?thesis using run s True l handle_io_loop_false [of polls False rt v1 ok1 rt1 v2] by (simp add: run_with_ep0_def)
    qed (use run s in \<open>simp add: run_with_ep0_def\<close>)
  qed
  show ?thesis using assms ep0 by (auto simp: usb_responder_run_def split: option.splits prod.splits)
qed

text \<open>The answers of a run fit.\<close>

definition run_fits :: "usb_abi \<Rightarrow> pout list \<Rightarrow> usb_responder_config option \<Rightarrow> 'a rt_world_scheme \<Rightarrow> bool" where
  "run_fits abi polls config w =
     (case config of
        None \<Rightarrow> True
      | Some c \<Rightarrow>
          (case open_ep (text_or_empty (ffs_mount c)) ''ep0'' w of
             (None, w1) \<Rightarrow> True
           | (Some fd, w1) \<Rightarrow>
               (case run_start abi fd w1 of
                  ((blobs, ok), w2) \<Rightarrow> ok \<longrightarrow> turns_fit polls False ((initial_runtime c)\<lparr>ep0_fd := fd\<rparr>) w2)))"

lemma mem_only_same_more: "mem_only w w' d \<Longrightarrow> io_world.more w' = io_world.more w"
  by (rule mem_only_keeps)

lemma run_start_spec:
  assumes "abi_ok abi" and "run_start abi ep0 w = ((blobs, ok), w')"
  shows "io_world.more w' = io_world.more w" and "live w' = live w + blob_blocks blobs"
proof -
  obtain d w1 where bd: "usb_responder_build_descriptors_blob abi w = (d, w1)" by (metis surj_pair)
  note D = build_descriptors_cases [OF assms(1) bd]
  have "io_world.more w' = io_world.more w \<and> live w' = live w + blob_blocks blobs"
  proof (cases d)
    case (Inl e)
    then show ?thesis using D assms(2) bd mem_only_keeps mem_only_live by (fastforce simp: run_start_def blob_blocks_def)
  next
    case (Inr desc)
    obtain s w2 where bs: "usb_responder_build_strings_blob abi w1 = (s, w2)" by (metis surj_pair)
    note S = build_strings_cases [OF assms(1) bs]
    have m1: "io_world.more w1 = io_world.more w" "live w1 = live w + 1" using D Inr mem_only_keeps mem_only_live by fastforce+
    show ?thesis
    proof (cases s)
      case (Inl e)
      have "io_world.more w2 = io_world.more w1" "live w2 = live w1" using S Inl mem_only_keeps mem_only_live by fastforce+
      then show ?thesis using assms(2) bd Inr bs Inl m1 by (auto simp: run_start_def blob_blocks_def)
    next
      case strs: (Inr strs)
      have m2: "io_world.more w2 = io_world.more w" "live w2 = live w + 2" using S strs m1 mem_only_keeps mem_only_live by fastforce+
      obtain b3 w3 where w3: "usb_responder_write_full ep0 desc w2 = (b3, w3)" by (metis surj_pair)
      obtain b4 w4 where w4: "usb_responder_write_full ep0 strs w3 = (b4, w4)" by (metis surj_pair)
      have "io_only w2 w3" "io_only w3 w4" using write_full_spec [OF w3] write_full_spec [OF w4] by blast+
      then have "io_world.more w3 = io_world.more w \<and> live w3 = live w + 2" "io_world.more w4 = io_world.more w \<and> live w4 = live w + 2"
        using m2 by (simp_all add: io_only_def)
      then show ?thesis using assms(2) bd Inr bs strs w3 w4 by (cases b3) (auto simp: run_start_def blob_blocks_def)
    qed
  qed
  then show "io_world.more w' = io_world.more w" "live w' = live w + blob_blocks blobs" by simp_all
qed

lemma run_with_ep0_spec:
  assumes abi: "abi_ok abi" and rt: "rt = (initial_runtime c)\<lparr>ep0_fd := fd\<rparr>" "0 \<le> fd"
    and w: "streams w = (\<lambda>_. None)" "mset (fds w) = base + {#fd#}"
    and fits: "\<And>blobs v. run_start abi fd w = ((blobs, True), v) \<Longrightarrow> turns_fit polls False rt v"
    and run: "run_with_ep0 abi polls rt w = (Done ok, w')"
  shows "mset (fds w') = base" and "streams w' = (\<lambda>_. None)" and "live w \<le> live w'" "live w' \<le> live w + 64 * int (length polls)"
proof -
  have ep0: "ep0_fd rt = fd" by (simp add: rt(1))
  obtain blobs b w1 where st: "run_start abi fd w = ((blobs, b), w1)" by (metis surj_pair)
  note S = run_start_spec [OF abi st]
  note M = more_fields(1) [OF S(1)]
  let ?k = "live w1"
  have inv: "loop_inv (base + {#ep0_fd rt#}) ?k (cfg rt, fd) 0 False rt w1"
  proof -
    have "uploads_inv (files rt) w1"
    proof -
      have "dom (streams w1) = {}" using M w(1) by (simp add: same_streams_def)
      then have "streams w1 = (\<lambda>_. None)" by (simp add: fun_eq_iff domIff set_eq_iff)
      then show ?thesis by (simp add: rt(1) initial_runtime_def init_inv)
    qed
    moreover have "mset (fds w1) = base + {#fd#}" using M w(2) by simp
    ultimately show ?thesis
      by (simp add: loop_inv_def eps_closed_def ep0 rx_ok_def rx_size_def rx_block_def rx_capacities_def)
        (simp add: rt(1) initial_runtime_def)
  qed
  have out: "mset (fds (run_out blobs rt' v)) = base \<and> streams (run_out blobs rt' v) = (\<lambda>_. None) \<and>
      live w \<le> live (run_out blobs rt' v) \<and> live (run_out blobs rt' v) \<le> live w + 64 * int (length polls)"
    if i: "loop_inv (base + {#ep0_fd rt#}) ?k (cfg rt, fd) n en rt' v" "n \<le> length polls" for n en rt' v
  proof -
    have e: "ep0_fd rt' = fd" using i(1) by (simp add: loop_inv_def)
    have i2: "loop_inv (base + {#ep0_fd rt'#}) ?k (cfg rt, fd) n en rt' v" using i(1) by (simp add: e ep0)
    note R = run_out_spec [OF i2, of blobs, unfolded e, OF rt(2)]
    then show ?thesis using S(2) i(2) by simp
  qed
  have "mset (fds w') = base \<and> streams w' = (\<lambda>_. None) \<and> live w \<le> live w' \<and> live w' \<le> live w + 64 * int (length polls)"
  proof (cases b)
    case False
    then have "w' = run_out blobs rt w1" using run st by (simp add: run_with_ep0_def ep0)
    then show ?thesis using out [OF inv] by simp
  next
    case True
    then have st': "run_start abi fd w = ((blobs, True), w1)" using st by simp
    obtain x w2 where l: "handle_io_loop polls False rt w1 = (x, w2)" by (metis surj_pair)
    then obtain ok1 rt1 where x: "x = Done (ok1, rt1)" using run st True by (cases x) (auto simp: run_with_ep0_def ep0)
    have w': "w' = run_out blobs rt1 w2" using run st True l x by (simp add: run_with_ep0_def ep0)
    from handle_io_loop_stops [OF l [unfolded x] fits [OF st']] obtain qs en' v where
      q: "loop_reaches (False, rt, w1) qs (en', rt1, v)" "length qs < length polls" "w2 = v \<or> w2 = v\<lparr>ep0_reads := tl (ep0_reads v)\<rparr>"
      by blast
    from reaches_inv [OF q(1) inv] have i: "loop_inv (base + {#ep0_fd rt#}) ?k (cfg rt, fd) (length qs) en' rt1 v" by simp
    then have "loop_inv (base + {#ep0_fd rt#}) ?k (cfg rt, fd) (length qs) en' rt1 w2"
      using q(3) by (auto simp: loop_inv_def eps_open_def eps_closed_def split: if_splits)
    from out [OF this] q(2) show ?thesis by (simp add: w')
  qed
  then show "mset (fds w') = base" "streams w' = (\<lambda>_. None)" "live w \<le> live w'" "live w' \<le> live w + 64 * int (length polls)"
    by blast+
qed

end
