(* ===== verification/Responder.thy ===== *)
theory Responder
  imports Event_Loop
begin

text \<open>
  The properties of the event loop and of the whole program: the invariant of every reachable state, what a
  turn answers, what the program gives back when it ends, and a frame the loop forgets.
\<close>

section \<open>The loop\<close>

text \<open>
  C7. The invariant of the event loop. In every state the loop can reach, whatever the host and the kernel do, the
  two endpoint descriptors are open exactly while the function is enabled, and no descriptor was leaked; the
  receive buffer is within its block of at most 16 MiB and empty while the endpoints are closed; the upload table
  and its streams are consistent; and each turn cost at most 64 blocks.
\<close>

theorem loop_invariant:
  assumes "loop_reaches (False, rt0, w0) ps (en, rt, w)"
    and "ep_in_fd rt0 = - 1" "ep_out_fd rt0 = - 1" "rx_buf rt0 = []" "rx_cap rt0 = 0" "uploads_inv (files rt0) w0"
  shows "(if en then 0 \<le> ep_in_fd rt \<and> 0 \<le> ep_out_fd rt \<and> mset (fds w) = mset (fds w0) + {#ep_in_fd rt, ep_out_fd rt#}
      else ep_in_fd rt = - 1 \<and> ep_out_fd rt = - 1 \<and> mset (fds w) = mset (fds w0) \<and> rx_buf rt = []) \<and>
    rx_size rt \<le> rx_cap rt \<and> rx_cap rt \<le> 16777216 \<and> uploads_inv (files rt) w \<and> cfg rt = cfg rt0 \<and>
    live w0 \<le> live w - rx_block rt \<and> live w - rx_block rt \<le> live w0 + 64 * int (length ps)"
proof -
  have "loop_inv (mset (fds w0)) (live w0) (cfg rt0, ep0_fd rt0) 0 False rt0 w0"
    using assms(2-6) by (simp add: loop_inv_def eps_closed_def rx_ok_def rx_size_def rx_block_def rx_capacities_def)
  from reaches_inv [OF assms(1) this]
  have I: "loop_inv (mset (fds w0)) (live w0) (cfg rt0, ep0_fd rt0) (length ps) en rt w" by simp
  have "2 ^ k \<le> (2 :: nat) ^ 12" if "k \<le> 12" for k :: nat using that by (intro power_increasing) simp_all
  then have "c \<le> 16777216" if "c \<in> rx_capacities" for c using that by (auto simp: rx_capacities_def)
  then show ?thesis using I by (simp add: loop_inv_def eps_open_def eps_closed_def rx_ok_def split: if_splits)
qed

definition idle_runtime :: responder_runtime where
  "idle_runtime = (initial_runtime \<lparr>ffs_mount = Some ''/dev/ffs'', default_timeout_ms = 0, cfg_max_stdout = 0,
     cfg_max_stderr = 0, verbose = False\<rparr>)\<lparr>ep0_fd := 3\<rparr>"

text \<open>A world in which \<open>ep0\<close> reports that the function was enabled.\<close>

definition enabling_world :: rt_world where
  "enabling_world = (responder_world [])\<lparr>ep0_reads := [Ep0Events [BIND, ENABLE]], fds := [3]\<rparr>"

definition ep0_ready :: pout where
  "ep0_ready = PollRevents [\<lparr>pollin = True, pollhup = False, pollerr = False, pollnval = False\<rparr>]"

lemma enabling_turn:
  "io_turn ep0_ready False idle_runtime enabling_world =
     (Done (Some (True, idle_runtime\<lparr>ep_in_fd := 6, ep_out_fd := 7\<rparr>)),
      enabling_world\<lparr>ep0_reads := [], next_fd := 8, fds := [7, 6, 3]\<rparr>)"
  by (simp add: io_turn_def ep0_ready_def turn_events_def revents_at_def no_revents_def process_ep0_events_def enabling_world_def
      ep0_event_step_def open_endpoints_def idle_runtime_def initial_runtime_def default_config_def mount_text_def
      text_or_empty_def open_ep_def c_str_def sys_open_def responder_world_def turn_io_def Let_def)

theorem loop_invariant_witness:
  "\<exists>rt w. loop_reaches (False, idle_runtime, enabling_world) [ep0_ready] (True, rt, w) \<and>
     0 \<le> ep_in_fd rt \<and> mset (fds w) = {#3, ep_in_fd rt, ep_out_fd rt#}"
proof -
  let ?rt = "idle_runtime\<lparr>ep_in_fd := 6, ep_out_fd := 7\<rparr>" and ?w = "enabling_world\<lparr>ep0_reads := [], next_fd := 8, fds := [7, 6, 3]\<rparr>"
  have "turn_fits ep0_ready False idle_runtime enabling_world"
    by (simp add: turn_fits_def ep0_ready_def revents_at_def no_revents_def split: io.split option.split prod.split)
  from reach_turn [OF reach_start this enabling_turn]
  have r: "loop_reaches (False, idle_runtime, enabling_world) [ep0_ready] (True, ?rt, ?w)" by simp
  have "uploads_inv (files idle_runtime) enabling_world"
    by (simp add: idle_runtime_def initial_runtime_def enabling_world_def init_inv)
  from loop_invariant [OF r _ _ _ _ this]
  show ?thesis using r by (intro exI [of _ ?rt] exI [of _ ?w]) (simp add: idle_runtime_def initial_runtime_def enabling_world_def)
qed


definition plain_config :: usb_responder_config where
  "plain_config = \<lparr>ffs_mount = Some ''/dev/ffs'', default_timeout_ms = 0, cfg_max_stdout = 0, cfg_max_stderr = 0, verbose = False\<rparr>"

definition broken_poll :: pout where
  "broken_poll = PollFail ENOMEM"

lemma plain_run:
  "\<exists>w'. usb_responder_run linux_abi [broken_poll] (Some plain_config) (responder_world []) = (Done False, w') \<and>
     run_fits linux_abi [broken_poll] (Some plain_config) (responder_world [])"
proof -
  let ?w1 = "(responder_world [])\<lparr>next_fd := 7, fds := [6, 3, 4, 5]\<rparr>"
  have op: "open_ep ''/dev/ffs'' ''ep0'' (responder_world []) = (Some 6, ?w1)"
    by (simp add: open_ep_def c_str_def sys_open_def responder_world_def)
  obtain d w2 where bd: "usb_responder_build_descriptors_blob linux_abi ?w1 = (d, w2)" by (metis surj_pair)
  obtain desc where d: "d = Inr desc" "mem_only ?w1 w2 1"
    using build_descriptors_cases [OF linux_abi_ok bd] by (cases d) simp_all
  have c2: "allocs w2 = []" "wscript w2 = []" using mem_only_calm [OF d(2)] mem_only_keeps [OF d(2)] by simp_all
  obtain s w3 where bs: "usb_responder_build_strings_blob linux_abi w2 = (s, w3)" by (metis surj_pair)
  obtain strs where s: "s = Inr strs" "mem_only w2 w3 1"
    using build_strings_cases [OF linux_abi_ok bs] c2(1) by (cases s) simp_all
  have c3: "wscript w3 = []" using mem_only_keeps [OF s(2)] c2 by simp
  obtain w4 where w4: "usb_responder_write_full 6 desc w3 = (True, w4)" "wscript w4 = []" using write_full_calm [OF c3] by blast
  obtain w5 where w5: "usb_responder_write_full 6 strs w4 = (True, w5)" "wscript w5 = []" using write_full_calm [OF w4(2)] by blast
  have st: "run_start linux_abi 6 ?w1 = (((True, True), True), w5)"
    by (simp add: run_start_def bd d bs s w4(1) w5(1))
  have t: "io_turn broken_poll en rt w = (Done None, w)" for en rt and w :: rt_world by (simp add: io_turn_def broken_poll_def)
  have tf: "turn_fits broken_poll en rt w" for en rt and w :: rt_world by (simp add: turn_fits_def broken_poll_def)
  have "run_fits linux_abi [broken_poll] (Some plain_config) (responder_world [])"
    by (simp add: run_fits_def plain_config_def text_or_empty_def op st t tf)
  moreover have "\<exists>w'. usb_responder_run linux_abi [broken_poll] (Some plain_config) (responder_world []) = (Done False, w')"
    by (simp add: usb_responder_run_def plain_config_def op run_with_ep0_def initial_runtime_def st t)
  ultimately show ?thesis by blast
qed




section \<open>A request and its answer\<close>

lemma serve_answers:
  assumes rt: "rx_ok rt" "rx_size rt \<le> rx_limit" and up: "uploads_inv (files rt) w"
    and al: "alive w" "wscript w = []" and fr: "frame_wf fr" "unat (payload_len (header fr)) \<le> USB_RESPONDER_MAX_PAYLOAD"
    and data: "rx_buf rt @ delivered (rscript w) = frame_bytes fr @ behind"
    and req: "msg_of (msg_type (header fr)) \<notin> {Some MSG_COMMAND_EXEC, Some MSG_DEVINFO}" and small: "files_small (vfs w)"
  shows "\<exists>rt' w' reply. serve_frame rt w = (Done (True, rt'), w') \<and> host_gets (ep_in_fd rt) w w' reply \<and>
    request_id (header reply) = request_id (header fr) \<and> rx_buf rt' @ delivered (rscript w') = behind"
proof -
  obtain rt1 w1 where rd: "read_frame_buffered rt w = (Done (Inr fr, rt1), w1)" "alive w1"
    using read_frame_buffered_alive [OF al(1) rt fr data] by blast
  note S = read_frame_buffered_spec [OF rd(1) rt]
  obtain con where con: "rx_moves con (rx_block rt1 - rx_block rt + (if payload fr = None then 0 else 1)) w w1"
    "rx_buf rt @ delivered con = frame_bytes fr @ rx_buf rt1"
    using S by (auto simp: rx_next_def)
  have m: "io_world.more w1 = io_world.more w" "wscript w1 = []" "sent w1 = sent w" "rscript w = con @ rscript w1" "allocs w1 = []"
    using con(1) al rd(2) by (simp_all add: rx_moves_def alive_def)
  note M = more_fields(1) [OF m(1)]
  have up1: "uploads_inv (files rt1) w1" using S up M inv_same_streams [of "files rt" w w1] by (simp add: rx_same_def)
  have fits: "answer_fits rt1 fr w1" using small M req by (auto simp: answer_fits_def)
  obtain ok rt2 w2 where h: "handle_frame rt1 fr w1 = (Done (ok, rt2), w2)" using handle_frame_done [OF req] by blast
  from handle_frame_contract [OF fr(1) uploads_invD(2) [OF up1] fits h] obtain d where
    R: "replied (answer_type (msg_type (header fr))) (may_write fr w1) d (ep_in_fd rt1) (request_id (header fr)) (files rt1) w1 (files rt2) w2 ok"
    and rt2: "rt2 = rt1\<lparr>files := files rt2\<rparr>" unfolding handled_frame_def by blast
  have ok: "ok" "rscript w2 = rscript w1" using R m(2,5) unfolding replied_def by blast+
  obtain ty where "answers (ep_in_fd rt1) ty (request_id (header fr)) w1 w2 True" using R ok(1) unfolding replied_def by auto
  from answers_host [OF this] obtain reply where
    reply: "host_gets (ep_in_fd rt1) w1 w2 reply" "request_id (header reply) = request_id (header fr)" by blast
  let ?w3 = "c_free (payload fr \<noteq> None) w2"
  have "serve_frame rt w = (Done (True, rt2), ?w3)" using rd(1) h by (simp add: serve_frame_def frame_free_step)
  moreover have "ep_in_fd rt1 = ep_in_fd rt" using S by (simp add: rx_same_def)
  moreover have "host_gets (ep_in_fd rt1) w ?w3 reply" using reply(1) host_gets_same [of w1 w w2 ?w3] m(3) by (simp add: c_free_def)
  moreover have "rx_buf rt2 = rx_buf rt1" by (subst rt2) simp
  moreover have "rx_buf rt1 @ delivered (rscript w1) = behind"
    using data con(2) m(4) by (simp flip: append_assoc) simp
  ultimately show ?thesis using reply(2) ok(2)
    by (intro exI [of _ rt2] exI [of _ ?w3] exI [of _ reply]) (simp add: c_free_def)
qed

text \<open>Data is reported for the endpoint and nothing for \<open>ep0\<close>.\<close>

definition data_poll :: "revents list \<Rightarrow> bool" where
  "data_poll rs \<longleftrightarrow> \<not> pollin (revents_at rs 0) \<and> pollin (revents_at rs 1)"

lemma data_turn:
  assumes "data_poll rs" "0 \<le> ep_out_fd rt" "serve_frame rt w = (Done (en, rt'), w')"
  shows "io_turn (PollRevents rs) True rt w = (Done (Some (en, rt')), w')"
  using assms by (simp add: data_poll_def io_turn_def turn_events_def turn_io_def)

text \<open>
  C1. A request over the loop. In an enabled loop, when data is reported for the endpoint, the endpoint is alive and
  takes answers, memory suffices and the bytes buffered and arriving start with a well-formed request that runs no
  program, the turn ends with exactly one frame sent to the host, which carries the id of the request, and
  the bytes behind the request are kept.
\<close>

theorem turn_answers:
  assumes "data_poll rs" "0 \<le> ep_out_fd rt" and "rx_ok rt" "rx_size rt \<le> rx_limit" "uploads_inv (files rt) w"
    and "alive w" "wscript w = []" and "frame_wf fr" "unat (payload_len (header fr)) \<le> USB_RESPONDER_MAX_PAYLOAD"
    and "rx_buf rt @ delivered (rscript w) = frame_bytes fr @ behind"
    and "msg_of (msg_type (header fr)) \<notin> {Some MSG_COMMAND_EXEC, Some MSG_DEVINFO}" "files_small (vfs w)"
  shows "\<exists>rt' w' reply. io_turn (PollRevents rs) True rt w = (Done (Some (True, rt')), w') \<and>
    host_gets (ep_in_fd rt) w w' reply \<and> request_id (header reply) = request_id (header fr) \<and>
    rx_buf rt' @ delivered (rscript w') = behind"
  using serve_answers [OF assms(3-12)] data_turn [OF assms(1,2)] by blast

text \<open>Two requests in one transfer.\<close>

definition hello :: "u32 \<Rightarrow> frame" where
  "hello n = host_request MSG_HELLO n None"

lemma hello_wf: "frame_wf (hello n)" "payload_len (header (hello n)) = 0" "length (frame_bytes (hello n)) = 24"
  "request_id (header (hello n)) = n" "msg_of (msg_type (header (hello n))) = Some MSG_HELLO"
  using host_request_wf [of None MSG_HELLO n] msg_of_code [of MSG_HELLO]
  by (simp_all add: hello_def length_frame_bytes frame_body_def host_request_def sealed_def reply_frame_def del: msg_of_code)

definition pair_world :: rt_world where
  "pair_world = (responder_world [])\<lparr>rscript := [RData (frame_bytes (hello 1) @ frame_bytes (hello 2))], pscript := [pollin_only]\<rparr>"

definition data_ready :: "revents list" where
  "data_ready = [no_revents, \<lparr>pollin = True, pollhup = False, pollerr = False, pollnval = False\<rparr>]"

lemma pair_world_facts:
  "alive pair_world" "wscript pair_world = []" "uploads_inv (files start_runtime) pair_world" "files_small (vfs pair_world)"
  "rx_buf start_runtime @ delivered (rscript pair_world) = frame_bytes (hello 1) @ frame_bytes (hello 2)"
  "data_poll data_ready" "0 \<le> ep_out_fd start_runtime"
proof -
  have "frame_bytes (hello 1) \<noteq> []" using hello_wf(3) [of 1] by (metis list.size(3) zero_neq_numeral)
  then show "alive pair_world"
    by (simp add: pair_world_def alive_def pollin_only_def poll_soft_def poll_ready_def poll_count_def no_revents_def revents_at_def
        read_soft_def responder_world_def)
  show "rx_buf start_runtime @ delivered (rscript pair_world) = frame_bytes (hello 1) @ frame_bytes (hello 2)"
    by (simp add: pair_world_def start_runtime_def hello_wf(3))
qed (simp_all add: pair_world_def data_poll_def data_ready_def revents_at_def no_revents_def start_runtime_def init_inv)

theorem turn_answers_witness:
  "\<exists>rt' w' reply. io_turn (PollRevents data_ready) True start_runtime pair_world = (Done (Some (True, rt')), w') \<and>
     host_gets 4 pair_world w' reply \<and> request_id (header reply) = 1"
proof -
  note P = pair_world_facts
  have h: "unat (payload_len (header (hello 1))) \<le> 8388608" "msg_of (msg_type (header (hello 1))) \<notin> {Some MSG_COMMAND_EXEC, Some MSG_DEVINFO}"
    by (simp_all add: hello_wf)
  from turn_answers [OF P(6,7) start_runtime_ok P(3) P(1,2) hello_wf(1) h(1) P(5) h(2) P(4)]
  show ?thesis by (auto simp: hello_wf(4))
qed

text \<open>Nothing on \<open>ep0\<close> and no data.\<close>

definition idle_poll :: "pout \<Rightarrow> bool" where
  "idle_poll p \<longleftrightarrow> (case p of PollFail e \<Rightarrow> e = EINTR
     | PollRevents rs \<Rightarrow> \<not> pollin (revents_at rs 0) \<and> revents_at rs 1 = no_revents)"

lemma idle_turn: "idle_poll p \<Longrightarrow> io_turn p en rt w = (Done (Some (en, rt)), w)"
  by (auto simp: idle_poll_def io_turn_def turn_events_def turn_io_def no_revents_def split: pout.splits)

lemma idle_loop: "list_all idle_poll ps \<Longrightarrow> handle_io_loop ps en rt w = (Blocked, w)"
  by (induction ps) (simp_all add: idle_turn)



end
