(* ===== verification/Upload_Content.thy ===== *)
theory Upload_Content
  imports Uploads Vfs_Facts
begin

text \<open>
  What an upload leaves in the file system when no call fails: the final path holds the
  chunks in order, with the requested permission bits, the temporary file is gone and no
  other path has changed.
\<close>

section \<open>Writing through the stream of an upload\<close>

text \<open>The stream \<open>f\<close> has taken the bytes \<open>bs\<close>, of which some are in the file and the rest buffered.\<close>

definition receiving :: "vfs \<Rightarrow> nat \<Rightarrow> nat \<Rightarrow> byte list \<Rightarrow> 'a fs_world_scheme \<Rightarrow> bool" where
  "receiving v i f bs w \<longleftrightarrow> faults w = [] \<and>
     (\<exists>d p. vfs w = vfs_data v i d \<and> streams w f = Some \<lparr>s_ino = i, s_off = length d, s_pending = p\<rparr> \<and> d @ p = bs)"

lemma receiving_fwrite:
  assumes "receiving v i f bs w"
  shows "fst (c_fwrite x f w) = length x" and "receiving v i f (bs @ x) (snd (c_fwrite x f w))"
  using assms by (auto simp: receiving_def c_fwrite_def next_fault_def)

lemma receiving_fflush:
  assumes "receiving v i f bs w"
  shows "fst (c_fflush f w)" and "receiving v i f bs (snd (c_fflush f w))"
    and "vfs (snd (c_fflush f w)) = vfs_data v i bs"
  using assms by (auto simp: receiving_def c_fflush_def next_fault_def vfs_data_def write_at_end)

lemma receiving_fclose:
  assumes "receiving v i f bs w"
  shows "vfs (snd (c_fclose f w)) = vfs_data v i bs" and "faults (snd (c_fclose f w)) = []"
  using receiving_fflush [OF assms] by (simp_all add: c_fclose_def case_prod_beta receiving_def)

lemma receiving_pace:
  assumes "receiving v i f bs w" and "fp s = Some f"
  shows "receiving v i f bs (upload_pace_writeback s w)"
proof -
  obtain w1 where fl: "c_fflush f w = (True, w1)" and r: "receiving v i f bs w1"
    using receiving_fflush [OF assms(1)] by (metis prod.collapse)
  have "faults w1 = []" using r by (simp add: receiving_def)
  then have "plain_call w1 = (True, w1)" by (simp add: plain_call_def next_fault_def)
  then show ?thesis using r by (simp add: upload_pace_writeback_def assms(2) fl)
qed

section \<open>A whole upload\<close>

fun append_chunks ::
  "u32 \<Rightarrow> byte list list \<Rightarrow> file_ops \<Rightarrow> 'a fs_world_scheme \<Rightarrow> bool \<times> file_ops \<times> 'a fs_world_scheme" where
  "append_chunks tid [] ops w = (True, ops, w)"
| "append_chunks tid (d # ds) ops w =
     (case usb_responder_file_append_upload_chunk ops tid (Some d) w of
        (False, ops1, w1) \<Rightarrow> (False, ops1, w1)
      | (True, ops1, w1) \<Rightarrow> append_chunks tid ds ops1 w1)"

definition upload_file ::
  "u32 \<Rightarrow> string \<Rightarrow> string option \<Rightarrow> string option \<Rightarrow> byte list list \<Rightarrow> file_ops \<Rightarrow> 'a fs_world_scheme \<Rightarrow>
   bool \<times> file_ops \<times> 'a fs_world_scheme" where
  "upload_file tid rel desire perm chunks ops w =
     (case usb_responder_file_begin_upload ops tid (Some rel) desire perm w of
        (False, ops1, w1) \<Rightarrow> (False, ops1, w1)
      | (True, ops1, w1) \<Rightarrow>
          (case append_chunks tid chunks ops1 w1 of
             (False, ops2, w2) \<Rightarrow> (False, ops2, w2)
           | (True, ops2, w2) \<Rightarrow> usb_responder_file_finish_upload ops2 tid w2))"

text \<open>The open session of an upload in progress.\<close>

definition in_progress ::
  "file_ops \<Rightarrow> u32 \<Rightarrow> upload_session \<Rightarrow> nat \<Rightarrow> vfs \<Rightarrow> nat \<Rightarrow> byte list \<Rightarrow> 'a fs_world_scheme \<Rightarrow> bool" where
  "in_progress ops tid s f v i bs w \<longleftrightarrow>
     receiving v i f bs w \<and>
     (\<exists>k t. find_session ops tid = Some k \<and> ops ! k = t \<and> fp t = Some f \<and> temp_path t = temp_path s \<and>
        final_path t = final_path s \<and> apply_perm t = apply_perm s \<and> file_mode t = file_mode s)"

lemma append_in_progress:
  assumes inv: "uploads_inv ops w" and pg: "in_progress ops tid s f v i bs w" and d: "d \<noteq> []"
  shows "\<exists>ops' w'. usb_responder_file_append_upload_chunk ops tid (Some d) w = (True, ops', w') \<and>
    uploads_inv ops' w' \<and> in_progress ops' tid s f v i (bs @ d) w'"
proof -
  from pg obtain k where k: "find_session ops tid = Some k" "fp (ops ! k) = Some f" "temp_path (ops ! k) = temp_path s"
      "final_path (ops ! k) = final_path s" "apply_perm (ops ! k) = apply_perm s" "file_mode (ops ! k) = file_mode s"
    and r: "receiving v i f bs w" by (auto simp: in_progress_def)
  obtain w1 where fw: "c_fwrite d f w = (length d, w1)" and r1: "receiving v i f (bs @ d) w1"
    using receiving_fwrite [OF r, of d] by (metis prod.collapse)
  note len = uploads_invD(2) [OF inv]
  note kk = find_session_Some [OF k(1)]
  let ?t = "(ops ! k)\<lparr>bytes_written := bytes_written (ops ! k) + of_nat (length d)\<rparr>"
  define full where "full \<longleftrightarrow> 0x100000 \<le> bytes_written ?t - synced_bytes ?t"
  define t where "t = (if full then ?t\<lparr>synced_bytes := bytes_written ?t\<rparr> else ?t)"
  define w2 where "w2 = (if full then upload_pace_writeback ?t w1 else w1)"
  have run: "usb_responder_file_append_upload_chunk ops tid (Some d) w = (True, ops[k := t], w2)"
    using d k(1,2) fw by (simp add: usb_responder_file_append_upload_chunk_def Let_def t_def w2_def full_def)
  have r2: "receiving v i f (bs @ d) w2"
    using r1 receiving_pace [OF r1, of ?t] k(2) by (simp add: w2_def)
  have t: "fp t = Some f" "temp_path t = temp_path s" "final_path t = final_path s" "apply_perm t = apply_perm s"
    "file_mode t = file_mode s" "used t = used (ops ! k)" "transfer_id t = transfer_id (ops ! k)"
    using k by (simp_all add: t_def)
  note inv2 = append_effect(1) [OF inv run]
  have "find_session (ops[k := t]) tid = Some k"
  proof -
    have "k < 16 \<and> used (ops[k := t] ! k) \<and> transfer_id (ops[k := t] ! k) = tid" using kk t len by simp
    then show ?thesis using session_table.find_iff [OF uploads_invD(3) [OF inv2]] by blast
  qed
  then have "in_progress (ops[k := t]) tid s f v i (bs @ d) w2"
    using r2 t kk len by (simp add: in_progress_def)
  with run inv2 show ?thesis by blast
qed

lemma append_chunks_in_progress:
  "uploads_inv ops w \<Longrightarrow> in_progress ops tid s f v i bs w \<Longrightarrow> [] \<notin> set ds \<Longrightarrow>
   \<exists>ops' w'. append_chunks tid ds ops w = (True, ops', w') \<and> uploads_inv ops' w' \<and>
     in_progress ops' tid s f v i (bs @ concat ds) w'"
proof (induction ds arbitrary: ops w bs)
  case Nil
  then show ?case by simp
next
  case (Cons d ds)
  then have "d \<noteq> []" by auto
  from append_in_progress [OF Cons.prems(1,2) this] obtain ops1 w1 where
    st: "usb_responder_file_append_upload_chunk ops tid (Some d) w = (True, ops1, w1)"
      "uploads_inv ops1 w1" "in_progress ops1 tid s f v i (bs @ d) w1" by blast
  from Cons.IH [OF st(2,3)] Cons.prems(3) st(1) show ?case by auto
qed

lemma append_chunks_others:
  "uploads_inv ops w \<Longrightarrow> append_chunks tid ds ops w = (True, ops', w') \<Longrightarrow> t \<noteq> tid \<Longrightarrow> sessions ops' t = sessions ops t"
proof (induction ds arbitrary: ops w)
  case Nil
  then show ?case by simp
next
  case (Cons d ds)
  obtain r ops1 w1 where st: "usb_responder_file_append_upload_chunk ops tid (Some d) w = (r, ops1, w1)"
    by (metis prod_cases3)
  have "r \<and> append_chunks tid ds ops1 w1 = (True, ops', w')" using Cons.prems(2) st by (cases r) simp_all
  then have r: "r" and rest: "append_chunks tid ds ops1 w1 = (True, ops', w')" by simp_all
  have "sessions ops1 t = sessions ops t"
    using append_effect(2) [OF Cons.prems(1) st r] Cons.prems(3) by auto
  with Cons.IH [OF append_effect(1) [OF Cons.prems(1) st] rest Cons.prems(3)] show ?case by simp
qed

section \<open>Beginning and finishing\<close>

definition admissible :: "string \<Rightarrow> string option \<Rightarrow> string option \<Rightarrow> 'a fs_world_scheme \<Rightarrow> bool" where
  "admissible rel desire perm w \<longleftrightarrow>
     ''..'' \<notin> set (comps (c_str rel)) \<and> length (c_str rel) < 4096 \<and> length (render (comps (c_str rel))) + 5 < 4096 \<and>
     fst (path_storage_matches_desire (storage_of (comps (c_str rel))) desire w) \<and>
     (storage_of (comps (c_str rel)) = STORAGE_SD \<longrightarrow> sd_present w) \<and>
     (perm_given perm \<longrightarrow> fst (parse_perm_octal perm w) \<noteq> None)"

lemma prepare_upload_ok:
  assumes "faults w = []" and adm: "admissible rel desire perm w"
  shows "\<exists>s. prepare_upload s0 rel desire perm w = (True, s, w)"
proof -
  have bp: "build_path (Some rel) 4096 w = (Inr (render (comps (c_str rel)), storage_of (comps (c_str rel))), w)"
    by (rule build_path_cases [of 4096 rel w]) (use adm in \<open>auto simp: admissible_def\<close>)
  let ?st = "storage_of (comps (c_str rel))"
  obtain ok1 w1 where p1: "path_storage_matches_desire ?st desire w = (ok1, w1)" by (metis surj_pair)
  have "ok1" using adm p1 by (simp add: admissible_def)
  with path_storage_matches_desire_quiet [OF p1] p1
  have pm: "path_storage_matches_desire ?st desire w = (True, w)" by simp
  obtain ok2 w2 where e2: "ensure_storage_writeable ?st w = (ok2, w2)" by (metis surj_pair)
  have "ok2" "w2 = w" using ensure_storage_quiet(3) [OF e2 assms(1)] adm by (simp_all add: admissible_def)
  with e2 have en: "ensure_storage_writeable ?st w = (True, w)" by simp
  have len: "length (c_str rel) < 4096" "length (render (comps (c_str rel))) + 5 < 4096"
    using adm by (simp_all add: admissible_def)
  show ?thesis
  proof (cases "perm_given perm")
    case True
    obtain r w3 where p3: "parse_perm_octal perm w = (r, w3)" by (metis surj_pair)
    have "r \<noteq> None" using adm p3 True by (simp add: admissible_def)
    with parse_perm_err_only [OF p3] p3 obtain m where "parse_perm_octal perm w = (Some m, w)" by auto
    with True bp pm en len show ?thesis by (simp add: prepare_upload_def perm_given_def Let_def)
  next
    case False
    with bp pm en len show ?thesis by (simp add: prepare_upload_def perm_given_def Let_def)
  qed
qed

text \<open>The temporary path: the last name of the final path with \<open>.part\<close> behind it.\<close>

lemma comps_part:
  assumes "list_all plain_name (q @ [c])"
  shows "comps (render (q @ [c]) @ ''.part'') = q @ [c @ ''.part'']"
proof -
  have "render (q @ [c]) @ ''.part'' = render (q @ [c @ ''.part''])" by (simp add: render_def)
  moreover have "plain_name (c @ ''.part'')" using assms by (auto simp: plain_name_def)
  ultimately show ?thesis using assms comps_render [of "q @ [c @ ''.part'']"] by simp
qed

lemma begin_in_progress:
  assumes inv: "uploads_inv ops w" and flt: "faults w = []" and wf: "fs_wf (vfs w)"
    and new: "sessions ops tid = None" and slot: "alloc_session ops \<noteq> None"
    and adm: "admissible rel desire perm w" and cs: "comps (c_str rel) = q @ [c]"
    and walk: "walk_err (vfs w) (q @ [c]) = None"
    and tmp: "\<And>old. fs_get (vfs w) (q @ [c @ ''.part'']) = Some old \<Longrightarrow> i_kind old = Reg"
  shows "\<exists>ops' w' s f v i. usb_responder_file_begin_upload ops tid (Some rel) desire perm w = (True, ops', w') \<and>
    uploads_inv ops' w' \<and> in_progress ops' tid s f v i [] w' \<and> upload_target s rel \<and>
    apply_perm s = perm_given perm \<and> (perm_given perm \<longrightarrow> fst (parse_perm_octal perm w) = Some (file_mode s)) \<and>
    created (q @ [c @ ''.part'']) i (0x1B6 AND NOT (umask w)) (vfs w) v \<and>
    sessions ops' = (sessions ops)(tid \<mapsto> the (sessions ops' tid))"
proof -
  have fnone: "find_session ops tid = None" using new by (simp add: sessions_def)
  obtain k ops2 where al: "alloc_session ops = Some (k, ops2)" using slot by auto
  have k: "k < 16" "\<not> used (ops ! k)" "ops2 = ops[k := (ops ! k)\<lparr>used := True\<rparr>]"
    using alloc_session_Some [OF al] by blast+
  have len: "length ops = 16" using uploads_invD(2) [OF inv] .
  obtain s where pr: "prepare_upload (ops2 ! k) rel desire perm w = (True, s, w)"
    using prepare_upload_ok [OF flt adm] by blast
  have "used (ops2 ! k)" using k len by simp
  note P = prepare_upload_spec [OF pr this]
  have tgt: "upload_target s rel" using P(5) by simp
  then have "temp_path s = render (q @ [c]) @ ''.part''" and pl: "list_all plain_name (q @ [c])"
    by (auto simp: upload_target_def cs)
  then have tcs: "comps (temp_path s) = q @ [c @ ''.part'']" using comps_part [of q c] by simp
  have twalk: "walk_err (vfs w) (q @ [c @ ''.part'']) = None" using walk by (simp add: walk_err_snoc)
  obtain i v where cr: "fs_creat (q @ [c @ ''.part'']) (0x1B6 AND NOT (umask w)) (vfs w) = Inr (i, v)"
      "created (q @ [c @ ''.part'']) i (0x1B6 AND NOT (umask w)) (vfs w) v"
    using fs_creat_created [OF wf twalk _ tmp, of "0x1B6 AND NOT (umask w)"] by blast
  let ?f = "next_stream w"
  let ?w = "w\<lparr>vfs := v, streams := (streams w)(?f \<mapsto> \<lparr>s_ino = i, s_off = 0, s_pending = []\<rparr>), next_stream := ?f + 1\<rparr>"
  have fo: "c_fopen_wb (temp_path s) w = (Some ?f, ?w)"
    using flt cr(1) by (simp add: c_fopen_wb_def next_fault_def tcs)
  let ?s = "s\<lparr>fp := Some ?f, transfer_id := tid, bytes_written := 0, synced_bytes := 0\<rparr>"
  have run: "usb_responder_file_begin_upload ops tid (Some rel) desire perm w = (True, ops[k := ?s], ?w)"
    using fnone al pr fo k(3) len by (simp add: usb_responder_file_begin_upload_def)
  note inv' = begin_effect(1) [OF inv run]
  have fnd: "find_session (ops[k := ?s]) tid = Some k"
    using session_table.find_iff [OF uploads_invD(3) [OF inv'], of tid k] k(1) len P(3) by simp
  have "v = vfs_data v i []" using cr(2) by (cases v) (auto simp: vfs_data_def created_def)
  then have "receiving v i ?f [] ?w" using flt unfolding receiving_def by auto
  then have pg: "in_progress (ops[k := ?s]) tid s ?f v i [] ?w"
    using fnd k(1) len by (simp add: in_progress_def)
  have "sessions (ops[k := ?s]) = (sessions ops)(tid \<mapsto> ?s)"
    using sessions_put_taken [OF inv k(1), of ?s] fnone k(2) P(3) by simp
  then have "sessions (ops[k := ?s]) = (sessions ops)(tid \<mapsto> the (sessions (ops[k := ?s]) tid))" by simp
  with run inv' pg tgt cr(2) P(7,8) show ?thesis by blast
qed

lemma created_prefix_dirs:
  assumes "created p i m v v'" and "\<not> is_dir v p"
  shows "is_dir v q \<Longrightarrow> is_dir v' q"
  using assms is_dir_cong [of v' q v] unfolding created_def by metis

text \<open>
  Committing the temporary file on the tree: the rename, and the change of the permission bits
  behind it, succeed; the final path holds the file and only the temporary path is gone.
\<close>

lemma commit_rename:
  fixes q c bs i v v0
  defines "a \<equiv> q @ [c @ ''.part'']" and "b \<equiv> q @ [c]"
  assumes base: "created a i m v0 v" and nt: "\<not> is_dir v0 a" and walk: "walk_err v0 b = None" and nd: "\<not> is_dir v0 b"
  shows "fs_rename a b (vfs_data v i bs) = Inr (fs_move a b (vfs_data v i bs))" (is ?rename)
    and "fs_get (fs_move a b (vfs_data v i bs)) p =
      (if p = b then Some ((inodes v i)\<lparr>i_data := bs\<rparr>) else if p = a then None else fs_get v0 p)" (is ?get)
    and "fs_ino (fs_move a b (vfs_data v i bs)) p = (if p = b then Some i else if p = a then None else fs_ino v p)" (is ?ino)
    and "walk_err (fs_move a b (vfs_data v i bs)) b = None" (is ?walk)
proof -
  let ?v = "vfs_data v i bs"
  have wfv: "fs_wf v" and ia: "fs_ino v a = Some i" and kind: "i_kind (inodes v i) = Reg"
    and old: "\<And>q. q \<noteq> a \<Longrightarrow> fs_get v q = fs_get v0 q"
    using base by (simp_all add: created_def)
  have wf: "fs_wf ?v" using wfv by (rule vfs_data_wf)
  have ia': "fs_ino ?v a = Some i" using ia by simp
  have ki: "i_kind (inodes ?v i) \<noteq> Dir" using kind by simp
  have dirs: "is_dir v0 p \<Longrightarrow> is_dir v p" for p by (rule created_prefix_dirs [OF base nt])
  have wb: "walk_err ?v b = None" using walk dirs by (simp add: vfs_data_walk walk_err_None)
  then have wa: "walk_err ?v a = None" unfolding a_def b_def by (simp only: walk_err_snoc)
  have ne: "a \<noteq> []" "b \<noteq> []" "a \<noteq> b" "\<not> under a b" by (simp_all add: a_def b_def under_def)
  have "fs_get v b = fs_get v0 b" by (rule old) (use ne(3) in simp)
  from is_dir_cong [OF this] nd have ndb: "\<not> is_dir ?v b" by simp
  note ren = fs_rename_file [OF wf ia' ki wa wb ne ndb]
  show ?rename by (rule ren(1))
  have "\<not> is_dir v a" using ia kind by (simp add: is_dir_def fs_get_def)
  then have nda: "\<not> is_dir ?v a" by simp
  have leaf: "x = a" if "(x, j) \<in> set (dents ?v)" "under a x" for x j
    using wf that nda by (rule fs_wf_leaf)
  have ino: "fs_ino (fs_move a b ?v) p = (if p = b then Some i else if p = a then None else fs_ino v p)" for p
    by (subst fs_ino_move [OF leaf ne(3) ia']) simp_all
  show ?ino by (rule ino)
  have get: "fs_get (fs_move a b ?v) p =
      (if p = b then Some ((inodes v i)\<lparr>i_data := bs\<rparr>) else if p = a then None else fs_get v0 p)" for p
    using ren(2) [where q = p] vfs_data_get [OF wfv ia, where d = bs and q = p] old [where q = p] by (cases "p = b"; cases "p = a") simp_all
  show ?get by (rule get)
  have "is_dir (fs_move a b ?v) p" if d: "is_dir v0 p" for p
  proof -
    have "p \<noteq> a" "p \<noteq> b" using d nt nd by blast+
    then have "fs_get (fs_move a b ?v) p = fs_get v0 p" using get [of p] by simp
    from is_dir_cong [OF this] d show ?thesis by blast
  qed
  then show ?walk using walk by (simp add: walk_err_None)
qed

lemma fs_chmod_get:
  assumes "walk_err v p = None" and "fs_ino v p = Some i" and "\<And>q. q \<noteq> p \<Longrightarrow> fs_ino v q \<noteq> Some i"
  shows "\<exists>v'. fs_chmod p m v = Inr v' \<and> fs_get v' p = Some ((inodes v i)\<lparr>i_mode := m\<rparr>) \<and>
    (\<forall>q. q \<noteq> p \<longrightarrow> fs_get v' q = fs_get v q)"
proof -
  let ?v = "v\<lparr>inodes := (inodes v)(i := (inodes v i)\<lparr>i_mode := m\<rparr>)\<rparr>"
  have ino: "fs_ino ?v = fs_ino v" by (simp add: fs_ino_def fun_eq_iff)
  have "fs_chmod p m v = Inr ?v" using assms(1,2) by (simp add: fs_chmod_def fs_lookup_def)
  moreover have "fs_get ?v p = Some ((inodes v i)\<lparr>i_mode := m\<rparr>)" using assms(2) by (simp add: fs_get_def ino)
  moreover have "fs_get ?v q = fs_get v q" if "q \<noteq> p" for q
    using assms(3) [OF that] by (cases "fs_ino v q") (auto simp: fs_get_def ino)
  ultimately show ?thesis by blast
qed

lemma finish_in_progress:
  fixes q c v0
  defines "a \<equiv> q @ [c @ ''.part'']" and "b \<equiv> q @ [c]"
  assumes pg: "in_progress ops tid s f v i bs w" and tgt: "upload_target s rel" and cs: "comps (c_str rel) = b"
    and base: "created a i m v0 v" and nt: "\<not> is_dir v0 a" and walk: "walk_err v0 b = None" and nd: "\<not> is_dir v0 b"
  shows "\<exists>ops' w'. usb_responder_file_finish_upload ops tid w = (True, ops', w') \<and>
    (\<exists>file. fs_get (vfs w') b = Some file \<and> i_kind file = Reg \<and> i_data file = bs \<and>
       i_mode file = (if apply_perm s then file_mode s else i_mode (inodes v i))) \<and>
    (\<forall>p. p \<noteq> b \<longrightarrow> fs_get (vfs w') p = (if p = a then None else fs_get v0 p))"
proof -
  from pg obtain k where k: "find_session ops tid = Some k" "fp (ops ! k) = Some f" "temp_path (ops ! k) = temp_path s"
      "final_path (ops ! k) = final_path s" "apply_perm (ops ! k) = apply_perm s" "file_mode (ops ! k) = file_mode s"
    and r: "receiving v i f bs w" by (auto simp: in_progress_def)
  let ?w1 = "snd (c_fclose f w)" and ?v2 = "fs_move a b (vfs_data v i bs)"
  have w1: "vfs ?w1 = vfs_data v i bs" "faults ?w1 = []" using receiving_fclose [OF r] by simp_all
  have pl: "list_all plain_name b" using tgt by (simp add: upload_target_def cs)
  then have paths: "comps (temp_path s) = a" "comps (final_path s) = b"
    using tgt comps_part [of q c] comps_render [of b] by (simp_all add: upload_target_def cs a_def b_def)
  note cm = commit_rename [OF base [unfolded a_def] nt [unfolded a_def] walk [unfolded b_def] nd [unfolded b_def],
      folded a_def b_def, where bs = bs]
  have cr: "c_rename (temp_path s) (final_path s) ?w1 = (True, ?w1\<lparr>vfs := ?v2\<rparr>)"
    using cm(1) w1 by (simp add: c_rename_def tree_call_def next_fault_def paths)
  have kind: "i_kind (inodes v i) = Reg" using base by (simp add: created_def)
  have ab: "a \<noteq> b" by (simp add: a_def b_def)
  show ?thesis
  proof (cases "apply_perm s")
    case False
    then have "usb_responder_file_finish_upload ops tid w = (True, ops[k := zero_session], ?w1\<lparr>vfs := ?v2\<rparr>)"
      using k cr by (simp add: usb_responder_file_finish_upload_def Let_def)
    then show ?thesis using False kind cm(2) by simp
  next
    case True
    have other: "fs_ino ?v2 p \<noteq> Some i" if "p \<noteq> b" for p
      using that cm(3) [of p] fs_wf_inj [of v a i p] base by (auto simp: created_def split: if_splits)
    from fs_chmod_get [OF cm(4) _ other, of "file_mode s"] obtain v3 where
      v3: "fs_chmod b (file_mode s) ?v2 = Inr v3" "fs_get v3 b = Some ((inodes ?v2 i)\<lparr>i_mode := file_mode s\<rparr>)"
        "\<And>p. p \<noteq> b \<Longrightarrow> fs_get v3 p = fs_get ?v2 p"
      using cm(3) [of b] by auto
    have "usb_responder_file_finish_upload ops tid w = (True, ops[k := zero_session], ?w1\<lparr>vfs := v3\<rparr>)"
      using k cr True v3(1) w1(2)
      by (simp add: usb_responder_file_finish_upload_def Let_def c_chmod_def tree_call_def next_fault_def paths)
    moreover have "inodes ?v2 i = (inodes v i)\<lparr>i_data := bs\<rparr>" by (simp add: fs_move_def)
    ultimately show ?thesis using True kind v3(2,3) cm(2) by simp
  qed
qed

section \<open>Two uploads to one path\<close>

text \<open>Writing through a stream changes file contents only.\<close>

lemma fflush_dirs:
  "is_dir (vfs (snd (c_fflush f w))) p = is_dir (vfs w) p" "fs_ino (vfs (snd (c_fflush f w))) p = fs_ino (vfs w) p"
  "faults w = [] \<Longrightarrow> faults (snd (c_fflush f w)) = []"
proof -
  obtain flt w1 where nf: "next_fault w = (flt, w1)" by (metis surj_pair)
  have q: "vfs w1 = vfs w" "faults w = [] \<Longrightarrow> faults w1 = []"
    using next_fault_quiet [OF nf] by (auto dest: quiet_vfs quiet_keeps(14))
  have data: "is_dir (v\<lparr>inodes := (inodes v)(i := (inodes v i)\<lparr>i_data := d\<rparr>)\<rparr>) p = is_dir v p"
    "fs_ino (v\<lparr>inodes := (inodes v)(i := (inodes v i)\<lparr>i_data := d\<rparr>)\<rparr>) p = fs_ino v p" for v i d
    using vfs_data_dir [of v i d p] fun_cong [OF vfs_data_ino [of v i d], of p] by (simp_all add: vfs_data_def)
  show "is_dir (vfs (snd (c_fflush f w))) p = is_dir (vfs w) p" "fs_ino (vfs (snd (c_fflush f w))) p = fs_ino (vfs w) p"
    "faults w = [] \<Longrightarrow> faults (snd (c_fflush f w)) = []"
    using q by (cases "streams w f"; cases flt; simp add: c_fflush_def nf Let_def data split: prod.split)+
qed

lemma fclose_lookup:
  "(\<exists>e. fs_lookup (vfs (snd (c_fclose f w))) p = Inl e) \<longleftrightarrow> (\<exists>e. fs_lookup (vfs w) p = Inl e)"
  "is_dir (vfs (snd (c_fclose f w))) p = is_dir (vfs w) p"
  "faults w = [] \<Longrightarrow> faults (snd (c_fclose f w)) = []"
proof -
  have v: "vfs (snd (c_fclose f w)) = vfs (snd (c_fflush f w))" "faults (snd (c_fclose f w)) = faults (snd (c_fflush f w))"
    by (simp_all add: c_fclose_def case_prod_beta)
  show "is_dir (vfs (snd (c_fclose f w))) p = is_dir (vfs w) p"
    "faults w = [] \<Longrightarrow> faults (snd (c_fclose f w)) = []" by (simp_all add: v fflush_dirs)
  have lk: "(\<exists>e. fs_lookup u p = Inl e) \<longleftrightarrow> walk_err u p \<noteq> None \<or> fs_ino u p = None" for u
    by (auto simp: fs_lookup_def split: option.splits)
  show "(\<exists>e. fs_lookup (vfs (snd (c_fclose f w))) p = Inl e) \<longleftrightarrow> (\<exists>e. fs_lookup (vfs w) p = Inl e)"
    unfolding lk v by (simp add: walk_err_None fflush_dirs)
qed

lemma unlink_gone:
  assumes "faults w = []" and "\<not> is_dir (vfs w) (comps p)"
  shows "\<exists>e. fs_lookup (vfs (snd (c_unlink p w))) (comps p) = Inl e" and "faults (snd (c_unlink p w)) = []"
proof -
  let ?p = "comps p" and ?v = "vfs w"
  show "faults (snd (c_unlink p w)) = []"
    using tree_only_keeps(14) [OF tree_only_snd(1) assms(1)] .
  show "\<exists>e. fs_lookup (vfs (snd (c_unlink p w))) ?p = Inl e"
  proof (cases "fs_lookup ?v ?p")
    case (Inl e)
    then show ?thesis using assms(1) by (simp add: c_unlink_def tree_call_def next_fault_def fs_unlink_def)
  next
    case (Inr i)
    then have "fs_ino ?v ?p = Some i" by (auto simp: fs_lookup_def split: option.splits)
    then have "i_kind (inodes ?v i) \<noteq> Dir" using assms(2) by (simp add: is_dir_def fs_get_def)
    then have "vfs (snd (c_unlink p w)) = fs_drop ?p ?v"
      using assms(1) Inr by (simp add: c_unlink_def tree_call_def next_fault_def fs_unlink_def)
    moreover have "map_of (filter (\<lambda>d. fst d \<noteq> ?p) ds) ?p = None" for ds :: "(fpath \<times> nat) list"
      by (induction ds) auto
    then have "fs_ino (fs_drop ?p ?v) ?p = None" by (simp add: fs_ino_def fs_drop_def)
    ultimately show ?thesis by (auto simp: fs_lookup_def split: option.split)
  qed
qed

section \<open>Properties\<close>

text \<open>
  An upload stores what was sent. From any table of sessions in which the transfer id is free and
  a slot is left, and any well-formed tree in which the target is acceptable and no call fails: a
  begin, any number of non-empty chunks and a finish all succeed; the final path then holds a
  regular file with the chunks in order and the requested permission bits, the temporary file is
  gone, no other path has changed, and the table of sessions is as before.
\<close>

theorem upload_stores_chunks:
  assumes "uploads_inv ops w" and "faults w = []" and "fs_wf (vfs w)"
    and "sessions ops tid = None" and "alloc_session ops \<noteq> None" and "admissible rel desire perm w"
    and "comps (c_str rel) = q @ [c]" and "walk_err (vfs w) (q @ [c]) = None" and "\<not> is_dir (vfs w) (q @ [c])"
    and "\<And>old. fs_get (vfs w) (q @ [c @ ''.part'']) = Some old \<Longrightarrow> i_kind old = Reg"
    and "[] \<notin> set chunks"
  shows "\<exists>ops' w' file. upload_file tid rel desire perm chunks ops w = (True, ops', w') \<and>
    fs_get (vfs w') (q @ [c]) = Some file \<and> i_kind file = Reg \<and> i_data file = concat chunks \<and>
    (perm_given perm \<longrightarrow> fst (parse_perm_octal perm w) = Some (i_mode file)) \<and>
    (\<forall>p. p \<noteq> q @ [c] \<longrightarrow> fs_get (vfs w') p = (if p = q @ [c @ ''.part''] then None else fs_get (vfs w) p)) \<and>
    sessions ops' = sessions ops"
proof -
  from begin_in_progress [OF assms(1-8,10)] obtain ops1 w1 s f v i where
    b: "usb_responder_file_begin_upload ops tid (Some rel) desire perm w = (True, ops1, w1)"
      "uploads_inv ops1 w1" "in_progress ops1 tid s f v i [] w1" "upload_target s rel"
      "apply_perm s = perm_given perm" "perm_given perm \<longrightarrow> fst (parse_perm_octal perm w) = Some (file_mode s)"
      "created (q @ [c @ ''.part'']) i (0x1B6 AND NOT (umask w)) (vfs w) v"
      "sessions ops1 = (sessions ops)(tid \<mapsto> the (sessions ops1 tid))" by blast
  from append_chunks_in_progress [OF b(2,3) assms(11)] obtain ops2 w2 where
    a: "append_chunks tid chunks ops1 w1 = (True, ops2, w2)" "uploads_inv ops2 w2"
      "in_progress ops2 tid s f v i (concat chunks) w2" by auto
  have nt: "\<not> is_dir (vfs w) (q @ [c @ ''.part''])"
    using assms(10) by (auto simp: is_dir_get)
  from finish_in_progress [OF a(3) b(4) assms(7) b(7) nt assms(8,9)] obtain ops3 w3 g where
    fin: "usb_responder_file_finish_upload ops2 tid w2 = (True, ops3, w3)"
      "fs_get (vfs w3) (q @ [c]) = Some g" "i_kind g = Reg" "i_data g = concat chunks"
      "i_mode g = (if apply_perm s then file_mode s else i_mode (inodes v i))"
      "\<forall>p. p \<noteq> q @ [c] \<longrightarrow> fs_get (vfs w3) p = (if p = q @ [c @ ''.part''] then None else fs_get (vfs w) p)" by blast
  have others: "sessions ops2 t = sessions ops1 t" if "t \<noteq> tid" for t
    using append_chunks_others [OF b(2) a(1) that] .
  have "sessions ops3 t = sessions ops t" for t
    using finish_effect(2) [OF a(2) fin(1)] others [of t] fun_cong [OF b(8), of t] assms(4) by (cases "t = tid") simp_all
  then have "sessions ops3 = sessions ops" by (rule ext)
  moreover have "upload_file tid rel desire perm chunks ops w = (True, ops3, w3)"
    using b(1) a(1) fin(1) by (simp add: upload_file_def)
  ultimately show ?thesis using fin b(5,6) by auto
qed

definition sample_vfs :: vfs where
  "sample_vfs = \<lparr>dents = [([], 0)],
     inodes = (\<lambda>_. \<lparr>i_kind = Dir, i_data = [], i_mode = 0x1ED, i_uid = 0, i_gid = 0\<rparr>),
     next_ino = 1, self_uid = 0, self_gid = 0\<rparr>"

definition sample_world :: fs_world where
  "sample_world = \<lparr>long_bits = 64, strerr = (\<lambda>_. []), last_error = [], errno_val = EINTR,
     allocs = [], live = 0, wscript = [], sent = [], rscript = [], pscript = [],
     vfs = sample_vfs, streams = (\<lambda>_. None), next_stream = 0, faults = [], umask = 0x12, dir_end = 0,
     mountinfo = None, statvfs_of = (\<lambda>_. None), pw_name = (\<lambda>_. None), gr_name = (\<lambda>_. None)\<rparr>"

lemma sample_vfs_facts:
  "fs_wf sample_vfs" "fs_get sample_vfs [x] = None" "walk_err sample_vfs [x] = None"
  by (simp_all add: sample_vfs_def fs_wf_def fs_get_def fs_ino_def walk_err_None is_dir_def)

lemma init_sessions: "sessions usb_responder_file_ops_init tid = None" "alloc_session usb_responder_file_ops_init \<noteq> None"
proof -
  have "find_session usb_responder_file_ops_init tid = None"
    by (simp add: find_session_None usb_responder_file_ops_init_def zero_session_def)
  then show "sessions usb_responder_file_ops_init tid = None" by (simp add: sessions_def)
  show "alloc_session usb_responder_file_ops_init \<noteq> None"
    unfolding alloc_session_None by (auto simp: usb_responder_file_ops_init_def zero_session_def intro: exI [of _ 0])
qed

theorem upload_stores_chunks_witness:
  "\<exists>ops' w' f. upload_file 5 ''/log'' None None [[1], [2, 3]] usb_responder_file_ops_init sample_world = (True, ops', w') \<and>
    fs_get (vfs w') [''log''] = Some f \<and> i_data f = [1, 2, 3]"
proof -
  have cs: "comps (c_str ''/log'') = [] @ [''log'']"
    by (simp add: comps_def c_str_def)
  have w: "faults sample_world = []" "vfs sample_world = sample_vfs" "streams sample_world = (\<lambda>_. None)"
    by (simp_all add: sample_world_def)
  have adm: "admissible ''/log'' None None sample_world"
    unfolding admissible_def cs
    by (simp add: c_str_def render_def storage_of_def perm_given_def path_storage_matches_desire_def)
  have nd: "\<not> is_dir sample_vfs ([] @ [''log''])" using sample_vfs_facts(2) [of "''log''"] by (simp add: is_dir_def)
  have part: "i_kind old = Reg" if "fs_get sample_vfs ([] @ [''log'' @ ''.part'']) = Some old" for old
    using sample_vfs_facts(2) [of "''log'' @ ''.part''"] that by (simp only: append_Nil) simp
  have chunks: "[] \<notin> set [[1], [2, 3 :: byte]]" by simp
  have wf: "fs_wf (vfs sample_world)" and walk: "walk_err (vfs sample_world) ([] @ [''log'']) = None"
    using sample_vfs_facts(1,3) by (simp_all add: w)
  from upload_stores_chunks [OF init_inv [OF w(3)] w(1) wf init_sessions adm cs walk _ _ chunks, of 5] nd part
  show ?thesis by (auto simp: w)
qed

text \<open>
  C16. No stream is lost. Start with no stream open and run any sequence of begin, append, finish and
  abort calls, whatever the file system lets fail: the ids of the used sessions stay unique, every
  used session has a stream of its own, no other stream is open, and a shutdown closes them all.
\<close>

theorem uploads_never_leak:
  assumes "streams w = (\<lambda>_. None)"
  shows "case upload_run calls (usb_responder_file_ops_init, w) of (ops', w') \<Rightarrow>
    uploads_inv ops' w' \<and> dom (streams (snd (usb_responder_file_ops_shutdown ops' w'))) = {}"
proof -
  obtain ops' w' where run: "upload_run calls (usb_responder_file_ops_init, w) = (ops', w')" by (metis surj_pair)
  have inv: "uploads_inv ops' w'" using upload_run_inv [OF init_inv [OF assms] run] .
  have "dom (streams w') \<subseteq> {f. \<exists>s\<in>set ops'. used s \<and> fp s = Some f}"
  proof
    fix f assume "f \<in> dom (streams w')"
    then obtain i where i: "i < 16" "fp (ops' ! i) = Some f" using uploads_invD(6) [OF inv, of f] by blast
    then have "used (ops' ! i)" using uploads_invD(4) [OF inv i(1)] by simp
    with i uploads_invD(2) [OF inv] show "f \<in> {f. \<exists>s\<in>set ops'. used s \<and> fp s = Some f}"
      by (auto intro: bexI [of _ "ops' ! i"])
  qed
  moreover have "take 16 ops' = ops'" using uploads_invD(2) [OF inv] by simp
  ultimately have "dom (streams (snd (usb_responder_file_ops_shutdown ops' w'))) = {}"
    by (auto simp: usb_responder_file_ops_shutdown_def shutdown_streams)
  with run inv show ?thesis by simp
qed

theorem uploads_never_leak_witness:
  "case upload_run [BeginUpload 1 (Some ''a'') None None, AbortUpload 2, BeginUpload 1 None None None]
      (usb_responder_file_ops_init, sample_world\<lparr>faults := [None, Some (ENOENT, 0)]\<rparr>) of (ops', w') \<Rightarrow>
    uploads_inv ops' w' \<and> dom (streams (snd (usb_responder_file_ops_shutdown ops' w'))) = {}"
  by (rule uploads_never_leak) (simp add: sample_world_def)




definition two_sessions :: file_ops where
  "two_sessions = usb_responder_file_ops_init
     [0 := zero_session\<lparr>used := True, transfer_id := 1, fp := Some 0, temp_path := ''/a.part'', final_path := ''/a''\<rparr>,
      1 := zero_session\<lparr>used := True, transfer_id := 2, fp := Some 1, temp_path := ''/a.part'', final_path := ''/a''\<rparr>]"

definition two_streams :: fs_world where
  "two_streams = sample_world\<lparr>streams := [0 \<mapsto> \<lparr>s_ino = 1, s_off = 0, s_pending = []\<rparr>, 1 \<mapsto> \<lparr>s_ino = 1, s_off = 0, s_pending = []\<rparr>],
     next_stream := 2\<rparr>"

lemma two_sessions_nth:
  "i < 16 \<Longrightarrow> two_sessions ! i =
    (if i = 0 then zero_session\<lparr>used := True, transfer_id := 1, fp := Some 0, temp_path := ''/a.part'', final_path := ''/a''\<rparr>
     else if i = 1 then zero_session\<lparr>used := True, transfer_id := 2, fp := Some 1, temp_path := ''/a.part'', final_path := ''/a''\<rparr>
     else zero_session)"
  by (simp add: two_sessions_def usb_responder_file_ops_init_def nth_list_update)

lemma two_sessions_inv: "uploads_inv two_sessions two_streams"
proof (rule uploads_invI)
  show "ids_unique two_sessions"
    by (auto simp: ids_unique_def two_sessions_nth zero_session_def)
      (simp add: two_sessions_def usb_responder_file_ops_init_def)
  show "f \<in> dom (streams two_streams) \<longleftrightarrow> (\<exists>i<16. fp (two_sessions ! i) = Some f)" for f
    by (auto simp: two_streams_def two_sessions_nth zero_session_def split: if_splits
        intro: exI [of _ 0] exI [of _ 1])
qed (auto simp: two_streams_def two_sessions_nth zero_session_def split: if_splits)


end
