(* ===== verification/Wire_Upload.thy ===== *)
theory Wire_Upload
  imports Dispatch Upload_Content
begin

text \<open>
  An upload as the host sees it: the begin request, the chunk requests and the end request, each handled by the
  dispatcher (\<open>src/responder.c\<close>) on top of the sessions of \<open>src/file_ops.c\<close>.
\<close>

section \<open>Handling a sequence of requests\<close>

fun handle_frames ::
  "responder_runtime \<Rightarrow> frame list \<Rightarrow> 'a rt_world_scheme \<Rightarrow> (bool \<times> responder_runtime) io \<times> 'a rt_world_scheme" where
  "handle_frames rt [] w = (Done (True, rt), w)"
| "handle_frames rt (fr # frs) w =
     (case handle_frame rt fr w of
        (Blocked, w1) \<Rightarrow> (Blocked, w1)
      | (Done (ok, rt1), w1) \<Rightarrow> if ok then handle_frames rt1 frs w1 else (Done (False, rt1), w1))"

lemma handle_frames_append:
  "handle_frames rt xs w = (Done (True, rt1), w1) \<Longrightarrow> handle_frames rt (xs @ ys) w = handle_frames rt1 ys w1"
  by (induction rt xs w rule: handle_frames.induct) (auto split: prod.splits io.splits if_splits)

text \<open>The requests of an upload: the numbers of the chunk requests are up to the host, the transfer id is \<open>tid\<close>.\<close>

definition begin_frame :: "u32 \<Rightarrow> kv list \<Rightarrow> frame" where
  "begin_frame tid its = host_request MSG_FILE_PUT_BEGIN tid (Some (kv_enc its))"

definition chunk_frame :: "u32 \<Rightarrow> u32 \<times> byte list \<Rightarrow> frame" where
  "chunk_frame tid c = host_request MSG_FILE_PUT_CHUNK (fst c) (Some (write_le32 tid @ snd c))"

definition end_frame :: "u32 \<Rightarrow> u32 \<Rightarrow> frame" where
  "end_frame tid req = host_request MSG_FILE_PUT_END req (Some (write_le32 tid))"

section \<open>What the replies leave alone\<close>

lemma send_kv_more:
  assumes "length its \<le> 32" and "send_kv_response rt m req its w = (ok, w')"
  shows "io_world.more w' = io_world.more w"
  using assms(1)
proof (cases rule: encode_kv_cases [of its w])
  case (fail w1)
  then show ?thesis using assms(2) mem_only_keeps [OF fail(2)] by (simp add: send_kv_response_def)
next
  case (ok w1)
  let ?fr = "reply_frame m req (Some (kv_bytes its)) (length (kv_bytes its))"
  obtain b w2 where wf: "usb_responder_protocol_write_frame (ep_in_fd rt) ?fr w1 = (b, w2)" by (metis surj_pair)
  have "io_world.more w2 = io_world.more w1"
    by (rule write_frame_keeps(3) [OF reply_frame_sized [OF kv_bytes_small [OF assms(1)]] wf])
  then show ?thesis using assms(2) ok wf mem_only_keeps [OF ok(2)] by (auto simp: send_kv_response_def c_free_def)
qed

text \<open>A status reply when memory and endpoint allow: it succeeds and the file system does not notice.\<close>

lemma send_kv_calm:
  assumes "length its \<le> 32" "allocs w = []" "wscript w = []"
  obtains w' where "send_kv_response rt m req its w = (True, w')" "io_world.more w' = io_world.more w" "allocs w' = []" "wscript w' = []"
proof -
  obtain ok w' where s: "send_kv_response rt m req its w = (ok, w')" by (metis surj_pair)
  obtain v fr where "send_kv_response rt m req its w = (True, v)" using send_kv_answer [OF assms] by blast
  then have "ok" "v = w'" using s by simp_all
  have "\<exists>w1. usb_responder_protocol_encode_kv its w = (Inr (kv_bytes its), w1) \<and> allocs w1 = [] \<and> wscript w1 = []"
    using assms(1)
    by (cases rule: encode_kv_cases [of its w]) (use assms in \<open>auto simp: mem_only_keeps mem_only_calm\<close>)
  then obtain w1 where e: "usb_responder_protocol_encode_kv its w = (Inr (kv_bytes its), w1)" "allocs w1 = []" "wscript w1 = []" by blast
  let ?fr = "reply_frame m req (Some (kv_bytes its)) (length (kv_bytes its))"
  have sized: "frame_sized ?fr" by (rule reply_frame_sized [OF kv_bytes_small [OF assms(1)]])
  obtain w2 where wf: "usb_responder_protocol_write_frame (ep_in_fd rt) ?fr w1 = (True, w2)" "wscript w2 = []"
    using write_frame_calm [OF sized e(2,3)] by blast
  have "allocs w2 = []" by (rule write_frame_keeps(4) [OF sized wf(1) e(2)])
  then have "allocs w' = []" "wscript w' = []" using s e(1) wf by (auto simp: send_kv_response_def c_free_def)
  then show ?thesis using that s \<open>ok\<close> send_kv_more [OF assms(1) s] by simp
qed

lemma in_progress_more:
  fixes w w' :: "'a rt_world_scheme"
  assumes "io_world.more w' = io_world.more w"
  shows "in_progress ops tid s f v i bs w' = in_progress ops tid s f v i bs w" and "uploads_inv ops w' = uploads_inv ops w"
    and "vfs w' = vfs w" and "faults w' = faults w"
proof -
  have "streams w' = streams w" "vfs w' = vfs w" "faults w' = faults w" "next_stream w' = next_stream w"
    using assms by (cases w; cases w'; simp)+
  then show "in_progress ops tid s f v i bs w' = in_progress ops tid s f v i bs w" "uploads_inv ops w' = uploads_inv ops w"
    "vfs w' = vfs w" "faults w' = faults w"
    by (simp_all add: in_progress_def receiving_def uploads_inv_def)
qed

section \<open>The three kinds of request\<close>

lemma request_payload:
  assumes "length d < 2 ^ 32"
  shows "payload (host_request m req (Some d)) = Some d" "unat (payload_len (header (host_request m req (Some d)))) = length d"
    "4 \<le> length d \<Longrightarrow> 4 \<le> payload_len (header (host_request m req (Some d)))"
proof -
  show "payload (host_request m req (Some d)) = Some d" by simp
  show u: "unat (payload_len (header (host_request m req (Some d)))) = length d"
    using assms by (simp add: host_request_def sealed_def reply_frame_def unat_of_nat take_bit_eq_mod)
  show "4 \<le> length d \<Longrightarrow> 4 \<le> payload_len (header (host_request m req (Some d)))"
    using u by (simp add: word_le_nat_alt)
qed

lemma upload_id_tid:
  assumes "length d + 4 < 2 ^ 32"
  shows "upload_id (host_request m req (Some (write_le32 tid @ d))) = Some tid"
  using request_payload [of "write_le32 tid @ d" m req] assms by (simp add: upload_id_def codec_simps)

lemma chunk_step:
  assumes inv: "uploads_inv (files rt) w" and pg: "in_progress (files rt) tid s f v i bs w"
    and d: "d \<noteq> []" "length d + 4 < 2 ^ 32" and calm: "allocs w = []" "wscript w = []"
  shows "\<exists>rt' w'. handle_frame rt (chunk_frame tid (req, d)) w = (Done (True, rt'), w') \<and> uploads_inv (files rt') w' \<and>
    in_progress (files rt') tid s f v i (bs @ d) w' \<and> allocs w' = [] \<and> wscript w' = [] \<and>
    (\<forall>t. t \<noteq> tid \<longrightarrow> sessions (files rt') t = sessions (files rt) t) \<and> cfg rt' = cfg rt"
proof -
  let ?fr = "chunk_frame tid (req, d)"
  obtain ops1 w1 where ap: "usb_responder_file_append_upload_chunk (files rt) tid (Some d) w = (True, ops1, w1)"
    "uploads_inv ops1 w1" "in_progress ops1 tid s f v i (bs @ d) w1" using append_in_progress [OF inv pg d(1)] by blast
  have c1: "allocs w1 = []" "wscript w1 = []" using append_acted [OF ap(1)] calm by (simp_all add: acted_def)
  obtain w2 where sk: "send_kv_response rt MSG_STATUS req status_ok w1 = (True, w2)" "io_world.more w2 = io_world.more w1"
    "allocs w2 = []" "wscript w2 = []"
    using send_kv_calm [OF _ c1, of status_ok rt MSG_STATUS req] by (auto simp: status_ok_def)
  have id: "upload_id ?fr = Some tid" using upload_id_tid [OF d(2)] by (simp add: chunk_frame_def)
  have "4 \<le> payload_len (header ?fr)" "payload ?fr = Some (write_le32 tid @ d)"
    using request_payload [of "write_le32 tid @ d"] d(2) by (simp_all add: chunk_frame_def)
  then have "handle_file_put_chunk rt ?fr w = (True, rt\<lparr>files := ops1\<rparr>, w2)"
    using id ap(1) sk(1) by (simp add: handle_file_put_chunk_def upload_status_def chunk_frame_def)
  moreover have "msg_of (msg_type (header ?fr)) = Some MSG_FILE_PUT_CHUNK"
    unfolding chunk_frame_def host_request_simps by (rule msg_of_code)
  ultimately have "handle_frame rt ?fr w = (Done (True, rt\<lparr>files := ops1\<rparr>), w2)"
    by (simp add: handle_frame_def upload_reply_def)
  moreover have "sessions ops1 t = sessions (files rt) t" if "t \<noteq> tid" for t
    using append_effect(2) [OF inv ap(1)] that by auto
  ultimately show ?thesis using ap(2,3) sk(3,4) in_progress_more [OF sk(2)] by (intro exI [of _ "rt\<lparr>files := ops1\<rparr>"] exI [of _ w2]) simp
qed

lemma chunk_steps:
  "uploads_inv (files rt) w \<Longrightarrow> in_progress (files rt) tid s f v i bs w \<Longrightarrow>
   (\<forall>c\<in>set cs. snd c \<noteq> [] \<and> length (snd c) + 4 < 2 ^ 32) \<Longrightarrow> allocs w = [] \<Longrightarrow> wscript w = [] \<Longrightarrow>
   \<exists>rt' w'. handle_frames rt (map (chunk_frame tid) cs) w = (Done (True, rt'), w') \<and> uploads_inv (files rt') w' \<and>
     in_progress (files rt') tid s f v i (bs @ concat (map snd cs)) w' \<and> allocs w' = [] \<and> wscript w' = [] \<and>
     (\<forall>t. t \<noteq> tid \<longrightarrow> sessions (files rt') t = sessions (files rt) t)"
proof (induction cs arbitrary: rt w bs)
  case Nil
  then show ?case by simp
next
  case (Cons c cs)
  obtain req d where c: "c = (req, d)" by (cases c)
  have "d \<noteq> []" "length d + 4 < 2 ^ 32" using Cons.prems(3) c by auto
  from chunk_step [OF Cons.prems(1,2) this Cons.prems(4,5), of req] obtain rt1 w1 where
    st: "handle_frame rt (chunk_frame tid (req, d)) w = (Done (True, rt1), w1)" "uploads_inv (files rt1) w1"
      "in_progress (files rt1) tid s f v i (bs @ d) w1" "allocs w1 = []" "wscript w1 = []"
      "\<forall>t. t \<noteq> tid \<longrightarrow> sessions (files rt1) t = sessions (files rt) t" by blast
  have "\<forall>c\<in>set cs. snd c \<noteq> [] \<and> length (snd c) + 4 < 2 ^ 32" using Cons.prems(3) by simp
  from Cons.IH [OF st(2,3) this st(4,5)] st(1,6) show ?case by (auto simp: c)
qed

lemma admissible_live [simp]:
  "admissible rel desire perm (w\<lparr>live := n\<rparr>) = admissible rel desire perm w"
  "fst (parse_perm_octal perm (w\<lparr>live := n\<rparr>)) = fst (parse_perm_octal perm w)"
  by (auto simp: admissible_def parse_perm_octal_def path_storage_matches_desire_def sd_present_def usb_responder_set_last_error_def
      Let_def split: option.splits prod.splits if_splits)

text \<open>The temporary path is free, or taken by a regular file, which the upload replaces.\<close>

definition part_free :: "fpath \<Rightarrow> vfs \<Rightarrow> bool" where
  "part_free p v \<longleftrightarrow> (case fs_get v p of None \<Rightarrow> True | Some old \<Rightarrow> i_kind old = Reg)"

lemma part_free_not_dir: "part_free p v \<Longrightarrow> \<not> is_dir v p"
  by (auto simp: part_free_def is_dir_get)

text \<open>What an upload needs of the world: a free id and slot, an acceptable target and nothing that fails.\<close>

definition upload_ready ::
  "responder_runtime \<Rightarrow> u32 \<Rightarrow> string \<Rightarrow> string option \<Rightarrow> string option \<Rightarrow> fpath \<Rightarrow> string \<Rightarrow> 'a fs_world_scheme \<Rightarrow> bool" where
  "upload_ready rt tid rel desire perm q c w \<longleftrightarrow>
     uploads_inv (files rt) w \<and> sessions (files rt) tid = None \<and> alloc_session (files rt) \<noteq> None \<and>
     fs_wf (vfs w) \<and> admissible rel desire perm w \<and> comps (c_str rel) = q @ [c] \<and> walk_err (vfs w) (q @ [c]) = None \<and>
     \<not> is_dir (vfs w) (q @ [c]) \<and> part_free (q @ [c @ ''.part'']) (vfs w) \<and>
     faults w = [] \<and> allocs w = [] \<and> wscript w = []"

lemma begin_step:
  assumes ready: "upload_ready rt tid rel desire perm q c w"
    and its: "kv_wf its" "kv_get its ''path'' = Some rel" "kv_get its ''desire_storage'' = desire" "kv_get its ''perm'' = perm"
  shows "\<exists>ops' w' s f v i. handle_frame rt (begin_frame tid its) w = (Done (True, rt\<lparr>files := ops'\<rparr>), w') \<and>
    uploads_inv ops' w' \<and> in_progress ops' tid s f v i [] w' \<and> upload_target s rel \<and>
    apply_perm s = perm_given perm \<and> (perm_given perm \<longrightarrow> fst (parse_perm_octal perm w) = Some (file_mode s)) \<and>
    created (q @ [c @ ''.part'']) i (0x1B6 AND NOT (umask w)) (vfs w) v \<and>
    sessions ops' = (sessions (files rt))(tid \<mapsto> the (sessions ops' tid)) \<and> allocs w' = [] \<and> wscript w' = []"
proof -
  let ?fr = "begin_frame tid its" and ?w0 = "w\<lparr>live := live w + 2 * int (length its)\<rparr>"
  have R: "uploads_inv (files rt) w" "sessions (files rt) tid = None" "alloc_session (files rt) \<noteq> None" "fs_wf (vfs w)"
    "admissible rel desire perm w" "comps (c_str rel) = q @ [c]" "walk_err (vfs w) (q @ [c]) = None"
    "\<And>old. fs_get (vfs w) (q @ [c @ ''.part'']) = Some old \<Longrightarrow> i_kind old = Reg"
    "faults w = []" "allocs w = []" "wscript w = []"
    using ready by (auto simp: upload_ready_def part_free_def)
  have len: "length (kv_enc its) < 2 ^ 32" using kv_bytes_small [of its] its(1) by (simp add: kv_enc_bytes kv_wf_def)
  note dec = kv_enc_decodes [OF its(1), of ?fr w] 
  have pl: "payload ?fr = Some (kv_enc its)" "unat (payload_len (header ?fr)) = length (kv_enc its)"
    using request_payload [OF len] by (simp_all add: begin_frame_def)
  note dec = dec [OF pl R(10)]
  have inv0: "uploads_inv (files rt) ?w0" using R(1) by (simp add: uploads_inv_def)
  obtain ops1 w1 s f v i where b:
    "usb_responder_file_begin_upload (files rt) tid (Some rel) desire perm ?w0 = (True, ops1, w1)"
    "uploads_inv ops1 w1" "in_progress ops1 tid s f v i [] w1" "upload_target s rel"
    "apply_perm s = perm_given perm" "perm_given perm \<longrightarrow> fst (parse_perm_octal perm w) = Some (file_mode s)"
    "created (q @ [c @ ''.part'']) i (0x1B6 AND NOT (umask w)) (vfs w) v"
    "sessions ops1 = (sessions (files rt))(tid \<mapsto> the (sessions ops1 tid))"
    using begin_in_progress [OF inv0 _ _ R(2,3) _ R(6), of desire perm] R by auto
  let ?w2 = "usb_responder_protocol_kv_free its w1"
  have A: "acted True 0 (files rt) ?w0 ops1 w1" by (rule begin_acted [OF uploads_invD(2) [OF R(1)] b(1)])
  have c1: "allocs w1 = []" "wscript w1 = []" using A R(10,11) by (simp_all add: acted_def)
  have m: "mem_only w1 ?w2 (- 2 * int (length its))" by (rule kv_free_mem [OF dec(2)])
  have c2: "allocs ?w2 = []" "wscript ?w2 = []" "io_world.more ?w2 = io_world.more w1"
    using mem_only_keeps [OF m] mem_only_calm [OF m] c1 by simp_all
  let ?its = "status_ok @ [kv_pair ''transfer_id'' ''request_id'']"
  obtain w3 where sk: "send_kv_response rt MSG_STATUS tid ?its ?w2 = (True, w3)" "io_world.more w3 = io_world.more ?w2"
    "allocs w3 = []" "wscript w3 = []"
    using send_kv_calm [OF _ c2(1,2), of ?its rt MSG_STATUS tid] by (auto simp: status_ok_def)
  have "handle_file_put_begin rt ?fr w = (True, rt\<lparr>files := ops1\<rparr>, w3)"
    using dec(1) its b(1) sk(1) by (simp add: handle_file_put_begin_def put_begin_def begin_frame_def)
  moreover have "msg_of (msg_type (header ?fr)) = Some MSG_FILE_PUT_BEGIN"
    unfolding begin_frame_def host_request_simps by (rule msg_of_code)
  ultimately have "handle_frame rt ?fr w = (Done (True, rt\<lparr>files := ops1\<rparr>), w3)"
    by (simp add: handle_frame_def upload_reply_def)
  moreover have "io_world.more w3 = io_world.more w1" using sk(2) c2(3) by simp
  note keep = in_progress_more [OF this]
  ultimately show ?thesis using b keep sk(3,4) by blast
qed

lemma end_step:
  assumes pg: "in_progress (files rt) tid s f v i bs w" and inv: "uploads_inv (files rt) w" and calm: "allocs w = []" "wscript w = []"
    and tgt: "upload_target s rel" and cs: "comps (c_str rel) = q @ [c]"
    and base: "created (q @ [c @ ''.part'']) i m v0 v" "\<not> is_dir v0 (q @ [c @ ''.part''])" "walk_err v0 (q @ [c]) = None" "\<not> is_dir v0 (q @ [c])"
  shows "\<exists>rt' w' file. handle_frame rt (end_frame tid req) w = (Done (True, rt'), w') \<and> sessions (files rt') = (sessions (files rt))(tid := None) \<and>
    fs_get (vfs w') (q @ [c]) = Some file \<and> i_kind file = Reg \<and> i_data file = bs \<and>
    (apply_perm s \<longrightarrow> i_mode file = file_mode s) \<and>
    (\<forall>p. p \<noteq> q @ [c] \<longrightarrow> fs_get (vfs w') p = (if p = q @ [c @ ''.part''] then None else fs_get v0 p))"
proof -
  let ?fr = "end_frame tid req"
  from finish_in_progress [OF pg tgt cs base(1,2,3,4)] obtain ops1 w1 g where
    fin: "usb_responder_file_finish_upload (files rt) tid w = (True, ops1, w1)"
      "fs_get (vfs w1) (q @ [c]) = Some g" "i_kind g = Reg" "i_data g = bs"
      "i_mode g = (if apply_perm s then file_mode s else i_mode (inodes v i))"
      "\<forall>p. p \<noteq> q @ [c] \<longrightarrow> fs_get (vfs w1) p = (if p = q @ [c @ ''.part''] then None else fs_get v0 p)" by blast
  have c1: "allocs w1 = []" "wscript w1 = []" using finish_acted [OF fin(1)] calm by (simp_all add: acted_def)
  obtain w2 where sk: "send_kv_response rt MSG_STATUS req status_ok w1 = (True, w2)" "io_world.more w2 = io_world.more w1"
    using send_kv_calm [OF _ c1, of status_ok rt MSG_STATUS req] by (auto simp: status_ok_def)
  have id: "upload_id ?fr = Some tid" using upload_id_tid [of "[]" MSG_FILE_PUT_END req tid] by (simp add: end_frame_def)
  then have "handle_file_put_end rt ?fr w = (True, rt\<lparr>files := ops1\<rparr>, w2)"
    using fin(1) sk(1) by (simp add: handle_file_put_end_def upload_status_def end_frame_def)
  moreover have "msg_of (msg_type (header ?fr)) = Some MSG_FILE_PUT_END"
    unfolding end_frame_def host_request_simps by (rule msg_of_code)
  ultimately have "handle_frame rt ?fr w = (Done (True, rt\<lparr>files := ops1\<rparr>), w2)"
    by (simp add: handle_frame_def upload_reply_def)
  moreover have "vfs w2 = vfs w1" by (rule in_progress_more(3) [OF sk(2)])
  moreover have "sessions ops1 = (sessions (files rt))(tid := None)" by (rule finish_effect(2) [OF inv fin(1)])
  ultimately show ?thesis using fin by (intro exI [of _ "rt\<lparr>files := ops1\<rparr>"] exI [of _ w2] exI [of _ g]) simp
qed

section \<open>Properties\<close>

text \<open>
  C5. A file travels over the wire. When the id is free, a slot is left, the target is acceptable and
  no call fails, the dispatcher serves a begin request, any number of chunk requests with non-empty data
  and an end request, all with the transfer id of the begin; the path then holds a regular file with
  the data of the chunks in order and the requested permission bits, the temporary file is gone, every other path
  is as before, and so is the table of sessions.
\<close>

theorem upload_over_wire:
  assumes ready: "upload_ready rt tid rel desire perm q c w"
    and its: "kv_wf its" "kv_get its ''path'' = Some rel" "kv_get its ''desire_storage'' = desire" "kv_get its ''perm'' = perm"
    and chunks: "\<forall>ch\<in>set cs. snd ch \<noteq> [] \<and> length (snd ch) + 4 < 2 ^ 32"
  shows "\<exists>rt' w' file. handle_frames rt (begin_frame tid its # map (chunk_frame tid) cs @ [end_frame tid req]) w = (Done (True, rt'), w') \<and>
    fs_get (vfs w') (q @ [c]) = Some file \<and> i_kind file = Reg \<and> i_data file = concat (map snd cs) \<and>
    (perm_given perm \<longrightarrow> fst (parse_perm_octal perm w) = Some (i_mode file)) \<and>
    (\<forall>p. p \<noteq> q @ [c] \<longrightarrow> fs_get (vfs w') p = (if p = q @ [c @ ''.part''] then None else fs_get (vfs w) p)) \<and>
    sessions (files rt') = sessions (files rt)"
proof -
  from begin_step [OF ready its] obtain ops1 w1 s f v i where
    b: "handle_frame rt (begin_frame tid its) w = (Done (True, rt\<lparr>files := ops1\<rparr>), w1)"
      "uploads_inv ops1 w1" "in_progress ops1 tid s f v i [] w1" "upload_target s rel"
      "apply_perm s = perm_given perm" "perm_given perm \<longrightarrow> fst (parse_perm_octal perm w) = Some (file_mode s)"
      "created (q @ [c @ ''.part'']) i (0x1B6 AND NOT (umask w)) (vfs w) v"
      "sessions ops1 = (sessions (files rt))(tid \<mapsto> the (sessions ops1 tid))" "allocs w1 = []" "wscript w1 = []" by blast
  let ?rt1 = "rt\<lparr>files := ops1\<rparr>"
  have "uploads_inv (files ?rt1) w1" "in_progress (files ?rt1) tid s f v i [] w1" using b(2,3) by simp_all
  from chunk_steps [OF this chunks b(9,10)] obtain rt2 w2 where
    m: "handle_frames ?rt1 (map (chunk_frame tid) cs) w1 = (Done (True, rt2), w2)" "uploads_inv (files rt2) w2"
      "in_progress (files rt2) tid s f v i (concat (map snd cs)) w2" "allocs w2 = []" "wscript w2 = []"
      "\<forall>t. t \<noteq> tid \<longrightarrow> sessions (files rt2) t = sessions ops1 t" by auto
  have R: "comps (c_str rel) = q @ [c]" "walk_err (vfs w) (q @ [c]) = None" "\<not> is_dir (vfs w) (q @ [c])"
    "\<not> is_dir (vfs w) (q @ [c @ ''.part''])" "sessions (files rt) tid = None"
    using ready part_free_not_dir by (auto simp: upload_ready_def)
  from end_step [OF m(3,2,4,5) b(4) R(1) b(7) R(4,2,3), of req] obtain rt3 w3 g where
    e: "handle_frame rt2 (end_frame tid req) w2 = (Done (True, rt3), w3)" "sessions (files rt3) = (sessions (files rt2))(tid := None)"
      "fs_get (vfs w3) (q @ [c]) = Some g" "i_kind g = Reg" "i_data g = concat (map snd cs)"
      "apply_perm s \<longrightarrow> i_mode g = file_mode s"
      "\<forall>p. p \<noteq> q @ [c] \<longrightarrow> fs_get (vfs w3) p = (if p = q @ [c @ ''.part''] then None else fs_get (vfs w) p)" by blast
  have "sessions (files rt3) t = sessions (files rt) t" for t
    using e(2) m(6) fun_cong [OF b(8), of t] R(5) by (cases "t = tid") simp_all
  then have "sessions (files rt3) = sessions (files rt)" by (rule ext)
  moreover have "handle_frames rt (begin_frame tid its # map (chunk_frame tid) cs @ [end_frame tid req]) w = (Done (True, rt3), w3)"
    using b(1) e(1) handle_frames_append [OF m(1), of "[end_frame tid req]"] by simp
  ultimately show ?thesis using e(3-7) b(5,6) by auto
qed

definition put_items :: "kv list" where
  "put_items = [kv_pair ''path'' ''/b'', kv_pair ''perm'' ''640'']"

lemma put_items_facts:
  "kv_wf put_items" "kv_get put_items ''path'' = Some ''/b''" "kv_get put_items ''desire_storage'' = None"
  "kv_get put_items ''perm'' = Some ''640''"
  by (simp_all add: put_items_def kv_wf_def kv_item_wf_def kv_pair_def kv_text_def strcmp_eq_def c_str_def)

lemma put_ready: "upload_ready start_runtime 5 ''/b'' None (Some ''640'') [] ''b'' (responder_world [])"
proof -
  have cs: "comps (c_str ''/b'') = [''b'']" by (simp add: comps_def c_str_def)
  have oct: "fst (parse_perm_octal (Some ''640'') (responder_world [])) \<noteq> None"
    by (simp add: responder_world_def parse_perm_octal_def c_str_def c_strtoul_def is_space_def is_digit_in_def digit_val_def)
  have "admissible ''/b'' None (Some ''640'') (responder_world [])"
    unfolding admissible_def cs using oct by (simp add: c_str_def render_def storage_of_def path_storage_matches_desire_def)
  moreover have "fs_get small_tree [x] = None" if "x \<noteq> ''a''" "x \<noteq> ''d''" for x
    using that by (simp add: small_tree_def fs_get_def fs_ino_def)
  then have "fs_get small_tree [''b''] = None" "fs_get small_tree [''b'' @ ''.part''] = None" by simp_all
  then have "\<not> is_dir small_tree [''b'']" "part_free [''b'' @ ''.part''] small_tree" by (simp_all add: is_dir_get part_free_def)
  moreover have "walk_err small_tree [''b''] = None" by (simp add: walk_err_None is_dir_get small_tree_get)
  moreover have "sessions usb_responder_file_ops_init 5 = None" "alloc_session usb_responder_file_ops_init \<noteq> None"
    by (rule init_sessions)+
  ultimately show ?thesis using tree_okD(1) [OF small_tree_ok] cs by (simp add: upload_ready_def)
qed

theorem upload_over_wire_witness:
  "\<exists>rt' w' file. handle_frames start_runtime
      [begin_frame 5 put_items, chunk_frame 5 (6, [1, 2]), chunk_frame 5 (7, [3]), end_frame 5 8] (responder_world []) = (Done (True, rt'), w') \<and>
    fs_get (vfs w') [''b''] = Some file \<and> i_data file = [1, 2, 3] \<and> sessions (files rt') = (\<lambda>_. None)"
  using upload_over_wire [where cs = "[(6, [1, 2]), (7, [3])]" and req = 8, OF put_ready put_items_facts] init_sessions(1) by (auto simp: fun_eq_iff)

end
