(* ===== verification/Spec2Isabelle.thy ===== *)
theory Spec2Isabelle
  imports Responder Wire_Upload
begin

text \<open>
  A verification development of \<open>epass_usb_responder\<close>, a daemon that makes a Linux device answer requests
  of a USB host: it stores and reads files, runs shell commands and reports device information over a bulk
  endpoint of the FunctionFS gadget.

  \<^bold>\<open>The program.\<close> \<open>main\<close> (\<open>src/main.c\<close>) reads the options and calls \<open>usb_responder_run\<close>
  (\<open>src/responder.c\<close>), which opens \<open>ep0\<close>, writes the descriptor blobs
  (\<open>src/functionfs_descriptors.c\<close>) and enters \<open>handle_io_loop\<close>. The loop polls \<open>ep0\<close> for events, which open and
  close the bulk endpoints, and the OUT endpoint for data. A request is reassembled in the buffer of the
  receiver, checked and decoded (\<open>src/protocol.c\<close>, \<open>src/crc32.c\<close>) and given to \<open>handle_frame\<close>, whose handlers use the file
  operations (\<open>src/file_ops.c\<close>) and the shell (\<open>src/shell_exec.c\<close>) and send one frame back. All of them
  use the descriptor loops and the last-error buffer of \<open>src/io_utils.c\<close>.

  \<^bold>\<open>Theories and sources.\<close> In the order of their imports:

  \<^item> \<open>Prelude\<close>: machine types, results as sums, checked loads and stores, C strings, \<open>snprintf\<close>, \<open>strtoul\<close>, sums at
    their width; the collections \<open>codec_simps\<close> and others that the component proofs use.
  \<^item> \<open>Codec\<close>: the locales \<open>encoding\<close> (a decoder undoes an encoder) and \<open>canonical_encoding\<close> (and accepts nothing else).
  \<^item> \<open>Crc32\<close>: \<open>src/crc32.c\<close>; the locale \<open>linear_step\<close> and its interpretation on the bit step of the code give the
    table-driven form and the detection of bursts.
  \<^item> \<open>Io_World\<close>, \<open>Io_Utils\<close>: heap, \<open>read\<close>, \<open>write\<close> and \<open>poll\<close> as scripts; \<open>src/io_utils.c\<close>.
  \<^item> \<open>Protocol\<close>, \<open>Frames\<close>, \<open>Kv\<close>, \<open>Commands\<close>, \<open>Frame_Io\<close>: \<open>src/protocol.h\<close> and \<open>src/protocol.c\<close>: headers, frames, key-value
    payloads, command payloads, sending and receiving a frame in transfers of at most 16384 bytes. Each pair of encoder and decoder interprets
    a locale of \<open>Codec\<close>; the locale \<open>frame_sender\<close> is what a sequence of replies relies on.
  \<^item> \<open>Posix\<close>, \<open>Vfs_Facts\<close>: the file system calls the sources use, over a tree of inodes, and facts about such trees.
  \<^item> \<open>Paths\<close>, \<open>Storage\<close>, \<open>Sessions\<close>, \<open>Uploads\<close>, \<open>Upload_Content\<close>, \<open>File_Read\<close>, \<open>File_Tree\<close>: \<open>src/file_ops.c\<close>. \<open>build_path\<close> and the
    permission parser; the mount table; the table of upload sessions (the locale \<open>slot_table\<close>, interpreted on \<open>find_session\<close> and \<open>alloc_session\<close>);
    begin, append, finish, abort; what an upload leaves in the tree; reading, listing and stat; deletion, creation of
    directories and renaming.
  \<^item> \<open>Shell_Exec\<close>: \<open>src/shell_exec.c\<close>.
  \<^item> \<open>Receive\<close>, \<open>Handlers\<close>, \<open>Replies\<close>, \<open>Dispatch\<close>, \<open>Wire_Upload\<close>: \<open>src/responder.c\<close> up to \<open>handle_frame\<close>: the reassembly buffer, one
    definition per handler, the contract of every handler, the dispatcher, and an upload as the host sends it.
  \<^item> \<open>Descriptors\<close>: \<open>src/functionfs_descriptors.c\<close>, with the blobs and their growing buffer.
  \<^item> \<open>Event_Loop\<close>, \<open>Responder\<close>: the endpoints, the events of \<open>ep0\<close>, the loop, \<open>usb_responder_run\<close> and \<open>src/main.c\<close>, and the
    properties of the loop and of the whole program.

  \<^bold>\<open>How state and effects correspond.\<close> A C structure is a record with its fields; an enumeration is a datatype
  with its numbers; a \<open>uint32_t\<close> is a 32-bit word, so that sums wrap as they do in the code. A pointer to bytes that
  may be null is an option, and a load outside the bytes is an error value of its own, so that theorems can say that it
  does not happen. A function that returns \<open>bool\<close> and sets the last error is a function on the world that returns the result
  and the next world. The world is a record that grows with the components: \<open>io_world\<close> (heap, last error, \<open>errno\<close>,
  what was sent), \<open>fs_world\<close> (tree, streams, mount table), \<open>sh_world\<close> (clock, process, pipes, signals) and \<open>rt_world\<close> (descriptors, \<open>ep0\<close>,
  kernel release). \<open>live\<close> counts the blocks that were allocated and not yet freed, \<open>streams\<close> the open streams,
  \<open>pipe_ends\<close>, \<open>children\<close> and \<open>fds\<close> the open pipe ends, unreaped children and open descriptors.

  What the environment decides is a script that the calls consume from the front, and theorems quantify over all
  scripts: \<open>allocs\<close> (an allocation fails or not; when it is used up, allocations succeed), \<open>wscript\<close> (how much a \<open>write\<close> takes or
  how it fails; used up: everything is taken), \<open>rscript\<close> and \<open>pscript\<close> (what a \<open>read\<close> or a \<open>poll\<close> of the receiver returns),
  \<open>faults\<close> (every file system call fails with any error or does not), \<open>rounds\<close> (one turn of the loop over the
  output pipes: readiness, data, the state of the child), \<open>ticks\<close> (the time that passes), \<open>ep0_reads\<close> and \<open>opens\<close>. Handling requests returns
  \<open>Blocked\<close> when the script of a call that waits is used up: the program still waits then. No definition uses fuel; loops
  recurse over the data, the script or a measure, so every definition is total.

  \<^bold>\<open>What the theorems show.\<close>

  \<^item> The wire. The frame decoder accepts exactly the encodings of well-formed frames and no frame whose payload was changed
    in up to four neighbouring bytes; every decoder stays inside its payload for all bytes and all allocator outcomes;
    encodings of key-value lists and commands are decoded back; a successful send transfers exactly the bytes of the frame,
    with the empty transfer the endpoint needs; reads return the frames of the stream in order and lose no byte;
    the receiver holds a bounded number of bytes.
  \<^item> Files. Paths are brought to a normal form without dot-dot; each operation changes exactly what it is meant to
    change, whatever call fails, and nothing on an SD card that is absent; a listing and a stat report the tree; the table
    of sessions refines a map, has unique ids and never loses a stream; an upload stores what was sent.
  \<^item> Commands. Output is the beginning of what the process wrote, up to the limits; every descriptor and child is given
    back; signals are sent when the deadline passes; the call returns under stated conditions.
  \<^item> Requests. Every handled request gets one answer with its id, keeps the invariant, gives back its memory (up to the 64
    blocks of a rejected list of 32 items, which the decoder leaves) and is handled in finite time unless it starts a process;
    what the host decodes from the answers to reads and commands is the content of the file and the result of the run, and a file
    sent in chunks arrives.
  \<^item> The loop and the program. In every reachable state the endpoints are open exactly while enabled; a frame at the
    front of the input is answered in its turn; when the program ends, all descriptors and streams are closed and
    the status is not 0.
  \<^item> The defects that the model shows: texts cut to 16 bits, the leaking decoder, the shared temporary
    file, the deadline that needs the shell itself, the pipelined request that waits.

  The hypotheses are of four kinds: the invariant that the properties of the loop establish; the well-formedness of a frame
  and of a tree; sizes below the widths of the code (stated where an addition could wrap); and, for the properties that
  something succeeds, that memory and calls do not fail. Every property with hypotheses has a concrete instance.

  \<^bold>\<open>Not modelled.\<close> Logging to \<open>stderr\<close> and the usage text, which nothing reads back, among it
  \<open>log_frame_header\<close>. The layout and numbers of the kernel's descriptor structures are
  not in the repository: they are the record \<open>usb_abi\<close>, with the documented sizes and field order of its heads in \<open>abi_ok\<close> and an
  instance \<open>linux_abi\<close>. What a command does to the file system is not modelled: the shell is its output, its exit and its
  time. The file system has no permission checks, hard links or concurrent writers, and symbolic links are leaves; a call that
  the kernel refuses for such a reason is a fault of the script. Signals do not interrupt calls other than through
  \<open>EINTR\<close> in the scripts. The Python client, the build files and the gadget scripts are not C code of the daemon.
\<close>

end
